(* ===== verification/Prelude.thy ===== *)
theory Prelude
  imports Main "HOL-Library.Word" "HOL-Library.Multiset"
begin

text \<open>
  Shared vocabulary of the gthread development: machine words and pointers, the
  outcomes of C++ code (normal return, exception, crash), ordered containers of the
  C++ standard library (\<open>std::multiset\<close> and \<open>std::multimap\<close> as lists kept in
  iteration order) and the generic lemmas and fact collections the components use.
\<close>

unbundle bit_operations_syntax

named_theorems outcome_simps \<open>evaluation of outcomes\<close>
named_theorems layout_defs \<open>definitions of the stack and task layout\<close>
named_theorems node_defs \<open>definitions of the primitive updates of the scheduler state\<close>

section \<open>Words and pointers\<close>

type_synonym u64 = "64 word"
type_synonym size_t = "64 word"
type_synonym addr = "64 word"

text \<open>The null pointer of C++.\<close>

abbreviation nullptr :: addr where
  "nullptr \<equiv> 0"

section \<open>Outcomes of C++ code\<close>

text \<open>
  \<open>exn\<close> are the C++ exceptions the sources throw; a caller can catch them, so a thrown
  outcome carries the state that stack unwinding leaves behind. \<open>fault\<close> are the ways in
  which a run ends without a defined continuation: a null or dangling pointer is followed,
  an \<open>assert\<close> fails, an uninitialised variable is read, a spin lock is taken twice by the
  only kernel thread.
\<close>

datatype exn =
    Domain_error string
  | Logic_error string
  | Runtime_error string
  | Bad_function_call
  | System_error string

datatype fault =
    Bad_pointer
  | Assert_failed
  | Uninit_read
  | Spin_forever

datatype ('a, 's) outcome =
    Ret 'a 's
  | Throw exn 's
  | Crash fault

fun bind_outcome ::
    "('a, 's) outcome \<Rightarrow> ('a \<Rightarrow> 's \<Rightarrow> ('b, 's) outcome) \<Rightarrow> ('b, 's) outcome" where
  "bind_outcome (Ret a s) f = f a s"
| "bind_outcome (Throw e s) f = Throw e s"
| "bind_outcome (Crash c) f = Crash c"

text \<open>
  A lock guard: the destructor runs on normal return and on stack unwinding alike.
\<close>

fun with_dtor :: "('s \<Rightarrow> ('u, 's) outcome) \<Rightarrow> ('a, 's) outcome \<Rightarrow> ('a, 's) outcome" where
  "with_dtor d (Ret a s) = bind_outcome (d s) (\<lambda>_ s'. Ret a s')"
| "with_dtor d (Throw e s) = bind_outcome (d s) (\<lambda>_ s'. Throw e s')"
| "with_dtor d (Crash c) = Crash c"

section \<open>Ordered containers\<close>

text \<open>
  \<open>std::multiset\<close> and \<open>std::multimap\<close> insert at the upper bound of the equal range:
  before the first element that the new one is less than. \<open>begin()\<close> is the head.
\<close>

fun ms_emplace :: "('a \<Rightarrow> 'a \<Rightarrow> bool) \<Rightarrow> 'a \<Rightarrow> 'a list \<Rightarrow> 'a list" where
  "ms_emplace lt x [] = [x]"
| "ms_emplace lt x (y # ys) = (if lt x y then x # y # ys else y # ms_emplace lt x ys)"

text \<open>Iteration order of a container with comparator \<open>lt\<close>.\<close>

abbreviation ms_ordered :: "('a \<Rightarrow> 'a \<Rightarrow> bool) \<Rightarrow> 'a list \<Rightarrow> bool" where
  "ms_ordered lt xs \<equiv> sorted_wrt (\<lambda>x y. \<not> lt y x) xs"

section \<open>Generic lemmas\<close>

lemma bind_outcome_Ret_iff [outcome_simps]:
  "bind_outcome r f = Ret b s' \<longleftrightarrow> (\<exists>a s. r = Ret a s \<and> f a s = Ret b s')"
  by (cases r) auto

lemma bind_outcome_assoc:
  "bind_outcome (bind_outcome r f) g = bind_outcome r (\<lambda>a s. bind_outcome (f a s) g)"
  by (cases r) auto

lemma with_dtor_Ret_iff [outcome_simps]:
  "with_dtor d r = Ret a s' \<longleftrightarrow> (\<exists>s u. r = Ret a s \<and> d s = Ret u s')"
  by (cases r) (auto simp: outcome_simps split: outcome.splits elim: bind_outcome.elims)

lemma mset_ms_emplace [simp]: "mset (ms_emplace lt x xs) = add_mset x (mset xs)"
  by (induction xs) auto

lemma set_ms_emplace [simp]: "set (ms_emplace lt x xs) = insert x (set xs)"
  by (induction xs) auto

lemma length_ms_emplace [simp]: "length (ms_emplace lt x xs) = Suc (length xs)"
  by (induction xs) auto

lemma ms_emplace_not_Nil [simp]: "ms_emplace lt x xs \<noteq> []"
  by (cases xs) auto

lemma distinct_ms_emplace [simp]:
  "distinct (ms_emplace lt x xs) \<longleftrightarrow> x \<notin> set xs \<and> distinct xs"
  by (induction xs) auto

lemma ms_emplace_cong:
  "(\<And>y. y \<in> set xs \<Longrightarrow> lt x y = lt' x y) \<Longrightarrow> ms_emplace lt x xs = ms_emplace lt' x xs"
  by (induction xs) auto

lemma sorted_wrt_mono_on:
  "sorted_wrt P xs \<Longrightarrow> (\<And>x y. x \<in> set xs \<Longrightarrow> y \<in> set xs \<Longrightarrow> P x y \<Longrightarrow> Q x y) \<Longrightarrow> sorted_wrt Q xs"
  by (induction xs) auto

lemma unat_lt_64: "unat (x :: 64 word) < 2 ^ 64"
  using unsigned_less [of x, where ?'a = nat] by simp

text \<open>An address range that does not wrap around, as the unsigned comparison of offsets.\<close>

lemma unat_diff_less_iff:
  fixes x d :: "64 word"
  assumes "unat d + n \<le> 2 ^ 64"
  shows "unat (x - d) < n \<longleftrightarrow> unat d \<le> unat x \<and> unat x < unat d + n"
proof (cases "d \<le> x")
  case True
  then have "unat (x - d) = unat x - unat d"
    by (simp add: unat_sub)
  with True show ?thesis by (auto simp: word_le_nat_alt)
next
  case False
  then have "unat (x - d) = 2 ^ 64 + unat x - unat d"
    by (simp add: unat_sub_if_size word_size word_le_nat_alt)
  with False assms show ?thesis by (auto simp: word_le_nat_alt)
qed

section \<open>The comparator contract\<close>

text \<open>
  The requirement the C++ standard puts on the comparator of an ordered container:
  a strict weak order. Everything the scheduler relies on (the iteration order is kept
  by insertion, \<open>begin()\<close> is a minimum) follows from it.
\<close>

locale strict_weak_order =
  fixes lt :: "'a \<Rightarrow> 'a \<Rightarrow> bool"
  assumes lt_asym: "lt x y \<Longrightarrow> \<not> lt y x"
    and lt_cotrans: "lt x z \<Longrightarrow> lt x y \<or> lt y z"
begin

lemma lt_irrefl: "\<not> lt x x"
  using lt_asym by blast

lemma not_less_trans: "\<not> lt y x \<Longrightarrow> \<not> lt z y \<Longrightarrow> \<not> lt z x"
  using lt_cotrans by blast

lemma ordered_emplace: "ms_ordered lt xs \<Longrightarrow> ms_ordered lt (ms_emplace lt x xs)"
proof (induction xs)
  case Nil
  then show ?case by simp
next
  case (Cons y ys)
  show ?case
  proof (cases "lt x y")
    case True
    with Cons.prems show ?thesis
      by (auto dest: lt_asym not_less_trans)
  next
    case False
    with Cons show ?thesis by auto
  qed
qed

lemma begin_minimal: "ms_ordered lt (x # xs) \<Longrightarrow> y \<in> set (x # xs) \<Longrightarrow> \<not> lt y x"
  using lt_irrefl by auto

end

end
