(* ===== verification/Log.thy ===== *)
theory Log
  imports Prelude
begin

text \<open>
  Logging (\<open>util/log_impl.h\<close>). The state is the text written to standard error so far; an
  argument is the text that \<open>operator<<\<close> produces for it. The lemmas show that a fatal message is
  on standard error before the exception leaves, that the exception carries the same text, and
  that a debug build turns the debug-only variant into the fatal one.
\<close>

section \<open>Definitions\<close>

text \<open>The recursion over the argument pack, which is not empty.\<close>

fun gthread_recursive_write :: "string \<Rightarrow> string list \<Rightarrow> string" where
  "gthread_recursive_write stream [] = stream"
| "gthread_recursive_write stream (t # rest) = gthread_recursive_write (stream @ t) rest"

definition endl :: string where
  "endl = [CHR 0x0A]"

definition gthread_log :: "string list \<Rightarrow> string \<Rightarrow> (unit, string) outcome" where
  "gthread_log args cerr = Ret () (gthread_recursive_write cerr args @ endl)"

definition gthread_log_fatal :: "string list \<Rightarrow> string \<Rightarrow> (unit, string) outcome" where
  "gthread_log_fatal args cerr =
     (let cerr' = gthread_recursive_write cerr args @ endl;
          ss = gthread_recursive_write [] args
      in Throw (Runtime_error ss) cerr')"

text \<open>\<open>ndebug\<close>: the macro \<open>NDEBUG\<close> is defined.\<close>

definition gthread_log_dfatal :: "bool \<Rightarrow> string list \<Rightarrow> string \<Rightarrow> (unit, string) outcome" where
  "gthread_log_dfatal ndebug args cerr =
     (if ndebug then gthread_log args cerr else gthread_log_fatal args cerr)"

section \<open>Lemmas\<close>

lemma gthread_recursive_write_concat [simp]: "gthread_recursive_write stream args = stream @ concat args"
  by (induction stream args rule: gthread_recursive_write.induct) simp_all

text \<open>
  The three variants write the same line, the arguments one after the other; the fatal one
  then throws a runtime error with that text, and the debug-only one does when asserts are on.
\<close>

theorem log_fatal_reports:
  "\<exists>line. line = concat args @ endl \<and> gthread_log args cerr = Ret () (cerr @ line)
     \<and> gthread_log_fatal args cerr = Throw (Runtime_error (concat args)) (cerr @ line)
     \<and> gthread_log_dfatal True args cerr = Ret () (cerr @ line)
     \<and> gthread_log_dfatal False args cerr = Throw (Runtime_error (concat args)) (cerr @ line)"
  by (simp add: gthread_log_def gthread_log_fatal_def gthread_log_dfatal_def)

end
