(* ===== verification/Arch.thy ===== *)
theory Arch
  imports Prelude
begin

text \<open>
  The x86-64 layer (\<open>arch/\<close>): the bit mask of \<open>bit_twiddle.h\<close> and the context switch
  of \<open>switch_to.s\<close>. A machine state holds the registers the two assembly routines touch
  and the memory as quadwords by address; every access of the routines is a quadword
  access. Quadwords at different addresses are independent, so that two accesses that overlap
  partially are not represented; with stacks and contexts aligned as the ABI asks there are none. The lemmas show that the mask is the least one covering its argument and that
  a saved context is resumed with exactly the registers and the return address it had.
\<close>

section \<open>Definitions\<close>

subsection \<open>The bit mask\<close>

text \<open>
  The instruction \<open>lzcntq\<close>: the number of zero bits above the highest set bit, 64 for 0.
\<close>

primrec lzcnt_below :: "u64 \<Rightarrow> nat \<Rightarrow> nat" where
  "lzcnt_below w 0 = 0"
| "lzcnt_below w (Suc n) = (if bit w n then 0 else Suc (lzcnt_below w n))"

definition lzcntq :: "u64 \<Rightarrow> nat" where
  "lzcntq w = lzcnt_below w 64"

text \<open>
  \<open>right_mask\<close> shifts the all-ones word right by that number. A C++ shift by the width of
  the type or more is undefined: \<open>None\<close>.
\<close>

definition right_mask :: "u64 \<Rightarrow> u64 option" where
  "right_mask bits =
     (let leading_zeroes = lzcntq bits
      in if leading_zeroes < 64 then Some (drop_bit leading_zeroes (NOT 0)) else None)"

subsection \<open>The context switch\<close>

text \<open>\<open>struct _gthread_saved_ctx\<close>: the callee-saved registers, in the order of the struct.\<close>

record gthread_saved_ctx =
  rbx :: u64
  rsp :: u64
  rbp :: u64
  r12 :: u64
  r13 :: u64
  r14 :: u64
  r15 :: u64

text \<open>
  The machine: the callee-saved registers, the argument registers of the calling
  convention, the instruction pointer and memory.
\<close>

record machine =
  ctx :: gthread_saved_ctx
  rdi :: u64
  rsi :: u64
  rdx :: u64
  rcx :: u64
  rip :: u64
  mem :: "addr \<Rightarrow> u64"

text \<open>The seven stores \<open>mov %reg, off(%rdi)\<close> and the seven loads \<open>mov off(%rsi), %reg\<close>.\<close>

definition save_ctx :: "addr \<Rightarrow> gthread_saved_ctx \<Rightarrow> (addr \<Rightarrow> u64) \<Rightarrow> (addr \<Rightarrow> u64)" where
  "save_ctx p c m =
     m(p + 0x00 := rbx c, p + 0x08 := rsp c, p + 0x10 := rbp c, p + 0x18 := r12 c,
       p + 0x20 := r13 c, p + 0x28 := r14 c, p + 0x30 := r15 c)"

definition load_ctx :: "addr \<Rightarrow> (addr \<Rightarrow> u64) \<Rightarrow> gthread_saved_ctx" where
  "load_ctx p m =
     \<lparr>rbx = m (p + 0x00), rsp = m (p + 0x08), rbp = m (p + 0x10), r12 = m (p + 0x18),
      r13 = m (p + 0x20), r14 = m (p + 0x28), r15 = m (p + 0x30)\<rparr>"

text \<open>The instruction \<open>ret\<close> pops the return address.\<close>

definition ret_insn :: "machine \<Rightarrow> machine" where
  "ret_insn m = m\<lparr>rip := mem m (rsp (ctx m)), ctx := (ctx m)\<lparr>rsp := rsp (ctx m) + 8\<rparr>\<rparr>"

text \<open>
  \<open>gthread_switch_to(from, to)\<close> with \<open>from\<close> in \<open>%rdi\<close> and \<open>to\<close> in \<open>%rsi\<close>: a null \<open>from\<close>
  skips the stores.
\<close>

definition save_self :: "machine \<Rightarrow> machine" where
  "save_self m = (if rdi m = 0 then m else m\<lparr>mem := save_ctx (rdi m) (ctx m) (mem m)\<rparr>)"

definition gthread_switch_to :: "machine \<Rightarrow> machine" where
  "gthread_switch_to m =
     (let m1 = save_self m
      in ret_insn (m1\<lparr>ctx := load_ctx (rsi m1) (mem m1)\<rparr>))"

text \<open>
  \<open>gthread_switch_to_and_spawn(self_ctx, stack, entry, arg)\<close>: the stack pointer is set
  below \<open>stack\<close>, a zero return address and frame pointer end the stack trace, and control
  jumps to \<open>entry\<close> with \<open>arg\<close> as its first argument.
\<close>

definition gthread_switch_to_and_spawn :: "machine \<Rightarrow> machine" where
  "gthread_switch_to_and_spawn m =
     (let m1 = save_self m;
          sp = rsi m1 - 0x8
      in m1\<lparr>ctx := (ctx m1)\<lparr>rsp := sp, rbp := 0\<rparr>,
            mem := (mem m1)(sp := 0),
            rdi := rcx m1,
            rip := rdx m1\<rparr>)"

text \<open>
  A call of one of the routines by compiled code: the arguments are in their registers
  and the return address has been pushed.
\<close>

definition call_switch_to :: "u64 \<Rightarrow> addr \<Rightarrow> addr \<Rightarrow> machine \<Rightarrow> machine" where
  "call_switch_to ret from_ctx to_ctx m =
     (let sp = rsp (ctx m) - 8
      in gthread_switch_to
           (m\<lparr>rdi := from_ctx, rsi := to_ctx, ctx := (ctx m)\<lparr>rsp := sp\<rparr>,
              mem := (mem m)(sp := ret)\<rparr>))"

text \<open>The quadwords a saved context at \<open>p\<close> occupies.\<close>

definition ctx_cells :: "addr \<Rightarrow> addr set" where
  "ctx_cells p = {p + 0x00, p + 0x08, p + 0x10, p + 0x18, p + 0x20, p + 0x28, p + 0x30}"

text \<open>Concrete register files for the worked instances below.\<close>

abbreviation (input) demo_ctx :: "u64 \<Rightarrow> gthread_saved_ctx" where
  "demo_ctx sp \<equiv> \<lparr>rbx = 1, rsp = sp, rbp = 2, r12 = 3, r13 = 4, r14 = 5, r15 = 6\<rparr>"

abbreviation (input) demo_machine :: "u64 \<Rightarrow> machine" where
  "demo_machine sp \<equiv>
     \<lparr>ctx = demo_ctx sp, rdi = 0, rsi = 0, rdx = 0, rcx = 0, rip = 0, mem = (\<lambda>_. 0)\<rparr>"

section \<open>The bit mask\<close>

lemma lzcnt_below_le: "lzcnt_below w n \<le> n"
  by (induction n) auto

lemma lzcnt_below_high:
  "n - lzcnt_below w n \<le> i \<Longrightarrow> i < n \<Longrightarrow> \<not> bit w i"
proof (induction n)
  case 0
  then show ?case by simp
next
  case (Suc n)
  then show ?case
    by (cases "i = n") (auto split: if_splits)
qed

lemma lzcnt_below_top:
  "lzcnt_below w n < n \<Longrightarrow> bit w (n - Suc (lzcnt_below w n))"
proof (induction n)
  case 0
  then show ?case by simp
next
  case (Suc n)
  then show ?case by (auto split: if_splits)
qed

lemma lzcntq_lt_64: "w \<noteq> 0 \<Longrightarrow> lzcntq w < 64"
proof (rule ccontr)
  assume "w \<noteq> 0" and "\<not> lzcntq w < 64"
  with lzcnt_below_le [of w 64] have "lzcnt_below w 64 = 64"
    by (simp add: lzcntq_def)
  then have "\<not> bit w i" if "i < 64" for i
    using lzcnt_below_high [of 64 w i] that by simp
  then have "w = 0"
    by (intro bit_word_eqI) auto
  with \<open>w \<noteq> 0\<close> show False by simp
qed

lemma right_mask_eq_mask:
  assumes "w \<noteq> 0"
  shows "right_mask w = Some (mask (64 - lzcntq w))"
proof -
  have "drop_bit n (NOT 0 :: u64) = mask (64 - n)" if "n \<le> 64" for n
    using that by (intro bit_word_eqI) (auto simp: bit_simps)
  then show ?thesis
    using lzcntq_lt_64 [OF assms] by (simp add: right_mask_def)
qed

lemma unat_lt_power_if_high_bits_clear:
  fixes w :: u64
  assumes "\<And>i. n \<le> i \<Longrightarrow> i < 64 \<Longrightarrow> \<not> bit w i"
  shows "unat w < 2 ^ n"
proof -
  have "take_bit n w = w"
    by (intro bit_word_eqI) (use assms in \<open>auto simp: bit_simps linorder_not_less [symmetric]\<close>)
  then have "unat w = take_bit n (unat w)"
    by (metis unsigned_take_bit_eq)
  then show ?thesis
    by (metis take_bit_nat_less_exp)
qed

lemma power_le_unat_if_bit:
  fixes w :: u64
  assumes "bit w n"
  shows "2 ^ n \<le> unat w"
proof -
  have "bit (unat w) n"
    using assms by (simp add: bit_unsigned_iff)
  then have "unat w div 2 ^ n \<noteq> 0"
    by (metis bit_iff_odd even_zero)
  then show ?thesis
    by (metis div_less linorder_not_le)
qed

lemma unat_mask_u64:
  assumes "n \<le> 64"
  shows "unat (mask n :: u64) = 2 ^ n - 1"
proof -
  have "unat (mask n :: u64) = mask n"
    by (rule bit_eqI) (use assms in \<open>auto simp: bit_simps\<close>)
  then show ?thesis by (simp add: mask_eq_exp_minus_1)
qed

text \<open>
  For a nonzero argument \<open>right_mask\<close> is defined and returns the least mask of the form
  \<open>2^k - 1\<close> that covers it: the argument is at most the mask, and the mask without its top
  bit is smaller than the argument.
\<close>

theorem right_mask_least:
  assumes "w \<noteq> 0"
  shows "\<exists>k m. right_mask w = Some m \<and> 0 < k \<and> k \<le> 64 \<and> unat m = 2 ^ k - 1
           \<and> unat w \<le> unat m \<and> 2 ^ (k - 1) \<le> unat w"
proof -
  define k where "k = 64 - lzcntq w"
  have lz: "lzcnt_below w 64 < 64"
    using lzcntq_lt_64 [OF assms] by (simp add: lzcntq_def)
  have m: "unat (mask k :: u64) = 2 ^ k - 1"
    by (rule unat_mask_u64) (simp add: k_def)
  have "unat w < 2 ^ k"
    by (rule unat_lt_power_if_high_bits_clear)
      (use lzcnt_below_high [of 64 w] in \<open>simp add: k_def lzcntq_def\<close>)
  moreover have "2 ^ (k - 1) \<le> unat w"
    using power_le_unat_if_bit [OF lzcnt_below_top [OF lz]] by (simp add: k_def lzcntq_def)
  moreover have "0 < k" "k \<le> 64"
    using lz by (simp_all add: k_def lzcntq_def)
  ultimately show ?thesis
    using right_mask_eq_mask [OF assms] m by (intro exI [of _ k] exI [of _ "mask k"]) (simp add: k_def)
qed

theorem right_mask_least_witness:
  "(0x4F00 :: u64) \<noteq> 0 \<and>
   (\<exists>k m. right_mask 0x4F00 = Some m \<and> 0 < k \<and> k \<le> 64 \<and> unat m = 2 ^ k - 1
      \<and> unat (0x4F00 :: u64) \<le> unat m \<and> 2 ^ (k - 1) \<le> unat (0x4F00 :: u64))"
  using right_mask_least [of "0x4F00"] by simp

section \<open>The context switch\<close>

lemma load_save_ctx [simp]: "load_ctx p (save_ctx p c m) = c"
  by (simp add: load_ctx_def save_ctx_def)

lemma save_ctx_other: "x \<notin> ctx_cells p \<Longrightarrow> save_ctx p c m x = m x"
  by (simp add: save_ctx_def ctx_cells_def)

lemma load_ctx_cong: "(\<And>x. x \<in> ctx_cells p \<Longrightarrow> m x = m' x) \<Longrightarrow> load_ctx p m = load_ctx p m'"
  by (simp add: load_ctx_def ctx_cells_def)

lemma mem_gthread_switch_to [simp]: "mem (gthread_switch_to m) = mem (save_self m)"
  by (simp add: gthread_switch_to_def ret_insn_def Let_def)

lemma save_self_fields [simp]:
  "ctx (save_self m) = ctx m" "rsi (save_self m) = rsi m" "rdx (save_self m) = rdx m"
  "rcx (save_self m) = rcx m" "rdi (save_self m) = rdi m"
  by (simp_all add: save_self_def)

text \<open>A quadword outside the saved context keeps its value.\<close>

lemma save_self_other: "rdi m = 0 \<or> x \<notin> ctx_cells (rdi m) \<Longrightarrow> mem (save_self m) x = mem m x"
  by (auto simp: save_self_def save_ctx_other)

text \<open>After the call, the caller's context block and its return slot hold its state.\<close>

lemma call_switch_to_saved:
  fixes r b :: u64
  assumes "a \<noteq> 0" and "rsp (ctx m) - 8 \<notin> ctx_cells a"
  defines "m1 \<equiv> call_switch_to r a b m"
  shows "load_ctx a (mem m1) = (ctx m)\<lparr>rsp := rsp (ctx m) - 8\<rparr>"
    and "mem m1 (rsp (ctx m) - 8) = r"
  using assms(1,2)
  by (simp_all add: m1_def call_switch_to_def Let_def save_self_def save_ctx_other)

lemma call_switch_to_resumes:
  assumes "c = 0 \<or> ctx_cells c \<inter> insert (rsp (load_ctx a (mem m))) (ctx_cells a) = {}"
    and "rsp (ctx m) - 8 \<notin> insert (rsp (load_ctx a (mem m))) (ctx_cells a)"
  shows "ctx (call_switch_to r c a m) =
           (load_ctx a (mem m))\<lparr>rsp := rsp (load_ctx a (mem m)) + 8\<rparr>"
    and "rip (call_switch_to r c a m) = mem m (rsp (load_ctx a (mem m)))"
proof -
  let ?sp = "rsp (ctx m) - 8"
  let ?m0 = "m\<lparr>rdi := c, rsi := a, ctx := (ctx m)\<lparr>rsp := ?sp\<rparr>, mem := (mem m)(?sp := r)\<rparr>"
  let ?T = "insert (rsp (load_ctx a (mem m))) (ctx_cells a)"
  have keep: "mem (save_self ?m0) x = mem m x" if "x \<in> ?T" for x
  proof -
    have "mem (save_self ?m0) x = mem ?m0 x"
      by (rule save_self_other) (use assms(1) that in auto)
    then show ?thesis using assms(2) that by auto
  qed
  have "load_ctx a (mem (save_self ?m0)) = load_ctx a (mem m)"
    by (rule load_ctx_cong) (use keep in blast)
  then show "ctx (call_switch_to r c a m) =
           (load_ctx a (mem m))\<lparr>rsp := rsp (load_ctx a (mem m)) + 8\<rparr>"
    and "rip (call_switch_to r c a m) = mem m (rsp (load_ctx a (mem m)))"
    using keep by (simp_all add: call_switch_to_def gthread_switch_to_def ret_insn_def Let_def)
qed

text \<open>
  C30. A context saved by \<open>gthread_switch_to\<close> is resumed exactly: when some later context
  switches back to it, and nothing has overwritten the saved context or the return slot on
  its stack meanwhile, control returns to the instruction after its own call with every
  callee-saved register as it was.
\<close>

theorem switch_to_roundtrip:
  assumes "a \<noteq> 0" and "rsp (ctx m) - 8 \<notin> ctx_cells a"
    and intact: "\<forall>x \<in> insert (rsp (ctx m) - 8) (ctx_cells a).
        mem m' x = mem (call_switch_to r a b m) x"
    and "c = 0 \<or> ctx_cells c \<inter> insert (rsp (ctx m) - 8) (ctx_cells a) = {}"
    and "rsp (ctx m') - 8 \<notin> insert (rsp (ctx m) - 8) (ctx_cells a)"
  shows "ctx (call_switch_to r' c a m') = ctx m \<and> rip (call_switch_to r' c a m') = r"
proof -
  have "load_ctx a (mem m') = load_ctx a (mem (call_switch_to r a b m))"
    by (rule load_ctx_cong) (use intact in blast)
  then have saved: "load_ctx a (mem m') = (ctx m)\<lparr>rsp := rsp (ctx m) - 8\<rparr>"
    using call_switch_to_saved(1) [OF assms(1,2)] by simp
  have slot: "mem m' (rsp (ctx m) - 8) = r"
    using intact call_switch_to_saved(2) [OF assms(1,2)] by simp
  show ?thesis
    using call_switch_to_resumes [of c a m' r'] assms(4,5) saved slot by simp
qed

theorem switch_to_roundtrip_witness:
  "let m = demo_machine 0x8000;
       m' = (call_switch_to 0x400123 0x1000 0x2000 m)\<lparr>ctx := demo_ctx 0x9000\<rparr>
   in ctx (call_switch_to 0x400456 0x2000 0x1000 m') = demo_ctx 0x8000 \<and>
      rip (call_switch_to 0x400456 0x2000 0x1000 m') = 0x400123"
  using switch_to_roundtrip [of "0x1000" "demo_machine 0x8000"
      "(call_switch_to 0x400123 0x1000 0x2000 (demo_machine 0x8000))\<lparr>ctx := demo_ctx 0x9000\<rparr>"
      "0x400123" "0x2000" "0x2000" "0x400456"]
  by (simp add: ctx_cells_def)

text \<open>
  A spawned context starts as the calling convention asks of a function entry: on a
  16-byte aligned stack the stack pointer is 8 bytes below \<open>stack\<close>, holds a null return
  address, the argument is in the first argument register, and the spawner's context is
  saved unless \<open>self_ctx\<close> is null.
\<close>

theorem spawn_entry_state:
  assumes "unat (rsi m) mod 16 = 0" and "rsi m - 8 \<notin> ctx_cells (rdi m)"
  defines "m' \<equiv> gthread_switch_to_and_spawn m"
  shows "rip m' = rdx m \<and> rdi m' = rcx m \<and> rbp (ctx m') = 0
       \<and> rsp (ctx m') = rsi m - 8 \<and> (unat (rsp (ctx m') + 8)) mod 16 = 0
       \<and> mem m' (rsp (ctx m')) = 0
       \<and> (if rdi m = 0 then \<forall>x. x = rsi m - 8 \<or> mem m' x = mem m x
          else load_ctx (rdi m) (mem m') = ctx m)"
proof -
  have "load_ctx (rdi m) (mem m') = load_ctx (rdi m) (mem (save_self m))"
    by (rule load_ctx_cong) (use assms(2) in \<open>auto simp: m'_def gthread_switch_to_and_spawn_def Let_def\<close>)
  then have "rdi m \<noteq> 0 \<Longrightarrow> load_ctx (rdi m) (mem m') = ctx m"
    by (simp add: save_self_def)
  then show ?thesis
    using assms(1) by (simp add: m'_def gthread_switch_to_and_spawn_def Let_def save_self_def)
qed

theorem spawn_entry_state_witness:
  "let m = (demo_machine 0x8000)\<lparr>rdi := 0x1000, rsi := 0x7000, rdx := 0x400000, rcx := 42\<rparr>;
       m' = gthread_switch_to_and_spawn m
   in rip m' = 0x400000 \<and> rdi m' = 42 \<and> rsp (ctx m') = 0x6FF8 \<and>
      load_ctx 0x1000 (mem m') = demo_ctx 0x8000"
  using spawn_entry_state [of "(demo_machine 0x8000)\<lparr>rdi := 0x1000, rsi := 0x7000,
      rdx := 0x400000, rcx := 42\<rparr>"]
  by (simp add: ctx_cells_def)

end
