(* ===== verification/Memory.thy ===== *)
theory Memory
  imports Arch
begin

text \<open>
  Task attributes (\<open>sched/task_attr.h\<close>), the wrappers of the C allocator
  (\<open>platform/memory_inline.h\<close>) and stack allocation (\<open>platform/memory_linux.cc\<close>,
  \<open>platform/memory_macos.cc\<close>). The kernel calls are parameters: an \<open>os\<close> record answers
  \<open>mmap\<close>, \<open>mprotect\<close>, \<open>munmap\<close> and the page size, a \<open>mach\<close> record the Mach calls; the
  model returns the calls it makes, so that what is mapped, protected and unmapped can be
  compared. The out parameters are \<open>None\<close> where the code leaves them unwritten.
\<close>

section \<open>Definitions\<close>

record stack_t =
  st_addr :: addr
  st_size :: size_t
  st_guardsize :: size_t

record attr =
  stack :: stack_t
  alloc_tls :: bool

definition k_default_attr :: attr where
  "k_default_attr =
     \<lparr>stack = \<lparr>st_addr = nullptr, st_size = 4 * 1024 * 1024, st_guardsize = - 1\<rparr>,
      alloc_tls = True\<rparr>"

definition k_light_attr :: attr where
  "k_light_attr =
     \<lparr>stack = \<lparr>st_addr = nullptr, st_size = 4 * 1024 * 1024, st_guardsize = - 1\<rparr>,
      alloc_tls = False\<rparr>"

definition k_stack_min :: size_t where
  "k_stack_min = 0x2000"

datatype os_call =
    Mmap addr size_t
  | Mprotect addr size_t
  | Munmap addr size_t

record os =
  page_size :: size_t
  os_mmap :: "size_t \<Rightarrow> addr"
  os_mprotect :: "addr \<Rightarrow> size_t \<Rightarrow> int"
  os_munmap :: "addr \<Rightarrow> size_t \<Rightarrow> int"

text \<open>What \<open>mmap\<close> returns on failure.\<close>

definition MAP_FAILED :: addr where
  "MAP_FAILED = - 1"

record stack_alloc =
  ret_code :: int
  out_stack :: "addr option"
  out_total :: "size_t option"
  os_calls :: "os_call list"

text \<open>The guard size: the attribute's, or the minimum for the value \<open>size_t(-1)\<close>.\<close>

definition guard_size :: "attr \<Rightarrow> size_t" where
  "guard_size a =
     (if st_guardsize (stack a) \<noteq> - 1 then st_guardsize (stack a) else k_stack_min)"

text \<open>
  \<open>allocate_stack\<close> on Linux. \<open>want_total\<close> says that \<open>total_stack_size\<close> is not null (a null
  one is redirected to a local).
\<close>

definition allocate_stack :: "os \<Rightarrow> bool \<Rightarrow> attr \<Rightarrow> stack_alloc" where
  "allocate_stack k want_total a =
     (if st_addr (stack a) \<noteq> nullptr then
        if st_addr (stack a) mod page_size k \<noteq> 0
        then \<lparr>ret_code = - 1, out_stack = None, out_total = None, os_calls = []\<rparr>
        else \<lparr>ret_code = 0, out_stack = Some (st_addr (stack a)), out_total = None, os_calls = []\<rparr>
      else
        (let guardsize = guard_size a;
             total = st_size (stack a) + guardsize;
             out = (if want_total then Some total else None);
             stackaddr = os_mmap k total;
             calls = [Mmap stackaddr total]
         in if stackaddr = nullptr
            then \<lparr>ret_code = - 1, out_stack = None, out_total = out, os_calls = calls\<rparr>
            else if guardsize \<noteq> 0 \<and> os_mprotect k stackaddr guardsize \<noteq> 0
            then \<lparr>ret_code = - 1, out_stack = None, out_total = out,
                  os_calls = calls @ [Mprotect stackaddr guardsize]\<rparr>
            else \<lparr>ret_code = 0, out_stack = Some (stackaddr + total), out_total = out,
                  os_calls = calls @ (if guardsize \<noteq> 0 then [Mprotect stackaddr guardsize] else [])\<rparr>))"

definition free_stack :: "os \<Rightarrow> addr \<Rightarrow> size_t \<Rightarrow> int \<times> os_call list" where
  "free_stack k stack_base total_stack_size =
     (os_munmap k stack_base total_stack_size, [Munmap stack_base total_stack_size])"

text \<open>
  The macOS version. \<open>mach_map\<close> and \<open>mach_allocate\<close> answer with a return code (0 is
  \<open>KERN_SUCCESS\<close>) and the address; the first gets the alignment mask
  \<open>right_mask(total)\<close>, undefined for a total of 0. The result of \<open>mach_vm_protect\<close> is
  dropped by the code. \<open>EAGAIN\<close> is 35 on macOS.
\<close>

record mach =
  vm_page_size :: size_t
  mach_map :: "size_t \<Rightarrow> u64 \<Rightarrow> int \<times> addr"
  mach_allocate :: "size_t \<Rightarrow> int \<times> addr"
  mach_deallocate :: "addr \<Rightarrow> size_t \<Rightarrow> int"

definition EAGAIN :: int where
  "EAGAIN = 35"

definition allocate_stack_macos :: "mach \<Rightarrow> bool \<Rightarrow> attr \<Rightarrow> stack_alloc option" where
  "allocate_stack_macos k want_total a =
     (if st_addr (stack a) \<noteq> nullptr then
        if st_addr (stack a) mod vm_page_size k \<noteq> 0
        then Some \<lparr>ret_code = - 1, out_stack = None, out_total = None, os_calls = []\<rparr>
        else Some \<lparr>ret_code = 0, out_stack = Some (st_addr (stack a)), out_total = None, os_calls = []\<rparr>
      else
        (let guardsize = guard_size a;
             total = st_size (stack a) + guardsize;
             out = (if want_total then Some total else None)
         in case right_mask total of
              None \<Rightarrow> None
            | Some align \<Rightarrow>
                (let (kr1, addr1) = mach_map k total align;
                     (kr, stackaddr) = (if kr1 \<noteq> 0 then mach_allocate k total else (kr1, addr1))
                 in Some
                     (if kr \<noteq> 0
                      then \<lparr>ret_code = EAGAIN, out_stack = None, out_total = out, os_calls = []\<rparr>
                      else \<lparr>ret_code = 0, out_stack = Some (stackaddr + total), out_total = out,
                            os_calls = Mmap stackaddr total
                              # (if guardsize \<noteq> 0 then [Mprotect stackaddr guardsize] else [])\<rparr>))))"

definition free_stack_macos :: "mach \<Rightarrow> addr \<Rightarrow> size_t \<Rightarrow> int" where
  "free_stack_macos k stack_base total_stack_size =
     (if mach_deallocate k stack_base total_stack_size \<noteq> 0 then EAGAIN else 0)"

text \<open>
  The wrappers of the C allocator (\<open>platform/memory_inline.h\<close>); the library functions are
  arguments, over a heap of any type. \<open>posix_memalign\<close> answers with a return code and the address
  it stores, which is not read when the code is not 0.
\<close>

definition allocate :: "(size_t \<Rightarrow> 'h \<Rightarrow> addr \<times> 'h) \<Rightarrow> size_t \<Rightarrow> 'h \<Rightarrow> addr \<times> 'h" where
  "allocate malloc n h = malloc n h"

definition allocate_aligned ::
    "(size_t \<Rightarrow> size_t \<Rightarrow> 'h \<Rightarrow> (int \<times> addr) \<times> 'h) \<Rightarrow> size_t \<Rightarrow> size_t \<Rightarrow> 'h \<Rightarrow> addr \<times> 'h" where
  "allocate_aligned posix_memalign alignment n h =
     (let ((rc, p), h') = posix_memalign alignment n h
      in (if rc \<noteq> 0 then nullptr else p, h'))"

definition free_data :: "(addr \<Rightarrow> 'h \<Rightarrow> 'h) \<Rightarrow> addr \<Rightarrow> 'h \<Rightarrow> 'h" where
  "free_data libc_free p h = libc_free p h"

text \<open>
  The documented success of \<open>mmap\<close>: a page-aligned region that is neither null nor
  \<open>MAP_FAILED\<close> and does not wrap around the address space.
\<close>

definition mapped_at :: "os \<Rightarrow> size_t \<Rightarrow> addr \<Rightarrow> bool" where
  "mapped_at k len base \<longleftrightarrow>
     os_mmap k len = base \<and> base \<noteq> nullptr \<and> base \<noteq> MAP_FAILED \<and>
     base mod page_size k = 0 \<and> unat base + unat len < 2 ^ 64"

text \<open>A Linux kernel that maps at a fixed address, for the worked instances.\<close>

definition demo_os :: "addr \<Rightarrow> os" where
  "demo_os base =
     \<lparr>page_size = 0x1000, os_mmap = (\<lambda>_. base), os_mprotect = (\<lambda>_ _. 0), os_munmap = (\<lambda>_ _. 0)\<rparr>"

section \<open>Lemmas\<close>

lemma guard_size_default [simp]:
  "guard_size k_default_attr = 0x2000" "guard_size k_light_attr = 0x2000"
  by (simp_all add: guard_size_def k_default_attr_def k_light_attr_def k_stack_min_def)

lemma allocate_stack_new:
  assumes "st_addr (stack a) = nullptr"
    and "mapped_at k (st_size (stack a) + guard_size a) base"
    and "guard_size a \<noteq> 0 \<Longrightarrow> os_mprotect k base (guard_size a) = 0"
  shows "allocate_stack k True a =
     \<lparr>ret_code = 0,
      out_stack = Some (base + (st_size (stack a) + guard_size a)),
      out_total = Some (st_size (stack a) + guard_size a),
      os_calls = Mmap base (st_size (stack a) + guard_size a)
        # (if guard_size a \<noteq> 0 then [Mprotect base (guard_size a)] else [])\<rparr>"
  using assms by (auto simp: allocate_stack_def mapped_at_def Let_def)

text \<open>
  A freshly mapped stack: allocation succeeds, \<open>*stack\<close> is the first address above the
  mapping, the guard is the lowest part of it, exactly \<open>stack.size\<close> bytes remain above the
  guard, and \<open>free_stack(stack - total, total)\<close>, as \<open>task::destroy\<close> calls it, unmaps exactly
  the region that was mapped.
\<close>

theorem allocate_free_stack:
  assumes "st_addr (stack a) = nullptr"
    and "unat (st_size (stack a)) + unat (guard_size a) < 2 ^ 64"
    and "mapped_at k (st_size (stack a) + guard_size a) base"
    and "guard_size a \<noteq> 0 \<longrightarrow> os_mprotect k base (guard_size a) = 0"
  shows "\<exists>top total. out_stack (allocate_stack k True a) = Some top
      \<and> out_total (allocate_stack k True a) = Some total
      \<and> ret_code (allocate_stack k True a) = 0
      \<and> hd (os_calls (allocate_stack k True a)) = Mmap base total
      \<and> unat top = unat base + unat (guard_size a) + unat (st_size (stack a))
      \<and> (guard_size a \<noteq> 0 \<longrightarrow>
           Mprotect base (guard_size a) \<in> set (os_calls (allocate_stack k True a)))
      \<and> snd (free_stack k (top - total) total) = [Munmap base total]"
proof -
  let ?total = "st_size (stack a) + guard_size a"
  have total: "unat ?total = unat (st_size (stack a)) + unat (guard_size a)"
    using assms(2) by (simp add: unat_word_ariths)
  have "unat (base + ?total) = unat base + unat ?total"
    using assms(3) by (simp add: unat_word_ariths mapped_at_def)
  then show ?thesis
    using allocate_stack_new [OF assms(1,3)] assms(4) total
    by (intro exI [of _ "base + ?total"] exI [of _ ?total]) (simp add: free_stack_def)
qed

theorem allocate_free_stack_witness:
  "\<exists>top total. out_stack (allocate_stack (demo_os 0x700000000000) True k_default_attr) = Some top
      \<and> out_total (allocate_stack (demo_os 0x700000000000) True k_default_attr) = Some total
      \<and> unat top = unat (0x700000000000 :: addr) + 0x2000 + 4 * 1024 * 1024
      \<and> snd (free_stack (demo_os 0x700000000000) (top - total) total) = [Munmap 0x700000000000 total]"
  using allocate_free_stack [of k_default_attr "demo_os 0x700000000000" "0x700000000000"]
  by (auto simp: k_default_attr_def guard_size_def k_stack_min_def mapped_at_def demo_os_def MAP_FAILED_def)

text \<open>
  A failing \<open>mmap\<close> is not recognised: it returns \<open>MAP_FAILED\<close>, the code compares with
  null. With the guard disabled, \<open>allocate_stack\<close> then reports success and hands out a stack
  that wraps around the address space.
\<close>

theorem allocate_stack_misses_map_failed:
  assumes "st_addr (stack a) = nullptr" and "st_guardsize (stack a) = 0"
    and "os_mmap k (st_size (stack a)) = MAP_FAILED"
  shows "ret_code (allocate_stack k True a) = 0
       \<and> out_stack (allocate_stack k True a) = Some (st_size (stack a) - 1)"
  using assms by (simp add: allocate_stack_def guard_size_def MAP_FAILED_def Let_def)

theorem allocate_stack_misses_map_failed_witness:
  "ret_code (allocate_stack (demo_os MAP_FAILED) True
      \<lparr>stack = \<lparr>st_addr = nullptr, st_size = 0x4000, st_guardsize = 0\<rparr>, alloc_tls = False\<rparr>) = 0"
  using allocate_stack_misses_map_failed [of
      "\<lparr>stack = \<lparr>st_addr = nullptr, st_size = 0x4000, st_guardsize = 0\<rparr>, alloc_tls = False\<rparr>"
      "demo_os MAP_FAILED"]
  by (simp add: demo_os_def)

end
