(* ===== verification/Tls.thy ===== *)
theory Tls
  imports Prelude
begin

text \<open>
  The class \<open>tls\<close> as both systems share it (\<open>platform/tls.h\<close>): the byte memory with
  \<open>memcpy\<close>, \<open>memset\<close> and 64-bit little-endian accesses, the position of the storage behind
  the object, and the contract of its operations. The contract is the locale \<open>tls_contract\<close>;
  under it any sequence of \<open>set_thread\<close> and \<open>use\<close> calls has the effect of the same sequence
  on an abstract state that holds one thread pointer for each object and the object in use.
  The Linux and the macOS implementation are interpretations.
\<close>

section \<open>Definitions\<close>

subsection \<open>Byte memory\<close>

type_synonym memory = "addr \<Rightarrow> 8 word"

definition memcpy :: "addr \<Rightarrow> addr \<Rightarrow> size_t \<Rightarrow> memory \<Rightarrow> memory" where
  "memcpy dst src n m = (\<lambda>x. if unat (x - dst) < unat n then m (src + (x - dst)) else m x)"

definition memset0 :: "addr \<Rightarrow> size_t \<Rightarrow> memory \<Rightarrow> memory" where
  "memset0 dst n m = (\<lambda>x. if unat (x - dst) < unat n then 0 else m x)"

definition load64 :: "memory \<Rightarrow> addr \<Rightarrow> u64" where
  "load64 m a = word_rcat (rev (map (\<lambda>k. m (a + of_nat k)) [0..<8]))"

definition store64 :: "addr \<Rightarrow> u64 \<Rightarrow> memory \<Rightarrow> memory" where
  "store64 a v m = (\<lambda>x. if unat (x - a) < 8 then ucast (drop_bit (8 * unat (x - a)) v) else m x)"

text \<open>The bytes from \<open>a\<close> on, \<open>n\<close> of them, do not meet the ones from \<open>b\<close> on.\<close>

definition blocks_apart :: "nat \<Rightarrow> addr \<Rightarrow> addr \<Rightarrow> bool" where
  "blocks_apart n a b \<longleftrightarrow> n \<le> unat (a - b) \<and> n \<le> unat (b - a)"

subsection \<open>The object\<close>

text \<open>\<open>sizeof(tls)\<close>: the class has no members, so 1.\<close>

definition sizeof_tls :: size_t where
  "sizeof_tls = 1"

definition after :: "addr \<Rightarrow> addr" where
  "after t = t + sizeof_tls"

subsection \<open>The abstract storage\<close>

datatype tls_op =
    Op_set addr addr
  | Op_use addr

record tls_spec =
  in_use :: addr
  threads :: "addr \<Rightarrow> addr"

fun tls_spec_op :: "tls_op \<Rightarrow> tls_spec \<Rightarrow> tls_spec" where
  "tls_spec_op (Op_set t x) sp = sp\<lparr>threads := (threads sp)(t := x)\<rparr>"
| "tls_spec_op (Op_use t) sp = sp\<lparr>in_use := t\<rparr>"

fun tls_op_block :: "tls_op \<Rightarrow> addr" where
  "tls_op_block (Op_set t x) = t"
| "tls_op_block (Op_use t) = t"

text \<open>The same calls on an implementation, in order.\<close>

fun tls_run ::
    "(addr \<Rightarrow> addr \<Rightarrow> 's \<Rightarrow> (unit, 's) outcome) \<Rightarrow> (addr \<Rightarrow> 's \<Rightarrow> (unit, 's) outcome)
       \<Rightarrow> tls_op list \<Rightarrow> 's \<Rightarrow> (unit, 's) outcome" where
  "tls_run st us [] s = Ret () s"
| "tls_run st us (Op_set t x # ops) s = bind_outcome (st t x s) (\<lambda>_ s'. tls_run st us ops s')"
| "tls_run st us (Op_use t # ops) s = bind_outcome (us t s) (\<lambda>_ s'. tls_run st us ops s')"

section \<open>Lemmas\<close>

subsection \<open>Loads and stores\<close>

lemma bit_load64:
  "bit (load64 m a) n \<longleftrightarrow> n < 64 \<and> bit (m (a + of_nat (n div 8))) (n mod 8)"
proof -
  have "n < 64 \<Longrightarrow> n div 8 < 8" by auto
  then show ?thesis
    by (auto simp: load64_def word_rcat_def bit_word_of_int_iff
        bit_horner_sum_uint_exp_iff [where 'a = 8, simplified] simp del: upt_rec_numeral)
qed

lemma load64_cong:
  assumes "\<And>k. k < 8 \<Longrightarrow> m (a + of_nat k) = m' (a' + of_nat k)"
  shows "load64 m a = load64 m' a'"
  using assms by (intro bit_word_eqI) (simp add: bit_load64)

lemma load64_zero: "(\<And>k. k < 8 \<Longrightarrow> m (a + of_nat k) = 0) \<Longrightarrow> load64 m a = 0"
  by (rule bit_word_eqI) (simp add: bit_load64)

lemma unat_of_nat_small [simp]: "k < 2 ^ 64 \<Longrightarrow> unat (of_nat k :: u64) = k"
  by (simp add: unat_of_nat)

lemma load64_store64_same [simp]: "load64 (store64 a v m) a = v"
proof (rule bit_word_eqI)
  fix n assume "n < LENGTH(64)"
  then have n: "n < 64" "n div 8 < 8" by auto
  then have "unat (of_nat (n div 8) :: u64) = n div 8" by simp
  with n show "bit (load64 (store64 a v m) a) n = bit v n"
    by (simp add: bit_load64 store64_def bit_ucast_iff bit_drop_bit_eq)
qed

text \<open>Positions behind a common base.\<close>

lemma unat_offset_diff:
  assumes "i < 2 ^ 64" "j < 2 ^ 64"
  shows "unat (b + of_nat j - (b + of_nat i) :: addr) = (if i \<le> j then j - i else 2 ^ 64 + j - i)"
proof (cases "i \<le> j")
  case True
  then have "b + of_nat j - (b + of_nat i) = (of_nat (j - i) :: addr)" by (simp add: of_nat_diff)
  with True assms show ?thesis by (simp del: of_nat_diff)
next
  case False
  have "(of_nat (2 ^ 64) :: addr) = 0" by simp
  then have "b + of_nat j - (b + of_nat i) = (of_nat (2 ^ 64 + j - i) :: addr)"
    using assms(1) by (subst of_nat_diff) (auto simp del: of_nat_power of_nat_numeral)
  with False assms show ?thesis by (simp del: of_nat_diff)
qed

lemma load64_store64_other:
  assumes "j + 8 \<le> i \<or> i + 8 \<le> j" "i + 8 \<le> 2 ^ 64" "j + 8 \<le> 2 ^ 64"
  shows "load64 (store64 (b + of_nat i) v m) (b + of_nat j) = load64 m (b + of_nat j)"
proof (rule load64_cong)
  fix k :: nat assume "k < 8"
  then have "8 \<le> unat (b + of_nat (j + k) - (b + of_nat i) :: addr)"
    using assms by (subst unat_offset_diff) auto
  then show "store64 (b + of_nat i) v m (b + of_nat j + of_nat k) = m (b + of_nat j + of_nat k)"
    by (simp add: store64_def add.assoc)
qed

lemma blocks_apart_sym: "blocks_apart n a b \<longleftrightarrow> blocks_apart n b a"
  by (auto simp: blocks_apart_def)

lemma blocks_apart_disjoint:
  assumes "blocks_apart n a b" "unat (x - a) < n"
  shows "n \<le> unat (x - b)"
proof (rule ccontr)
  assume "\<not> n \<le> unat (x - b)"
  moreover have "a - b = x - b - (x - a)" "b - a = x - a - (x - b)" by simp_all
  then have "unat (a - b) \<le> unat (x - b) \<or> unat (b - a) \<le> unat (x - a)"
    by (metis diff_le_self linorder_linear unat_sub)
  ultimately show False using assms by (auto simp: blocks_apart_def)
qed

subsection \<open>The contract\<close>

locale tls_contract =
  fixes ok :: "'s \<Rightarrow> addr \<Rightarrow> bool"
    and apart :: "addr \<Rightarrow> addr \<Rightarrow> bool"
    and thread_of :: "'s \<Rightarrow> addr \<Rightarrow> addr"
    and set_thr :: "addr \<Rightarrow> addr \<Rightarrow> 's \<Rightarrow> (unit, 's) outcome"
    and get_thr :: "addr \<Rightarrow> 's \<Rightarrow> (addr, 's) outcome"
    and use_tls :: "addr \<Rightarrow> 's \<Rightarrow> (unit, 's) outcome"
    and cur_thr :: "'s \<Rightarrow> (addr, 's) outcome"
    and cur_tls :: "'s \<Rightarrow> addr"
  assumes get_law: "ok s t \<Longrightarrow> get_thr t s = Ret (thread_of s t) s"
    and cur_law: "ok s (cur_tls s) \<Longrightarrow> cur_thr s = Ret (thread_of s (cur_tls s)) s"
    and set_law: "ok s t \<Longrightarrow> ok s (cur_tls s) \<Longrightarrow> cur_tls s = t \<or> apart t (cur_tls s) \<Longrightarrow>
      \<exists>s'. set_thr t x s = Ret () s' \<and> ok s' t \<and> thread_of s' t = x \<and> cur_tls s' = cur_tls s
        \<and> (\<forall>u. ok s u \<and> apart t u \<longrightarrow> ok s' u \<and> thread_of s' u = thread_of s u)"
    and use_law: "ok s t \<Longrightarrow>
      \<exists>s'. use_tls t s = Ret () s' \<and> cur_tls s' = t
        \<and> (\<forall>u. ok s u \<longrightarrow> ok s' u \<and> thread_of s' u = thread_of s u)"
begin

text \<open>An abstract state describes the storages \<open>T\<close> of a concrete one.\<close>

definition describes :: "addr set \<Rightarrow> tls_spec \<Rightarrow> 's \<Rightarrow> bool" where
  "describes T sp s \<longleftrightarrow> (\<forall>t \<in> T. ok s t \<and> threads sp t = thread_of s t)
     \<and> cur_tls s \<in> T \<and> in_use sp = cur_tls s"

lemma describes_set:
  assumes "describes T sp s" "t \<in> T" "\<forall>t \<in> T. \<forall>u \<in> T. t \<noteq> u \<longrightarrow> apart t u"
  shows "\<exists>s'. set_thr t x s = Ret () s' \<and> describes T (tls_spec_op (Op_set t x) sp) s'"
proof -
  have "ok s t" "ok s (cur_tls s)" "cur_tls s = t \<or> apart t (cur_tls s)"
    using assms by (auto simp: describes_def)
  from set_law [OF this, of x] obtain s' where s': "set_thr t x s = Ret () s'" "ok s' t"
    "thread_of s' t = x" "cur_tls s' = cur_tls s"
    "\<forall>u. ok s u \<and> apart t u \<longrightarrow> ok s' u \<and> thread_of s' u = thread_of s u" by blast
  then have "describes T (tls_spec_op (Op_set t x) sp) s'"
    using assms by (auto simp: describes_def)
  with s' show ?thesis by blast
qed

lemma describes_use:
  assumes "describes T sp s" "t \<in> T"
  shows "\<exists>s'. use_tls t s = Ret () s' \<and> describes T (tls_spec_op (Op_use t) sp) s'"
proof -
  have "ok s t" using assms by (simp add: describes_def)
  from use_law [OF this] assms show ?thesis by (fastforce simp: describes_def)
qed

text \<open>Every sequence of calls is the abstract one, on storages that do not overlap.\<close>

lemma describes_run:
  assumes "describes T sp s" "tls_op_block ` set ops \<subseteq> T" "\<forall>t \<in> T. \<forall>u \<in> T. t \<noteq> u \<longrightarrow> apart t u"
  shows "\<exists>s'. tls_run set_thr use_tls ops s = Ret () s' \<and> describes T (fold tls_spec_op ops sp) s'"
  using assms(1,2)
proof (induction ops arbitrary: s sp)
  case (Cons op ops)
  then show ?case
  proof (cases op)
    case (Op_set t x)
    with Cons.prems have "t \<in> T" by simp
    from describes_set [OF Cons.prems(1) this assms(3), of x] Cons.IH Cons.prems(2) Op_set
    show ?thesis by fastforce
  next
    case (Op_use t)
    with Cons.prems have "t \<in> T" by simp
    from describes_use [OF Cons.prems(1) this] Cons.IH Cons.prems(2) Op_use
    show ?thesis by fastforce
  qed
qed simp

lemma run_refines:
  assumes "\<forall>t \<in> T. ok s t" "\<forall>t \<in> T. \<forall>u \<in> T. t \<noteq> u \<longrightarrow> apart t u"
    and "tls_op_block ` set ops \<subseteq> T" "cur_tls s \<in> T"
    and "sp = fold tls_spec_op ops \<lparr>in_use = cur_tls s, threads = thread_of s\<rparr>"
  shows "\<exists>s'. tls_run set_thr use_tls ops s = Ret () s' \<and> cur_tls s' = in_use sp
    \<and> cur_thr s' = Ret (threads sp (in_use sp)) s'
    \<and> (\<forall>t \<in> T. ok s' t \<and> get_thr t s' = Ret (threads sp t) s')"
proof -
  have "describes T \<lparr>in_use = cur_tls s, threads = thread_of s\<rparr> s"
    using assms by (simp add: describes_def)
  from describes_run [OF this assms(3,2)] show ?thesis
    by (auto simp: describes_def get_law cur_law assms(5))
qed

end

end
