(* ===== verification/Tls_Linux.thy ===== *)
theory Tls_Linux
  imports Tls
begin

text \<open>
  Thread local storage on Linux (\<open>platform/tls_linux.cc\<close>, \<open>platform/tls_impl_linux.h\<close>).
  The state holds the \<open>%fs\<close> base, the thread control blocks by address, the bytes of
  memory the images are copied to and from, and the static variables of
  \<open>find_tls_images\<close>. The fields of a control block are kept by its address and apart from the
  bytes, so that statements about the bytes are about the copies of the images. What the dynamic loader reports about the loaded modules is an
  argument. The lemmas show that the thread pointer of the block in use is the one that
  was stored, for any sequence of calls as the contract of the class asks, that construction
  stays inside the prefix it was given when the image table has no gap, and that it does not
  when there is one.
\<close>

section \<open>Definitions\<close>

subsection \<open>Data\<close>

text \<open>\<open>union dtv\<close>: entry 0 is used as a head, the others as pointers.\<close>

datatype dtv =
    Dtv_head size_t addr
  | Dtv_pointer addr bool

record tcbhead =
  self :: addr
  thread_vector :: "dtv list"
  thread :: addr
  did_ctype_init :: bool
  sysinfo :: addr
  stack_guard :: addr
  pointer_guard :: addr
  glibc_stack_size :: size_t

record tls_image =
  data :: addr
  image_size :: size_t
  mem_offset :: size_t
  reserve :: size_t

definition TLS_DTV_UNALLOCATED :: addr where
  "TLS_DTV_UNALLOCATED = - 1"

definition k_num_slots :: nat where
  "k_num_slots = 32"

text \<open>\<open>ElfW(Phdr)\<close> and \<open>struct dl_phdr_info\<close>, as far as they are read.\<close>

record phdr =
  p_is_tls :: bool
  p_vaddr :: addr
  p_filesz :: size_t
  p_memsz :: size_t
  p_align :: size_t

record dl_phdr_info =
  dlpi_addr :: addr
  dlpi_phdr :: "phdr list"
  dlpi_tls_modid :: size_t

record tls_state =
  fs :: addr
  tcbs :: "addr \<rightharpoonup> tcbhead"
  bytes :: memory
  has :: bool
  images :: "tls_image list"
  magic_pointers :: tcbhead

text \<open>\<open>sizeof(tcbhead)\<close> by its fields.\<close>

definition sizeof_tcbhead :: size_t where
  "sizeof_tcbhead = 8 + 8 + 8 + 1 + 7 + 8 + 8 + 8 + 1632 + 8"

subsection \<open>Finding the images\<close>

text \<open>
  The callback: the last program header of type \<open>PT_TLS\<close> of a module fills the slot of
  its module id. Ids start at 1; a slot beyond the table is a write out of bounds.
\<close>

definition dl_iterate_phdr_init_cb ::
    "dl_phdr_info \<Rightarrow> tls_image list \<Rightarrow> (int, tls_image list) outcome" where
  "dl_iterate_phdr_init_cb info ims =
     (case find p_is_tls (rev (dlpi_phdr info)) of
        None \<Rightarrow> Ret 0 ims
      | Some ph \<Rightarrow>
          (let module = dlpi_tls_modid info
           in if module > 0 then
                (let off = (- p_memsz ph) AND (p_align ph - 1);
                     im = \<lparr>data = dlpi_addr info + p_vaddr ph, image_size = p_filesz ph,
                           mem_offset = off, reserve = off + p_memsz ph\<rparr>;
                     slot = unat (module - 1)
                 in if slot < length ims then Ret 0 (ims[slot := im]) else Crash Bad_pointer)
              else Ret (- 1) ims))"

text \<open>\<open>dl_iterate_phdr\<close> of the C library: every module in turn until the callback is nonzero.\<close>

fun dl_iterate_phdr ::
    "dl_phdr_info list \<Rightarrow> tls_image list \<Rightarrow> (int, tls_image list) outcome" where
  "dl_iterate_phdr [] ims = Ret 0 ims"
| "dl_iterate_phdr (info # infos) ims =
     bind_outcome (dl_iterate_phdr_init_cb info ims)
       (\<lambda>r ims'. if r \<noteq> 0 then Ret r ims' else dl_iterate_phdr infos ims')"

definition null_image :: tls_image where
  "null_image = \<lparr>data = nullptr, image_size = 0, mem_offset = 0, reserve = 0\<rparr>"

text \<open>The returned pointer is \<open>None\<close> for null.\<close>

definition find_tls_images ::
    "dl_phdr_info list \<Rightarrow> tls_state \<Rightarrow> (tls_image list option, tls_state) outcome" where
  "find_tls_images dl st =
     (if has st then Ret (Some (images st)) st
      else
        (case dl_iterate_phdr dl (map (\<lambda>im. im\<lparr>data := nullptr\<rparr>) (images st)) of
           Crash f \<Rightarrow> Crash f
         | Throw e ims \<Rightarrow> Throw e (st\<lparr>images := ims\<rparr>)
         | Ret r ims \<Rightarrow>
             if r \<noteq> 0 then Ret None (st\<lparr>images := ims\<rparr>)
             else
               (case tcbs st (fs st) of
                  None \<Rightarrow> Crash Bad_pointer
                | Some og \<Rightarrow>
                    Ret (Some ims)
                      (st\<lparr>images := ims,
                          magic_pointers := (magic_pointers st)\<lparr>sysinfo := sysinfo og,
                            stack_guard := stack_guard og, pointer_guard := pointer_guard og,
                            glibc_stack_size := glibc_stack_size og\<rparr>,
                          has := True\<rparr>))))"

text \<open>The loop of \<open>prefix_bytes\<close> stops at the first empty slot.\<close>

fun prefix_sum :: "tls_image list \<Rightarrow> size_t" where
  "prefix_sum [] = 0"
| "prefix_sum (im # ims) = (if data im = nullptr then 0 else reserve im + prefix_sum ims)"

definition prefix_bytes :: "dl_phdr_info list \<Rightarrow> tls_state \<Rightarrow> (size_t, tls_state) outcome" where
  "prefix_bytes dl st =
     bind_outcome (find_tls_images dl st)
       (\<lambda>r st'. case r of None \<Rightarrow> Crash Bad_pointer | Some ims \<Rightarrow> Ret (prefix_sum ims) st')"

definition postfix_bytes :: size_t where
  "postfix_bytes = sizeof_tls + sizeof_tcbhead"

subsection \<open>Construction, destruction, reset\<close>

text \<open>
  The copy loop of the constructor: an empty slot is skipped, a filled one is placed below
  the previous and entered into the vector at its module id.
\<close>

fun ctor_images ::
    "nat \<Rightarrow> tls_image list \<Rightarrow> addr \<Rightarrow> dtv list \<Rightarrow> memory
       \<Rightarrow> addr \<times> dtv list \<times> memory" where
  "ctor_images i [] image_base tv m = (image_base, tv, m)"
| "ctor_images i (im # ims) image_base tv m =
     (if data im = nullptr then ctor_images (Suc i) ims image_base tv m
      else
        (let base = image_base - reserve im
         in ctor_images (Suc i) ims base (tv[i + 1 := Dtv_pointer base True])
              (memcpy (base + mem_offset im) (data im + mem_offset im) (image_size im) m)))"

definition initial_dtv :: "addr \<Rightarrow> size_t \<Rightarrow> dtv list" where
  "initial_dtv tcb prefix =
     Dtv_head (of_nat k_num_slots) (tcb - prefix) # Dtv_pointer tcb False
       # replicate k_num_slots (Dtv_pointer TLS_DTV_UNALLOCATED False)"

text \<open>\<open>tls::tls()\<close> at address \<open>t\<close>; the field \<open>thread\<close> keeps what memory holds.\<close>

definition tls_ctor :: "dl_phdr_info list \<Rightarrow> addr \<Rightarrow> tls_state \<Rightarrow> (unit, tls_state) outcome" where
  "tls_ctor dl t st =
     bind_outcome (prefix_bytes dl st) (\<lambda>prefix st1.
     bind_outcome (find_tls_images dl st1) (\<lambda>r st2.
       case r of None \<Rightarrow> Crash Bad_pointer
       | Some ims \<Rightarrow>
           (let tcb = after t;
                (base, tv, m) = ctor_images 0 ims tcb (initial_dtv tcb prefix) (bytes st2);
                magic = magic_pointers st2
            in Ret ()
                 (st2\<lparr>bytes := m,
                      tcbs := (tcbs st2)(tcb \<mapsto>
                        \<lparr>self = tcb, thread_vector = tv,
                         thread = (case tcbs st2 tcb of Some old \<Rightarrow> thread old | None \<Rightarrow> nullptr),
                         did_ctype_init = False, sysinfo = sysinfo magic,
                         stack_guard = stack_guard magic, pointer_guard = pointer_guard magic,
                         glibc_stack_size = glibc_stack_size magic\<rparr>)\<rparr>))))"

text \<open>The dynamically allocated modules of a vector: what destruction and reset free.\<close>

fun dynamic_modules :: "dtv list \<Rightarrow> addr list" where
  "dynamic_modules [] = []"
| "dynamic_modules (Dtv_pointer v is_static # tv) =
     (if \<not> is_static \<and> v \<noteq> TLS_DTV_UNALLOCATED then v # dynamic_modules tv
      else dynamic_modules tv)"
| "dynamic_modules (Dtv_head _ _ # tv) = dynamic_modules tv"

definition tls_dtor :: "addr \<Rightarrow> tls_state \<Rightarrow> (addr list, tls_state) outcome" where
  "tls_dtor t st =
     (case tcbs st (after t) of
        None \<Rightarrow> Crash Bad_pointer
      | Some tcb \<Rightarrow>
          Ret (dynamic_modules (take k_num_slots (drop 2 (thread_vector tcb))))
            (st\<lparr>tcbs := (tcbs st)(after t \<mapsto> tcb\<lparr>thread_vector := []\<rparr>)\<rparr>))"

text \<open>The copy loop of \<open>reset\<close>; the error is \<open>gthread_log_fatal\<close>.\<close>

fun reset_images ::
    "addr \<Rightarrow> tls_image list \<Rightarrow> addr \<Rightarrow> nat \<Rightarrow> dtv list \<Rightarrow> memory
       \<Rightarrow> (unit, dtv list \<times> memory) outcome" where
  "reset_images old_base [] image_base module tv m = Ret () (tv, m)"
| "reset_images old_base (im # ims) image_base module tv m =
     (if \<not> image_base > old_base then Ret () (tv, m)
      else if data im = nullptr then reset_images old_base ims image_base module tv m
      else
        (let base = image_base - reserve im
         in if base < old_base then Throw (Runtime_error ''tls images inconsistent'') (tv, m)
            else reset_images old_base ims base (Suc module)
                   (tv[Suc module + 1 := Dtv_pointer base True])
                   (memcpy base (data im) (image_size im) m)))"

definition dtv_base :: "dtv list \<Rightarrow> addr option" where
  "dtv_base tv = (case tv of Dtv_head _ base # _ \<Rightarrow> Some base | _ \<Rightarrow> None)"

definition tls_reset ::
    "dl_phdr_info list \<Rightarrow> addr \<Rightarrow> tls_state \<Rightarrow> (addr list, tls_state) outcome" where
  "tls_reset dl t st =
     (case tcbs st (after t) of
        None \<Rightarrow> Crash Bad_pointer
      | Some tcb \<Rightarrow>
          (case dtv_base (thread_vector tcb) of
             None \<Rightarrow> Crash Bad_pointer
           | Some old_base \<Rightarrow>
               (let freed = dynamic_modules (take k_num_slots (drop 2 (thread_vector tcb)));
                    tv0 = take 2 (thread_vector tcb)
                          @ replicate k_num_slots (Dtv_pointer TLS_DTV_UNALLOCATED False)
                in bind_outcome (find_tls_images dl st) (\<lambda>r st1.
                     case r of None \<Rightarrow> Crash Bad_pointer
                     | Some ims \<Rightarrow>
                         (let m0 = memset0 old_base (after t - old_base) (bytes st1)
                          in case reset_images old_base ims (after t) 0 tv0 m0 of
                               Crash f \<Rightarrow> Crash f
                             | Throw e (tv, m) \<Rightarrow>
                                 Throw e (st1\<lparr>bytes := m,
                                   tcbs := (tcbs st1)(after t \<mapsto> tcb\<lparr>thread_vector := tv\<rparr>)\<rparr>)
                             | Ret _ (tv, m) \<Rightarrow>
                                 Ret freed (st1\<lparr>bytes := m,
                                   tcbs := (tcbs st1)(after t \<mapsto>
                                     tcb\<lparr>thread_vector := tv, did_ctype_init := False\<rparr>)\<rparr>))))))"

subsection \<open>The thread pointer\<close>

definition set_thread :: "addr \<Rightarrow> addr \<Rightarrow> tls_state \<Rightarrow> (unit, tls_state) outcome" where
  "set_thread t thr st =
     (case tcbs st (after t) of
        None \<Rightarrow> Crash Bad_pointer
      | Some tcb \<Rightarrow> Ret () (st\<lparr>tcbs := (tcbs st)(after t \<mapsto> tcb\<lparr>thread := thr\<rparr>)\<rparr>))"

definition get_thread :: "addr \<Rightarrow> tls_state \<Rightarrow> (addr, tls_state) outcome" where
  "get_thread t st =
     (case tcbs st (after t) of None \<Rightarrow> Crash Bad_pointer | Some tcb \<Rightarrow> Ret (thread tcb) st)"

text \<open>\<open>mov %fs:16, %rax\<close>: the field \<open>thread\<close> of the block at the \<open>%fs\<close> base.\<close>

definition current_thread :: "tls_state \<Rightarrow> (addr, tls_state) outcome" where
  "current_thread st =
     (case tcbs st (fs st) of None \<Rightarrow> Crash Bad_pointer | Some tcb \<Rightarrow> Ret (thread tcb) st)"

definition tls_current :: "tls_state \<Rightarrow> addr" where
  "tls_current st = fs st - sizeof_tls"

definition tls_use :: "addr \<Rightarrow> tls_state \<Rightarrow> (unit, tls_state) outcome" where
  "tls_use t st =
     (case tcbs st (after t) of
        None \<Rightarrow> Crash Bad_pointer
      | Some tcb \<Rightarrow>
          Ret () (st\<lparr>fs := after t,
                    tcbs := (tcbs st)(after t \<mapsto> tcb\<lparr>did_ctype_init := True\<rparr>)\<rparr>))"

text \<open>The image table has no gap: an empty slot is followed by empty slots only.\<close>

fun no_gap :: "tls_image list \<Rightarrow> bool" where
  "no_gap [] = True"
| "no_gap (im # ims) =
     (if data im = nullptr then (\<forall>x \<in> set ims. data x = nullptr) else no_gap ims)"

text \<open>What an image reserves holds what it copies.\<close>

definition image_fits :: "tls_image \<Rightarrow> bool" where
  "image_fits im \<longleftrightarrow> unat (mem_offset im) + unat (image_size im) \<le> unat (reserve im)"

text \<open>The sum of the reserves of the filled slots, as a natural number.\<close>

fun reserved :: "tls_image list \<Rightarrow> nat" where
  "reserved [] = 0"
| "reserved (im # ims) = (if data im = nullptr then 0 else unat (reserve im)) + reserved ims"

text \<open>A host thread control block and one image, for the worked instances.\<close>

definition demo_tls_state :: "tls_image list \<Rightarrow> tls_state" where
  "demo_tls_state ims =
     \<lparr>fs = 0x5001,
      tcbs = [0x5001 \<mapsto> \<lparr>self = 0x5001, thread_vector = [], thread = 0, did_ctype_init = True,
        sysinfo = 1, stack_guard = 2, pointer_guard = 3, glibc_stack_size = 4\<rparr>],
      bytes = (\<lambda>_. 0), has = True, images = ims,
      magic_pointers = \<lparr>self = 0, thread_vector = [], thread = 0, did_ctype_init = False,
        sysinfo = 1, stack_guard = 2, pointer_guard = 3, glibc_stack_size = 4\<rparr>\<rparr>"

definition demo_image :: tls_image where
  "demo_image = \<lparr>data = 0x400000, image_size = 16, mem_offset = 0, reserve = 64\<rparr>"

section \<open>Lemmas\<close>

lemma unat_prefix_sum_le: "unat (prefix_sum ims) \<le> reserved ims"
proof (induction ims)
  case (Cons im ims)
  have "unat (reserve im + prefix_sum ims) \<le> unat (reserve im) + unat (prefix_sum ims)"
    by (simp add: unat_word_ariths)
  with Cons show ?case by auto
qed simp

lemma reserved_zero: "\<forall>x \<in> set ims. data x = nullptr \<Longrightarrow> reserved ims = 0"
  by (induction ims) auto

lemma unat_prefix_sum_no_gap:
  "no_gap ims \<Longrightarrow> reserved ims < 2 ^ 64 \<Longrightarrow> unat (prefix_sum ims) = reserved ims"
  by (induction ims) (auto simp: unat_word_ariths reserved_zero)

lemma reserved_append [simp]: "reserved (xs @ ys) = reserved xs + reserved ys"
  by (induction xs) auto

text \<open>\<open>prefix_bytes\<close> counts nothing from the first empty slot on.\<close>

lemma prefix_sum_gap: "data gap = nullptr \<Longrightarrow> unat (prefix_sum (pre @ gap # rest)) \<le> reserved pre"
proof (induction pre)
  case (Cons im pre)
  have "unat (reserve im + prefix_sum (pre @ gap # rest)) \<le> unat (reserve im) + unat (prefix_sum (pre @ gap # rest))"
    by (simp add: unat_word_ariths)
  with Cons show ?case by auto
qed simp

lemma ctor_images_append:
  "ctor_images i (xs @ ys) base tv m =
     (case ctor_images i xs base tv m of (base', tv', m') \<Rightarrow> ctor_images (i + length xs) ys base' tv' m')"
  by (induction i xs base tv m rule: ctor_images.induct) (auto simp: Let_def)

lemma ctor_images_empty_slots: "\<forall>x \<in> set ims. data x = nullptr \<Longrightarrow> ctor_images i ims base tv m = (base, tv, m)"
  by (induction ims arbitrary: i) auto

lemma ctor_images_base:
  "reserved ims \<le> unat image_base
     \<Longrightarrow> unat (fst (ctor_images i ims image_base tv m)) = unat image_base - reserved ims"
proof (induction i ims image_base tv m rule: ctor_images.induct)
  case (2 i im ims image_base tv m)
  show ?case
  proof (cases "data im = nullptr")
    case True
    with 2 show ?thesis by simp
  next
    case False
    with "2.prems" have "unat (image_base - reserve im) = unat image_base - unat (reserve im)"
      by (simp add: unat_sub word_le_nat_alt)
    with False "2.IH"(2) [OF False refl] "2.prems" show ?thesis by (simp add: Let_def)
  qed
qed simp

lemma memcpy_outside:
  assumes "unat dst + unat n \<le> 2 ^ 64" and "unat x < unat dst \<or> unat dst + unat n \<le> unat x"
  shows "memcpy dst src n m x = m x"
  using assms unat_diff_less_iff [OF assms(1), of x] by (auto simp: memcpy_def)

text \<open>Placing images changes no byte outside the block below the control block.\<close>

lemma ctor_images_outside:
  assumes "reserved ims \<le> unat image_base" and "\<forall>im \<in> set ims. data im \<noteq> nullptr \<longrightarrow> image_fits im"
    and "unat x < unat image_base - reserved ims \<or> unat image_base \<le> unat x"
  shows "snd (snd (ctor_images i ims image_base tv m)) x = m x"
  using assms
proof (induction i ims image_base tv m rule: ctor_images.induct)
  case (2 i im ims image_base tv m)
  show ?case
  proof (cases "data im = nullptr")
    case True
    with 2 show ?thesis by simp
  next
    case False
    let ?base = "image_base - reserve im"
    let ?m = "memcpy (?base + mem_offset im) (data im + mem_offset im) (image_size im) m"
    have fits: "unat (mem_offset im) + unat (image_size im) \<le> unat (reserve im)"
      using False "2.prems"(2) by (auto simp: image_fits_def)
    have base: "unat ?base = unat image_base - unat (reserve im)"
      using False "2.prems"(1) by (simp add: unat_sub word_le_nat_alt)
    have lt: "unat image_base < 2 ^ 64" by (rule unat_lt_64)
    have dst: "unat (?base + mem_offset im) = unat ?base + unat (mem_offset im)"
      using False "2.prems"(1) fits base lt by (simp add: unat_word_ariths)
    have "?m x = m x"
      by (rule memcpy_outside) (use dst base fits lt False "2.prems"(1,3) in auto)
    moreover have "snd (snd (ctor_images (Suc i) ims ?base
        (tv[i + 1 := Dtv_pointer ?base True]) ?m)) x = ?m x"
      by (rule "2.IH"(2)) (use False base "2.prems" in auto)
    ultimately show ?thesis using False by (simp add: Let_def)
  qed
qed simp

lemma find_tls_images_cached [simp]: "has st \<Longrightarrow> find_tls_images dl st = Ret (Some (images st)) st"
  by (simp add: find_tls_images_def)

lemma prefix_bytes_cached [simp]: "has st \<Longrightarrow> prefix_bytes dl st = Ret (prefix_sum (images st)) st"
  by (simp add: prefix_bytes_def)

lemma ctor_images_head:
  "tv \<noteq> [] \<Longrightarrow> dtv_base (fst (snd (ctor_images i ims image_base tv m))) = dtv_base tv"
proof (induction i ims image_base tv m rule: ctor_images.induct)
  case (2 i im ims image_base tv m)
  then show ?case
    by (auto simp: Let_def dtv_base_def split: list.splits)
qed simp

lemma dtv_base_initial [simp]: "dtv_base (initial_dtv tcb prefix) = Some (tcb - prefix)"
  by (simp add: dtv_base_def initial_dtv_def)

lemma initial_dtv_not_Nil [simp]: "initial_dtv tcb prefix \<noteq> []"
  by (simp add: initial_dtv_def)

text \<open>
  C38. Construction is memory safe when the module table has no gap: the images fit into the
  \<open>prefix_bytes()\<close> below the control block, no byte outside them changes, the base that
  \<open>reset\<close> later clears from is their lowest address, and the control block points to itself.
\<close>

theorem tls_ctor_within_prefix:
  assumes "has st" and "no_gap (images st)"
    and "\<forall>im \<in> set (images st). data im \<noteq> nullptr \<longrightarrow> image_fits im"
    and "reserved (images st) \<le> unat (after t)"
  shows "\<exists>st' tcb prefix. tls_ctor dl t st = Ret () st' \<and> prefix_bytes dl st = Ret prefix st
      \<and> tcbs st' (after t) = Some tcb \<and> self tcb = after t
      \<and> dtv_base (thread_vector tcb) = Some (after t - prefix)
      \<and> fst (ctor_images 0 (images st) (after t) (initial_dtv (after t) prefix) (bytes st)) = after t - prefix
      \<and> (\<forall>x. unat x < unat (after t) - unat prefix \<or> unat (after t) \<le> unat x
             \<longrightarrow> bytes st' x = bytes st x)"
proof -
  let ?prefix = "prefix_sum (images st)"
  let ?c = "ctor_images 0 (images st) (after t) (initial_dtv (after t) ?prefix) (bytes st)"
  have "unat (after t) < 2 ^ 64" by (rule unat_lt_64)
  then have prefix: "unat ?prefix = reserved (images st)"
    using assms(2,4) by (simp add: unat_prefix_sum_no_gap)
  then have "unat (fst ?c) = unat (after t - ?prefix)"
    using ctor_images_base [OF assms(4)] assms(4) by (simp add: unat_sub word_le_nat_alt)
  then have base: "fst ?c = after t - ?prefix"
    by (simp add: word_unat_eq_iff)
  have outside: "\<forall>x. unat x < unat (after t) - unat ?prefix \<or> unat (after t) \<le> unat x
      \<longrightarrow> snd (snd ?c) x = bytes st x"
    using ctor_images_outside [OF assms(4,3)] prefix by simp
  have "dtv_base (fst (snd ?c)) = Some (after t - ?prefix)"
    by (simp add: ctor_images_head)
  with base outside assms(1) show ?thesis
    by (simp add: tls_ctor_def Let_def case_prod_beta)
qed

theorem tls_ctor_within_prefix_witness:
  "\<exists>st' tcb prefix. tls_ctor [] 0x9000 (demo_tls_state [demo_image, null_image]) = Ret () st'
      \<and> prefix_bytes [] (demo_tls_state [demo_image, null_image])
          = Ret prefix (demo_tls_state [demo_image, null_image])
      \<and> tcbs st' 0x9001 = Some tcb \<and> self tcb = 0x9001
      \<and> dtv_base (thread_vector tcb) = Some (0x9001 - prefix)"
  using tls_ctor_within_prefix [of "demo_tls_state [demo_image, null_image]" "0x9000" "[]"]
  by (auto simp: demo_tls_state_def demo_image_def null_image_def image_fits_def
      after_def sizeof_tls_def)

text \<open>The bytes of the last image, after it has been placed below all others.\<close>

lemma ctor_images_last:
  assumes ims: "ims = xs @ im # post" "data im \<noteq> nullptr" "\<forall>x \<in> set post. data x = nullptr"
    and fit: "\<forall>x \<in> set ims. data x \<noteq> nullptr \<longrightarrow> image_fits x" and room: "reserved ims \<le> unat tcb"
    and k: "k < image_size im"
    and src: "unat (data im + mem_offset im + k) < unat tcb - reserved ims \<or> unat tcb \<le> unat (data im + mem_offset im + k)"
  defines "x \<equiv> tcb - of_nat (reserved ims) + mem_offset im + k"
  shows "snd (snd (ctor_images 0 ims tcb tv m)) x = m (data im + mem_offset im + k)"
    and "unat x < unat tcb - reserved xs"
proof -
  obtain base tv' m' where c: "ctor_images 0 xs tcb tv m = (base, tv', m')" by (cases "ctor_images 0 xs tcb tv m")
  have r: "reserved ims = reserved xs + unat (reserve im)" using ims reserved_zero [OF ims(3)] by simp
  have base: "unat base = unat tcb - reserved xs" using ctor_images_base [of xs tcb 0 tv m] c room r by simp
  let ?base = "base - reserve im"
  have ub: "unat ?base = unat tcb - reserved ims" using base r room by (simp add: unat_sub word_le_nat_alt)
  have "unat (tcb - of_nat (reserved ims)) = unat tcb - reserved ims"
    using room unat_lt_64 [of tcb] by (simp add: unat_sub word_le_nat_alt unat_of_nat)
  then have eq: "tcb - of_nat (reserved ims) = ?base" using ub by (metis word_unat_eq_iff)
  have "m' (data im + mem_offset im + k) = m (data im + mem_offset im + k)"
  proof -
    have "reserved xs \<le> unat tcb" "\<forall>x \<in> set xs. data x \<noteq> nullptr \<longrightarrow> image_fits x" using room r fit ims(1) by auto
    moreover have "unat (data im + mem_offset im + k) < unat tcb - reserved xs \<or> unat tcb \<le> unat (data im + mem_offset im + k)"
      using src r by linarith
    ultimately show ?thesis using ctor_images_outside [of xs tcb _ 0 tv m] c by (metis snd_conv)
  qed
  moreover have "snd (snd (ctor_images 0 ims tcb tv m)) = memcpy (?base + mem_offset im) (data im + mem_offset im) (image_size im) m'"
    using c ims by (simp add: ctor_images_append ctor_images_empty_slots Let_def)
  ultimately show "snd (snd (ctor_images 0 ims tcb tv m)) x = m (data im + mem_offset im + k)"
    using k unfolding x_def eq by (simp add: memcpy_def word_less_nat_alt)
  have "unat (mem_offset im) + unat (image_size im) \<le> unat (reserve im)"
    using fit ims by (auto simp: image_fits_def)
  moreover have "unat k < unat (image_size im)" using k by (simp add: word_less_nat_alt)
  moreover have "unat x \<le> unat ?base + unat (mem_offset im) + unat k"
    unfolding x_def eq unat_word_ariths(1) by (meson add_le_mono1 le_trans mod_less_eq_dividend)
  ultimately show "unat x < unat tcb - reserved xs" using ub r room by linarith
qed

text \<open>
  C39. With a gap in the module table construction overwrites memory below the block that
  \<open>prefix_bytes()\<close> reserves: that function stops at the first empty slot, the constructor
  skips it and goes on. Every initial byte of the last filled image is written to an address below
  the reserved prefix.
\<close>

theorem tls_ctor_gap_underruns_prefix:
  assumes "has st" and "images st = pre @ gap # mid @ im # post"
    and "data gap = nullptr" "data im \<noteq> nullptr" "\<forall>x \<in> set post. data x = nullptr"
    and "\<forall>x \<in> set (images st). data x \<noteq> nullptr \<longrightarrow> image_fits x" and "reserved (images st) \<le> unat (after t)"
    and "k < image_size im"
    and "unat (data im + mem_offset im + k) < unat (after t) - reserved (images st)
      \<or> unat (after t) \<le> unat (data im + mem_offset im + k)"
  shows "\<exists>st' prefix x. prefix_bytes dl st = Ret prefix st \<and> tls_ctor dl t st = Ret () st'
    \<and> unat x < unat (after t) - unat prefix \<and> bytes st' x = bytes st (data im + mem_offset im + k)
    \<and> x = after t - of_nat (reserved (images st)) + mem_offset im + k"
proof -
  have ims: "images st = (pre @ gap # mid) @ im # post" using assms(2) by simp
  note l = ctor_images_last [OF ims assms(4-9)]
  have "reserved (pre @ gap # mid) = reserved pre + reserved mid" using assms(3) by simp
  then show ?thesis
    using assms(1) l prefix_sum_gap [OF assms(3), of pre "mid @ im # post"] ims
    by (auto simp: tls_ctor_def Let_def case_prod_beta)
qed

theorem tls_ctor_gap_underruns_prefix_witness:
  "\<exists>st' x. tls_ctor [] 0x9000 ((demo_tls_state [null_image, demo_image])\<lparr>bytes := (\<lambda>_. 0)(0x400003 := 7)\<rparr>) = Ret () st'
     \<and> x = 0x9001 - 64 + 3 \<and> bytes st' x = 7"
  using tls_ctor_gap_underruns_prefix
    [of "(demo_tls_state [null_image, demo_image])\<lparr>bytes := (\<lambda>_. 0)(0x400003 := 7)\<rparr>" "[]" null_image "[]" demo_image "[]" "0x9000" 3 "[]"]
  by (simp add: demo_tls_state_def demo_image_def null_image_def image_fits_def after_def sizeof_tls_def)

lemma set_thread_Ret_iff:
  "set_thread t thr st = Ret u st' \<longleftrightarrow>
     (\<exists>tcb. tcbs st (after t) = Some tcb \<and>
        st' = st\<lparr>tcbs := (tcbs st)(after t \<mapsto> tcb\<lparr>thread := thr\<rparr>)\<rparr>)"
  by (auto simp: set_thread_def split: option.splits)

lemma after_tls_current [simp]: "after (tls_current st) = fs st"
  by (simp add: after_def tls_current_def)

lemma tls_ctor_cached:
  "has st \<Longrightarrow> \<exists>m tcb. tls_ctor dl t st = Ret () (st\<lparr>bytes := m, tcbs := (tcbs st)(after t \<mapsto> tcb)\<rparr>)"
  by (simp add: tls_ctor_def Let_def case_prod_beta) blast

lemma current_thread_Ret_iff:
  "current_thread st = Ret c st' \<longleftrightarrow> (\<exists>tcb. tcbs st (fs st) = Some tcb \<and> thread tcb = c \<and> st' = st)"
  by (auto simp: current_thread_def split: option.splits)

text \<open>
  The thread pointer follows the storage in use: after \<open>set_thread\<close> and \<open>use\<close> of one
  block, \<open>current_thread\<close> returns the stored pointer and \<open>current\<close> the block, while every
  other block is unchanged.
\<close>

theorem set_thread_use_current:
  assumes "set_thread t thr st = Ret () st1" and "tls_use t st1 = Ret () st2"
  shows "current_thread st2 = Ret thr st2 \<and> tls_current st2 = t
       \<and> (\<forall>u. u \<noteq> t \<longrightarrow> tcbs st2 (after u) = tcbs st (after u))"
  using assms
  by (auto simp: set_thread_Ret_iff tls_use_def current_thread_def get_thread_def tls_current_def
      after_def split: option.splits)

theorem set_thread_use_current_witness:
  "\<exists>st2. current_thread st2 = Ret 0xDEADBEEF st2 \<and> tls_current st2 = 0x5000"
proof -
  obtain st1 where 1: "set_thread 0x5000 0xDEADBEEF (demo_tls_state []) = Ret () st1"
    by (auto simp: set_thread_Ret_iff demo_tls_state_def after_def sizeof_tls_def)
  then obtain st2 where "tls_use 0x5000 st1 = Ret () st2"
    by (auto simp: set_thread_Ret_iff tls_use_def)
  with set_thread_use_current [OF 1] show ?thesis by blast
qed

text \<open>The contract of the class: a storage is constructed when it has a control block.\<close>

interpretation ltls: tls_contract "\<lambda>st t. tcbs st (after t) \<noteq> None" "\<lambda>t u. t \<noteq> u"
    "\<lambda>st t. thread (the (tcbs st (after t)))" set_thread get_thread tls_use current_thread tls_current
  by unfold_locales
    (auto simp: get_thread_def current_thread_def set_thread_def tls_use_def tls_current_def after_def
      diff_eq_eq)

text \<open>
  The thread pointers of the constructed storages and the storage in use behave as the abstract
  state says, whatever the sequence of \<open>set_thread\<close> and \<open>use\<close> calls: each returns, and
  \<open>current\<close>, \<open>current_thread\<close> and \<open>get_thread\<close> then answer as the abstract state does.
\<close>

theorem linux_tls_refines:
  assumes "\<forall>t \<in> T. tcbs st (after t) \<noteq> None" and "tls_op_block ` set ops \<subseteq> T" and "tls_current st \<in> T"
    and "sp = fold tls_spec_op ops \<lparr>in_use = tls_current st, threads = \<lambda>t. thread (the (tcbs st (after t)))\<rparr>"
  shows "\<exists>st'. tls_run set_thread tls_use ops st = Ret () st' \<and> tls_current st' = in_use sp
    \<and> current_thread st' = Ret (threads sp (in_use sp)) st'
    \<and> (\<forall>t \<in> T. get_thread t st' = Ret (threads sp t) st')"
  using ltls.run_refines [OF assms(1) _ assms(2-4)] by blast

theorem linux_tls_refines_witness:
  "\<exists>st'. tls_run set_thread tls_use [Op_set 0x5000 7] (demo_tls_state []) = Ret () st'
     \<and> tls_current st' = 0x5000 \<and> current_thread st' = Ret 7 st'"
proof -
  have "\<forall>t \<in> {0x5000}. tcbs (demo_tls_state []) (after t) \<noteq> None" "tls_current (demo_tls_state []) \<in> {0x5000}"
    "tls_op_block ` set [Op_set 0x5000 7] \<subseteq> {0x5000}"
    by (simp_all add: demo_tls_state_def tls_current_def after_def sizeof_tls_def)
  from linux_tls_refines [OF this(1,3,2) refl] this(2) show ?thesis by auto
qed

end
