(* ===== verification/Tls_Macos.thy ===== *)
theory Tls_Macos
  imports Tls
begin

text \<open>
  Thread local storage on macOS (\<open>platform/tls_macos.cc\<close>, \<open>platform/tls_impl_macos.h\<close>).
  A storage is a copy of the bytes of libpthread's \<open>pthread_t\<close> that precede its slots, followed by
  768 slots, the first of which points back to the copy; \<open>%gs\<close> points to the slots of the
  storage in use. The size of what precedes the slots is not known when the code is compiled:
  \<open>get_pthread_slots_offset\<close> searches the running thread's block for the slot that points to the
  block. What libpthread promises about that block is the predicate \<open>mac_host\<close>. Memory is bytes;
  the objects are not aligned, since \<open>sizeof(tls)\<close> is 1. The lemmas show that the search ends with
  the right offset, that construction stays within \<open>postfix_bytes\<close> and leaves a storage that meets
  the contract of the class, and that \<open>reset\<close> and destruction free each dynamic slot once.
\<close>

section \<open>Definitions\<close>

record mac_state =
  gs :: addr
  mac_mem :: memory
  pthread_t_size :: size_t
  mac_freed :: "addr list"

definition mac_k_num_slots :: nat where
  "mac_k_num_slots = 768"

definition k_num_copied_slots :: nat where
  "k_num_copied_slots = 256"

definition k_thread_slot_a :: nat where
  "k_thread_slot_a = 6"

text \<open>The slot of index \<open>i\<close> of the slots that start at an address.\<close>

definition slot :: "addr \<Rightarrow> nat \<Rightarrow> addr" where
  "slot tls_slots i = tls_slots + of_nat (8 * i)"

text \<open>\<open>*g_pthread_self_slot\<close>: the word at \<open>%gs:0\<close>.\<close>

definition pthread_self_slot :: "mac_state \<Rightarrow> addr" where
  "pthread_self_slot st = load64 (mac_mem st) (gs st)"

text \<open>The search loop; it has no bound, so that not finding the word is not returning.\<close>

partial_function (option) search_self :: "memory \<Rightarrow> addr \<Rightarrow> addr \<Rightarrow> addr option" where
  "search_self m pthread_self search =
     (if load64 m search = pthread_self then Some search
      else search_self m pthread_self (search + 8))"

text \<open>The static variable keeps the result; a search that does not return leaves mapped memory.\<close>

definition get_pthread_slots_offset :: "mac_state \<Rightarrow> (size_t, mac_state) outcome" where
  "get_pthread_slots_offset st =
     (if pthread_t_size st \<noteq> 0 then Ret (pthread_t_size st) st
      else
        (case search_self (mac_mem st) (pthread_self_slot st) (pthread_self_slot st) of
           None \<Rightarrow> Crash Bad_pointer
         | Some search \<Rightarrow>
             (let size = search - pthread_self_slot st
              in Ret size (st\<lparr>pthread_t_size := size\<rparr>))))"

text \<open>The line that the operations share: where the slots of the storage at \<open>t\<close> start.\<close>

definition tls_slots :: "addr \<Rightarrow> mac_state \<Rightarrow> (addr, mac_state) outcome" where
  "tls_slots t st = bind_outcome (get_pthread_slots_offset st) (\<lambda>size st'. Ret (after t + size) st')"

text \<open>The copy, the cleared slots and the first slot, for the storage that starts at \<open>a\<close>.\<close>

definition ctor_memory :: "addr \<Rightarrow> addr \<Rightarrow> size_t \<Rightarrow> memory \<Rightarrow> memory" where
  "ctor_memory a pthread_self pt_size m =
     (let m1 = memcpy a pthread_self pt_size m;
          m2 = memset0 (a + pt_size) (of_nat (8 * mac_k_num_slots)) m1
      in store64 (slot (a + pt_size) 0) a m2)"

definition mac_tls_ctor :: "addr \<Rightarrow> mac_state \<Rightarrow> (unit, mac_state) outcome" where
  "mac_tls_ctor t st =
     bind_outcome (get_pthread_slots_offset st) (\<lambda>size st1.
       Ret () (st1\<lparr>mac_mem := ctor_memory (after t) (pthread_self_slot st1) size (mac_mem st1)\<rparr>))"

definition mac_free :: "addr \<Rightarrow> mac_state \<Rightarrow> mac_state" where
  "mac_free p st = st\<lparr>mac_freed := mac_freed st @ [p]\<rparr>"

text \<open>One round of the loop of the destructor, and of the loop of \<open>reset\<close>.\<close>

definition dtor_slot :: "addr \<Rightarrow> nat \<Rightarrow> mac_state \<Rightarrow> mac_state" where
  "dtor_slot slots i st =
     (let p = load64 (mac_mem st) (slot slots i)
      in if p \<noteq> nullptr then mac_free p st else st)"

definition reset_slot :: "addr \<Rightarrow> nat \<Rightarrow> mac_state \<Rightarrow> mac_state" where
  "reset_slot slots i st =
     (let p = load64 (mac_mem st) (slot slots i)
      in if p \<noteq> nullptr then
           (let st' = mac_free p st
            in st'\<lparr>mac_mem := store64 (slot slots i) nullptr (mac_mem st')\<rparr>)
         else st)"

definition mac_tls_dtor :: "addr \<Rightarrow> mac_state \<Rightarrow> (unit, mac_state) outcome" where
  "mac_tls_dtor t st =
     bind_outcome (tls_slots t st)
       (\<lambda>slots st'. Ret () (fold (dtor_slot slots) [k_num_copied_slots..<mac_k_num_slots] st'))"

definition mac_prefix_bytes :: size_t where
  "mac_prefix_bytes = 0"

definition mac_postfix_bytes :: "mac_state \<Rightarrow> (size_t, mac_state) outcome" where
  "mac_postfix_bytes st =
     bind_outcome (get_pthread_slots_offset st)
       (\<lambda>size st'. Ret (sizeof_tls + of_nat (8 * mac_k_num_slots) + size) st')"

definition mac_tls_reset :: "addr \<Rightarrow> mac_state \<Rightarrow> (unit, mac_state) outcome" where
  "mac_tls_reset t st =
     bind_outcome (tls_slots t st)
       (\<lambda>slots st'. Ret () (fold (reset_slot slots) [k_num_copied_slots..<mac_k_num_slots] st'))"

definition mac_tls_current :: "mac_state \<Rightarrow> addr" where
  "mac_tls_current st = pthread_self_slot st - sizeof_tls"

definition mac_set_thread :: "addr \<Rightarrow> addr \<Rightarrow> mac_state \<Rightarrow> (unit, mac_state) outcome" where
  "mac_set_thread t thr st =
     bind_outcome (tls_slots t st)
       (\<lambda>slots st'. Ret () (st'\<lparr>mac_mem := store64 (slot slots k_thread_slot_a) thr (mac_mem st')\<rparr>))"

definition mac_get_thread :: "addr \<Rightarrow> mac_state \<Rightarrow> (addr, mac_state) outcome" where
  "mac_get_thread t st =
     bind_outcome (tls_slots t st)
       (\<lambda>slots st'. Ret (load64 (mac_mem st') (slot slots k_thread_slot_a)) st')"

text \<open>\<open>_thread_set_tsd_base\<close> of libpthread sets the base of \<open>%gs\<close>.\<close>

definition mac_tls_use :: "addr \<Rightarrow> mac_state \<Rightarrow> (unit, mac_state) outcome" where
  "mac_tls_use t st = bind_outcome (tls_slots t st) (\<lambda>slots st'. Ret () (st'\<lparr>gs := slots\<rparr>))"

text \<open>The word at \<open>%gs:6*8\<close>.\<close>

definition mac_current_thread :: "mac_state \<Rightarrow> (addr, mac_state) outcome" where
  "mac_current_thread st = Ret (load64 (mac_mem st) (slot (gs st) 6)) st"

subsection \<open>Well-formed storage\<close>

text \<open>
  What libpthread promises about the running thread: its block starts \<open>n\<close> words below the slots
  that \<open>%gs\<close> points to, the first slot points to the block and no earlier word of it does. The
  offset is not known yet or known as such.
\<close>

definition mac_host :: "nat \<Rightarrow> mac_state \<Rightarrow> bool" where
  "mac_host n st \<longleftrightarrow> 0 < n \<and> 8 * n + 8 * mac_k_num_slots < 2 ^ 63
     \<and> gs st = pthread_self_slot st + of_nat (8 * n)
     \<and> (\<forall>i < n. load64 (mac_mem st) (pthread_self_slot st + of_nat (8 * i)) \<noteq> pthread_self_slot st)
     \<and> (pthread_t_size st = 0 \<or> pthread_t_size st = of_nat (8 * n))"

text \<open>A storage, with \<open>n\<close> bytes before its slots, while \<open>%gs\<close> points to the slots of some storage.\<close>

definition mac_block :: "nat \<Rightarrow> mac_state \<Rightarrow> addr \<Rightarrow> bool" where
  "mac_block n st t \<longleftrightarrow> 0 < n \<and> n + 8 * mac_k_num_slots < 2 ^ 63 \<and> pthread_t_size st = of_nat n
     \<and> gs st = pthread_self_slot st + of_nat n
     \<and> load64 (mac_mem st) (slot (after t + of_nat n) 0) = after t"

definition mac_apart :: "nat \<Rightarrow> addr \<Rightarrow> addr \<Rightarrow> bool" where
  "mac_apart n t u \<longleftrightarrow> blocks_apart (n + 8 * mac_k_num_slots) (after t) (after u)"

text \<open>The thread pointer a storage holds.\<close>

definition mac_thread_of :: "nat \<Rightarrow> mac_state \<Rightarrow> addr \<Rightarrow> addr" where
  "mac_thread_of n st t = load64 (mac_mem st) (slot (after t + of_nat n) k_thread_slot_a)"

text \<open>What the dynamic slots of a storage hold.\<close>

definition dynamic_slots :: "nat \<Rightarrow> mac_state \<Rightarrow> addr \<Rightarrow> addr list" where
  "dynamic_slots n st t = filter (\<lambda>p. p \<noteq> nullptr)
     (map (\<lambda>i. load64 (mac_mem st) (slot (after t + of_nat n) i)) [k_num_copied_slots..<mac_k_num_slots])"

text \<open>For the worked instances: a thread whose block has two words before its slots, alone and
  with a second storage, a dynamic slot of which is in use.\<close>

definition demo_mac :: mac_state where
  "demo_mac = \<lparr>gs = 0x7010, mac_mem = store64 0x7010 0x7000 (\<lambda>_. 0), pthread_t_size = 0, mac_freed = []\<rparr>"

definition demo_mac_two :: mac_state where
  "demo_mac_two = \<lparr>gs = 0x7010, mac_mem =
       store64 0x20971 0xABC (store64 0x20011 0x20001 (store64 0x7010 0x7000 (\<lambda>_. 0))),
     pthread_t_size = 16, mac_freed = []\<rparr>"

section \<open>Lemmas\<close>

lemmas mac_slot_defs = mac_k_num_slots_def k_num_copied_slots_def k_thread_slot_a_def

subsection \<open>The search\<close>

text \<open>The loop ends at the first word that holds the value.\<close>

lemma search_self_found:
  assumes "load64 m (s + of_nat (8 * n)) = p" "\<forall>i < n. load64 m (s + of_nat (8 * i)) \<noteq> p"
  shows "search_self m p s = Some (s + of_nat (8 * n))"
  using assms
proof (induction n arbitrary: s)
  case 0
  then show ?case by (simp add: search_self.simps)
next
  case (Suc n)
  have shift: "s + 8 + of_nat (8 * i) = s + of_nat (8 * Suc i)" for i by simp
  have "load64 m s \<noteq> p" using Suc.prems(2) [rule_format, of 0] by simp
  moreover have "\<forall>i < n. load64 m (s + 8 + of_nat (8 * i)) \<noteq> p"
    using Suc.prems(2) unfolding shift by blast
  then have "search_self m p (s + 8) = Some (s + 8 + of_nat (8 * n))"
    using Suc.IH [of "s + 8"] Suc.prems(1) unfolding shift by blast
  ultimately show ?case using shift [of n] by (subst search_self.simps) simp
qed

lemma get_pthread_slots_offset_host:
  assumes "mac_host n st"
  shows "get_pthread_slots_offset st = Ret (of_nat (8 * n)) (st\<lparr>pthread_t_size := of_nat (8 * n)\<rparr>)"
proof -
  let ?p = "pthread_self_slot st"
  have "search_self (mac_mem st) ?p ?p = Some (?p + of_nat (8 * n))"
    by (rule search_self_found) (use assms in \<open>auto simp: mac_host_def pthread_self_slot_def\<close>)
  with assms show ?thesis
    by (auto simp: get_pthread_slots_offset_def mac_host_def Let_def)
qed

lemma get_pthread_slots_offset_block: "mac_block n st t \<Longrightarrow> get_pthread_slots_offset st = Ret (of_nat n) st"
  by (auto simp: get_pthread_slots_offset_def mac_block_def word_unat_eq_iff)

lemma tls_slots_block: "mac_block n st t \<Longrightarrow> tls_slots u st = Ret (after u + of_nat n) st"
  by (simp add: tls_slots_def get_pthread_slots_offset_block)

subsection \<open>Accesses within and across storages\<close>

lemma slot_zero [simp]: "slot a 0 = a"
  by (simp add: slot_def)

lemma slot_offset: "slot (a + of_nat n) i = a + of_nat (n + 8 * i)"
  by (simp add: slot_def)

text \<open>A store into one of two disjoint blocks changes no load from the other.\<close>

lemma load64_store64_apart:
  assumes "blocks_apart n a b" "i + 8 \<le> n" "j + 8 \<le> n" "n < 2 ^ 64"
  shows "load64 (store64 (a + of_nat i) v m) (b + of_nat j) = load64 m (b + of_nat j)"
proof (rule load64_cong)
  fix k :: nat assume k: "k < 8"
  let ?x = "b + of_nat (j + k) :: addr"
  have "unat (?x - b) < n" using k assms by (simp del: of_nat_add)
  then have "n \<le> unat (?x - a)"
    using assms(1) blocks_apart_disjoint blocks_apart_sym by blast
  moreover have "unat (of_nat i :: addr) = i" using assms by simp
  ultimately have "8 \<le> unat (?x - a - of_nat i)"
    using assms(2) by (subst unat_sub) (auto simp: word_le_nat_alt)
  then show "store64 (a + of_nat i) v m (b + of_nat j + of_nat k) = m (b + of_nat j + of_nat k)"
    by (simp add: store64_def algebra_simps)
qed

lemma load64_store64_slot:
  assumes "i < mac_k_num_slots" "j < mac_k_num_slots" "n + 8 * mac_k_num_slots < 2 ^ 63"
  shows "load64 (store64 (slot (a + of_nat n) i) v m) (slot (a + of_nat n) j)
    = (if i = j then v else load64 m (slot (a + of_nat n) j))"
proof (cases "i = j")
  case False
  with assms show ?thesis unfolding slot_offset by (subst load64_store64_other) auto
qed simp

lemma load64_store64_slot_apart:
  assumes "mac_apart n t u" "i < mac_k_num_slots" "j < mac_k_num_slots" "n + 8 * mac_k_num_slots < 2 ^ 63"
  shows "load64 (store64 (slot (after t + of_nat n) i) v m) (slot (after u + of_nat n) j)
    = load64 m (slot (after u + of_nat n) j)"
  using assms unfolding mac_apart_def slot_offset by (intro load64_store64_apart) auto

subsection \<open>The contract\<close>

lemma after_mac_tls_current [simp]: "after (mac_tls_current st) = pthread_self_slot st"
  by (simp add: after_def mac_tls_current_def)

lemma mac_set_thread_block:
  assumes t: "mac_block n st t" and cur: "mac_tls_current st = t \<or> mac_apart n t (mac_tls_current st)"
  shows "\<exists>st'. mac_set_thread t x st = Ret () st' \<and> mac_block n st' t \<and> mac_thread_of n st' t = x
    \<and> mac_tls_current st' = mac_tls_current st
    \<and> (\<forall>u. mac_block n st u \<and> mac_apart n t u \<longrightarrow> mac_block n st' u \<and> mac_thread_of n st' u = mac_thread_of n st u)"
proof -
  let ?st = "st\<lparr>mac_mem := store64 (slot (after t + of_nat n) k_thread_slot_a) x (mac_mem st)\<rparr>"
  have len: "n + 8 * mac_k_num_slots < 2 ^ 63" using t by (simp add: mac_block_def)
  have same: "load64 (mac_mem ?st) (slot (after t + of_nat n) j) =
      (if j = k_thread_slot_a then x else load64 (mac_mem st) (slot (after t + of_nat n) j))"
    if "j < mac_k_num_slots" for j
    using that len by (simp add: load64_store64_slot mac_slot_defs)
  have other: "load64 (mac_mem ?st) (slot (after u + of_nat n) j) = load64 (mac_mem st) (slot (after u + of_nat n) j)"
    if "mac_apart n t u" "j < mac_k_num_slots" for u j
    using that len by (simp add: load64_store64_slot_apart mac_slot_defs)
  have gs: "gs st = slot (after (mac_tls_current st) + of_nat n) 0"
    using t by (simp add: mac_block_def slot_def)
  have "load64 (mac_mem ?st) a = load64 (mac_mem st) a" if "a = slot (after (mac_tls_current st) + of_nat n) 0" for a
    using that cur same [of 0] other [of "mac_tls_current st" 0]
    by (auto simp: mac_slot_defs simp del: after_mac_tls_current)
  from this [OF gs] have self: "pthread_self_slot ?st = pthread_self_slot st"
    by (simp add: pthread_self_slot_def)
  have "mac_block n ?st t" "mac_thread_of n ?st t = x"
    using t self same [of 0] same [of k_thread_slot_a]
    by (simp_all add: mac_block_def mac_thread_of_def mac_slot_defs)
  moreover have "mac_block n ?st u \<and> mac_thread_of n ?st u = mac_thread_of n st u"
    if "mac_block n st u" "mac_apart n t u" for u
    using that self other [OF that(2), of 0] other [OF that(2), of k_thread_slot_a]
    by (simp add: mac_block_def mac_thread_of_def mac_slot_defs)
  ultimately show ?thesis
    using self by (simp add: mac_set_thread_def tls_slots_block [OF t] mac_tls_current_def)
qed

lemma mac_tls_use_block:
  assumes "mac_block n st t"
  shows "\<exists>st'. mac_tls_use t st = Ret () st' \<and> mac_tls_current st' = t
    \<and> (\<forall>u. mac_block n st u \<longrightarrow> mac_block n st' u \<and> mac_thread_of n st' u = mac_thread_of n st u)"
proof -
  let ?st = "st\<lparr>gs := after t + of_nat n\<rparr>"
  have self: "pthread_self_slot ?st = after t"
    using assms by (simp add: mac_block_def pthread_self_slot_def slot_def)
  then have "mac_tls_current ?st = t"
    by (simp add: mac_tls_current_def after_def)
  moreover have "mac_block n ?st u \<and> mac_thread_of n ?st u = mac_thread_of n st u" if "mac_block n st u" for u
    using that self by (simp add: mac_block_def mac_thread_of_def)
  ultimately show ?thesis
    by (simp add: mac_tls_use_def tls_slots_block [OF assms])
qed

text \<open>The contract of the class, for storages with \<open>n\<close> bytes before their slots.\<close>

interpretation mtls: tls_contract "mac_block n" "mac_apart n" "mac_thread_of n" mac_set_thread
    mac_get_thread mac_tls_use mac_current_thread mac_tls_current for n
proof (unfold_locales, goal_cases)
  case (1 s t)
  then show ?case by (simp add: mac_get_thread_def tls_slots_block mac_thread_of_def)
next
  case (2 s)
  then show ?case by (simp add: mac_current_thread_def mac_thread_of_def mac_block_def k_thread_slot_a_def)
next
  case (3 s t x)
  then show ?case by (simp add: mac_set_thread_block)
next
  case (4 s t)
  then show ?case by (rule mac_tls_use_block)
qed

subsection \<open>Construction\<close>

lemma demo_two_loads:
  "load64 (mac_mem demo_mac_two) 0x7010 = 0x7000" "load64 (mac_mem demo_mac_two) 0x20011 = 0x20001"
  "load64 (mac_mem demo_mac_two) 0x20971 = 0xABC"
  using load64_store64_other [of 0 "0x19001" "0x7010" "0x20001" "store64 0x7010 0x7000 (\<lambda>_. 0)"]
    load64_store64_other [of 0 "0x19961" "0x7010" "0xABC" "store64 0x20011 0x20001 (store64 0x7010 0x7000 (\<lambda>_. 0))"]
    load64_store64_other [of 0 "0x960" "0x20011" "0xABC" "store64 0x20011 0x20001 (store64 0x7010 0x7000 (\<lambda>_. 0))"]
  by (simp_all add: demo_mac_two_def)

lemma demo_two_current: "mac_tls_current demo_mac_two = 0x6FFF"
  using demo_two_loads
  by (simp add: mac_tls_current_def pthread_self_slot_def demo_mac_two_def sizeof_tls_def)

lemma demo_two_blocks: "\<forall>t \<in> {0x6FFF, 0x20000}. mac_block 16 demo_mac_two t"
proof -
  have "pthread_self_slot demo_mac_two = 0x7000" "gs demo_mac_two = 0x7010" "pthread_t_size demo_mac_two = 16"
    using demo_two_loads by (simp_all add: pthread_self_slot_def demo_mac_two_def)
  with demo_two_loads show ?thesis
    by (simp add: mac_block_def mac_k_num_slots_def after_def sizeof_tls_def)
qed

lemma demo_self: "pthread_self_slot demo_mac = 0x7000"
  by (simp add: pthread_self_slot_def demo_mac_def)

lemma demo_host: "mac_host 2 demo_mac"
proof -
  have "load64 (mac_mem demo_mac) (0x7000 + of_nat j) = 0" if "j + 8 \<le> 16" for j
    using load64_store64_other [of j 16 "0x7000" "0x7000" "\<lambda>_. 0"] that load64_zero [of "\<lambda>_. 0"]
    by (simp add: demo_mac_def)
  from this [of 0] this [of 8] show ?thesis
    by (auto simp: mac_host_def demo_self mac_k_num_slots_def less_2_cases_iff)
      (simp_all add: demo_mac_def)
qed

text \<open>What the constructor leaves at every byte, by its distance from the start of the storage.\<close>

lemma ctor_memory_bytes:
  assumes "n + 8 * mac_k_num_slots < 2 ^ 63"
  shows "k < n \<Longrightarrow> ctor_memory a p (of_nat n) m (a + of_nat k) = m (p + of_nat k)"
    and "n + 8 \<le> k \<Longrightarrow> k < n + 8 * mac_k_num_slots \<Longrightarrow> ctor_memory a p (of_nat n) m (a + of_nat k) = 0"
    and "n + 8 * mac_k_num_slots \<le> unat (x - a) \<Longrightarrow> ctor_memory a p (of_nat n) m x = m x"
proof -
  show "ctor_memory a p (of_nat n) m (a + of_nat k) = m (p + of_nat k)" if "k < n"
  proof -
    have "8 * mac_k_num_slots \<le> unat (a + of_nat k - (a + of_nat n))"
      using that assms by (subst unat_offset_diff) auto
    with that assms show ?thesis
      by (simp add: ctor_memory_def store64_def memset0_def memcpy_def slot_def mac_k_num_slots_def)
  qed
  show "ctor_memory a p (of_nat n) m (a + of_nat k) = 0" if "n + 8 \<le> k" "k < n + 8 * mac_k_num_slots"
  proof -
    have "8 \<le> unat (a + of_nat k - (a + of_nat n))" "unat (a + of_nat k - (a + of_nat n)) < 8 * mac_k_num_slots"
      using that assms by (subst unat_offset_diff; auto)+
    with that assms show ?thesis
      by (simp add: ctor_memory_def store64_def memset0_def slot_def mac_k_num_slots_def)
  qed
  show "ctor_memory a p (of_nat n) m x = m x" if "n + 8 * mac_k_num_slots \<le> unat (x - a)"
  proof -
    have n: "unat (of_nat n :: addr) = n" using assms by simp
    have "8 * mac_k_num_slots \<le> unat (x - a - of_nat n)"
      using that n by (subst unat_sub) (auto simp: word_le_nat_alt)
    with that n show ?thesis
      by (simp add: ctor_memory_def store64_def memset0_def memcpy_def slot_def mac_k_num_slots_def diff_diff_eq)
  qed
qed

lemma ctor_memory_slot:
  assumes "n + 8 * mac_k_num_slots < 2 ^ 63" "i < mac_k_num_slots"
  shows "load64 (ctor_memory a p (of_nat n) m) (slot (a + of_nat n) i) = (if i = 0 then a else nullptr)"
proof (cases "i = 0")
  case True
  then show ?thesis by (simp add: ctor_memory_def)
next
  case False
  have "load64 (ctor_memory a p (of_nat n) m) (a + of_nat (n + 8 * i)) = 0"
    using ctor_memory_bytes(2) [OF assms(1), of "n + 8 * i + k" for k] False assms(2)
    by (intro load64_zero) (simp add: add.assoc)
  with False show ?thesis by (simp add: slot_offset del: of_nat_add)
qed

lemma ctor_memory_apart:
  assumes "n + 8 * mac_k_num_slots < 2 ^ 63" "blocks_apart (n + 8 * mac_k_num_slots) a b"
    and "j + 8 \<le> n + 8 * mac_k_num_slots"
  shows "load64 (ctor_memory a p (of_nat n) m) (b + of_nat j) = load64 m (b + of_nat j)"
proof (rule load64_cong)
  fix k :: nat assume "k < 8"
  then have "unat (b + of_nat (j + k) - b) < n + 8 * mac_k_num_slots"
    using assms by (simp del: of_nat_add)
  then have "n + 8 * mac_k_num_slots \<le> unat (b + of_nat (j + k) - a)"
    using assms(2) blocks_apart_disjoint blocks_apart_sym by blast
  from ctor_memory_bytes(3) [OF assms(1) this]
  show "ctor_memory a p (of_nat n) m (b + of_nat j + of_nat k) = m (b + of_nat j + of_nat k)"
    by (simp add: add.assoc)
qed

text \<open>The object and its storage are the bytes that \<open>postfix_bytes\<close> counts.\<close>

lemma outside_storage:
  assumes "n + 8 * mac_k_num_slots < 2 ^ 63"
    and "x = t \<or> unat (sizeof_tls + of_nat (8 * mac_k_num_slots) + of_nat n :: size_t) \<le> unat (x - t)"
  shows "n + 8 * mac_k_num_slots \<le> unat (x - after t)"
proof -
  have size: "unat (sizeof_tls + of_nat (8 * mac_k_num_slots) + of_nat n :: size_t) = 1 + 8 * mac_k_num_slots + n"
    using assms(1) unat_of_nat_small [of "1 + 8 * mac_k_num_slots + n"] by (simp add: sizeof_tls_def add.assoc)
  have after: "x - after t = x - t - 1" by (simp add: after_def sizeof_tls_def)
  show ?thesis
  proof (cases "x = t")
    case True
    then have "x - after t = - 1" by (simp add: after_def sizeof_tls_def)
    with assms(1) show ?thesis by (simp add: unsigned_minus_1_eq_mask mask_eq_exp_minus_1)
  next
    case False
    with assms(2) size show ?thesis
      by (simp add: after unat_minus_one)
  qed
qed

text \<open>
  C36. Construction on a thread of libpthread: the search for the size ends, the storage takes
  \<open>postfix_bytes()\<close> from its address on and no other byte changes, the bytes before the slots are
  those of the thread, the first slot points to the storage, the others and with them the thread
  pointer are null, nothing is freed, and the storage in use stays the one it was; both
  storages then meet the contract of the class.
\<close>

theorem mac_tls_ctor_constructs:
  assumes host: "mac_host n st" and apart: "mac_apart (8 * n) t (mac_tls_current st)"
  shows "\<exists>st' size. mac_tls_ctor t st = Ret () st' \<and> mac_postfix_bytes st' = Ret size st'
    \<and> mac_block (8 * n) st' t \<and> mac_block (8 * n) st' (mac_tls_current st')
    \<and> mac_tls_current st' = mac_tls_current st \<and> mac_freed st' = mac_freed st
    \<and> mac_get_thread t st' = Ret nullptr st'
    \<and> (\<forall>i. 0 < i \<and> i < mac_k_num_slots \<longrightarrow> load64 (mac_mem st') (slot (after t + of_nat (8 * n)) i) = nullptr)
    \<and> (\<forall>k < 8 * n. mac_mem st' (after t + of_nat k) = mac_mem st (after (mac_tls_current st) + of_nat k))
    \<and> (\<forall>x. x = t \<or> unat size \<le> unat (x - t) \<longrightarrow> mac_mem st' x = mac_mem st x)"
proof -
  let ?n = "8 * n" and ?p = "pthread_self_slot st" and ?a = "after t"
  let ?m = "ctor_memory ?a ?p (of_nat ?n) (mac_mem st)"
  let ?st = "st\<lparr>pthread_t_size := of_nat ?n, mac_mem := ?m\<rparr>"
  let ?size = "sizeof_tls + of_nat (8 * mac_k_num_slots) + of_nat ?n :: size_t"
  have len: "?n + 8 * mac_k_num_slots < 2 ^ 63" and n: "0 < n" using host by (auto simp: mac_host_def)
  have gs: "gs st = ?p + of_nat ?n" using host by (simp add: mac_host_def)
  have ctor: "mac_tls_ctor t st = Ret () ?st"
    using get_pthread_slots_offset_host [OF host] by (simp add: mac_tls_ctor_def pthread_self_slot_def)
  have keep: "load64 ?m x = load64 (mac_mem st) x" if "x = ?p + of_nat ?n" for x
    unfolding that using apart by (intro ctor_memory_apart [OF len]) (simp_all add: mac_apart_def mac_k_num_slots_def)
  from keep [OF gs] have p: "pthread_self_slot ?st = ?p" by (simp add: pthread_self_slot_def)
  have slots: "load64 (mac_mem ?st) (slot (?a + of_nat ?n) i) = (if i = 0 then ?a else nullptr)"
    if "i < mac_k_num_slots" for i
    using ctor_memory_slot [OF len that] by simp
  have block: "mac_block ?n ?st t"
    using n len gs p slots [of 0] by (simp add: mac_block_def mac_k_num_slots_def)
  have cur: "mac_tls_current ?st = mac_tls_current st" using p by (simp add: mac_tls_current_def)
  have "load64 (mac_mem ?st) (slot (?p + of_nat ?n) 0) = ?p"
    using gs keep [OF gs] by (simp add: slot_zero flip: gs) (simp add: pthread_self_slot_def)
  then have block': "mac_block ?n ?st (mac_tls_current ?st)"
    using block p by (simp add: mac_block_def)
  have size: "mac_postfix_bytes ?st = Ret ?size ?st"
    unfolding mac_postfix_bytes_def get_pthread_slots_offset_block [OF block] by simp
  have thr: "mac_get_thread t ?st = Ret nullptr ?st"
    using slots [of k_thread_slot_a] unfolding mac_get_thread_def tls_slots_block [OF block]
    by (simp add: mac_slot_defs)
  have outside: "?m x = mac_mem st x" if "x = t \<or> unat ?size \<le> unat (x - t)" for x
    using ctor_memory_bytes(3) [OF len] outside_storage [OF len that] by simp
  show ?thesis
    using ctor size block block' cur thr slots outside ctor_memory_bytes(1) [OF len]
    by (intro exI [of _ ?st] exI [of _ ?size]) simp
qed

theorem mac_tls_ctor_constructs_witness:
  "\<exists>st' size. mac_tls_ctor 0x20000 demo_mac = Ret () st' \<and> mac_postfix_bytes st' = Ret size st'
     \<and> mac_block 16 st' 0x20000 \<and> mac_tls_current st' = 0x6FFF \<and> mac_get_thread 0x20000 st' = Ret nullptr st'
     \<and> (\<forall>x. x = 0x20000 \<or> unat size \<le> unat (x - 0x20000) \<longrightarrow> mac_mem st' x = mac_mem demo_mac x)"
proof -
  have cur: "mac_tls_current demo_mac = 0x6FFF"
    by (simp add: mac_tls_current_def demo_self sizeof_tls_def)
  have "mac_apart (8 * 2) 0x20000 (mac_tls_current demo_mac)"
    by (simp add: cur mac_apart_def blocks_apart_def after_def sizeof_tls_def mac_k_num_slots_def)
  from mac_tls_ctor_constructs [OF demo_host this] show ?thesis
    unfolding cur by simp metis
qed

subsection \<open>The thread pointer\<close>

text \<open>
  C35. The storages of macOS behave as the abstract state says, whatever the sequence of \<open>set_thread\<close>
  and \<open>use\<close> calls on storages that do not overlap: each call returns, and \<open>current\<close>,
  \<open>current_thread\<close> and \<open>get_thread\<close> then answer as the abstract state does.
\<close>

theorem mac_tls_refines:
  assumes "\<forall>t \<in> T. mac_block n st t" and "\<forall>t \<in> T. \<forall>u \<in> T. t \<noteq> u \<longrightarrow> mac_apart n t u"
    and "tls_op_block ` set ops \<subseteq> T" and "mac_tls_current st \<in> T"
    and "sp = fold tls_spec_op ops \<lparr>in_use = mac_tls_current st, threads = mac_thread_of n st\<rparr>"
  shows "\<exists>st'. tls_run mac_set_thread mac_tls_use ops st = Ret () st' \<and> mac_tls_current st' = in_use sp
    \<and> mac_current_thread st' = Ret (threads sp (in_use sp)) st'
    \<and> (\<forall>t \<in> T. mac_block n st' t \<and> mac_get_thread t st' = Ret (threads sp t) st')"
  using assms by (rule mtls.run_refines)

theorem mac_tls_refines_witness:
  "\<exists>st'. tls_run mac_set_thread mac_tls_use [Op_set 0x20000 7, Op_set 0x6FFF 5, Op_use 0x20000] demo_mac_two = Ret () st'
     \<and> mac_tls_current st' = 0x20000 \<and> mac_current_thread st' = Ret 7 st' \<and> mac_get_thread 0x6FFF st' = Ret 5 st'"
proof -
  have "\<forall>t \<in> {0x6FFF, 0x20000}. \<forall>u \<in> {0x6FFF, 0x20000}. t \<noteq> u \<longrightarrow> mac_apart 16 t u"
    by (simp add: mac_apart_def blocks_apart_def after_def sizeof_tls_def mac_k_num_slots_def)
  from mac_tls_refines [OF demo_two_blocks this _ _ refl, of "[Op_set 0x20000 7, Op_set 0x6FFF 5, Op_use 0x20000]"]
  show ?thesis by (auto simp: demo_two_current)
qed

subsection \<open>Reset and destruction\<close>

lemma in_dynamic_slots:
  "load64 (mac_mem st) (slot (after t + of_nat n) i) = p \<Longrightarrow> p \<noteq> nullptr
     \<Longrightarrow> k_num_copied_slots \<le> i \<Longrightarrow> i < mac_k_num_slots \<Longrightarrow> p \<in> set (dynamic_slots n st t)"
  by (auto simp: dynamic_slots_def)

lemma dtor_slots:
  "fold (dtor_slot s) is st =
     st\<lparr>mac_freed := mac_freed st @ filter (\<lambda>p. p \<noteq> nullptr) (map (\<lambda>i. load64 (mac_mem st) (slot s i)) is)\<rparr>"
  by (induction "is" arbitrary: st) (simp_all add: dtor_slot_def mac_free_def)

lemma store64_slot_outside:
  assumes "i < mac_k_num_slots" "n + 8 * mac_k_num_slots < 2 ^ 63" "n + 8 * mac_k_num_slots \<le> unat (x - a)"
  shows "store64 (slot (a + of_nat n) i) v m x = m x"
proof -
  have "unat (of_nat (n + 8 * i) :: addr) = n + 8 * i" using assms by (intro unat_of_nat_small) simp
  then have "8 \<le> unat (x - a - of_nat (n + 8 * i))"
    using assms by (subst unat_sub) (auto simp: word_le_nat_alt)
  then show ?thesis by (simp add: store64_def slot_offset algebra_simps)
qed

lemma reset_slot_effect:
  assumes "n + 8 * mac_k_num_slots < 2 ^ 63" "k < mac_k_num_slots" "s = a + of_nat n"
  shows "mac_freed (reset_slot s k st) = mac_freed st
      @ (if load64 (mac_mem st) (slot s k) \<noteq> nullptr then [load64 (mac_mem st) (slot s k)] else [])"
    and "i < mac_k_num_slots \<Longrightarrow> load64 (mac_mem (reset_slot s k st)) (slot s i) =
      (if i = k then nullptr else load64 (mac_mem st) (slot s i))"
    and "gs (reset_slot s k st) = gs st" "pthread_t_size (reset_slot s k st) = pthread_t_size st"
    and "n + 8 * mac_k_num_slots \<le> unat (x - a) \<Longrightarrow> mac_mem (reset_slot s k st) x = mac_mem st x"
  using assms
  by (simp_all add: reset_slot_def Let_def mac_free_def load64_store64_slot store64_slot_outside)

text \<open>The slots from \<open>j\<close> up to \<open>k\<close> are freed and cleared, in this order.\<close>

lemma reset_slots_upto:
  assumes len: "n + 8 * mac_k_num_slots < 2 ^ 63" and "k \<le> mac_k_num_slots"
    and s: "s = a + of_nat n" and "st' = fold (reset_slot s) [j..<k] st"
  shows "mac_freed st' = mac_freed st @ filter (\<lambda>p. p \<noteq> nullptr) (map (\<lambda>i. load64 (mac_mem st) (slot s i)) [j..<k])
    \<and> (\<forall>i < mac_k_num_slots. load64 (mac_mem st') (slot s i) =
         (if j \<le> i \<and> i < k then nullptr else load64 (mac_mem st) (slot s i)))
    \<and> gs st' = gs st \<and> pthread_t_size st' = pthread_t_size st
    \<and> (\<forall>x. n + 8 * mac_k_num_slots \<le> unat (x - a) \<longrightarrow> mac_mem st' x = mac_mem st x)"
  using assms(2,4)
proof (induction k arbitrary: st')
  case (Suc k)
  show ?case
  proof (cases "j \<le> k")
    case True
    let ?st = "fold (reset_slot s) [j..<k] st"
    from True Suc.prems(2) have st': "st' = reset_slot s k ?st" by simp
    have k: "k < mac_k_num_slots" using Suc.prems(1) by simp
    note IH = Suc.IH [OF _ refl]
    note eff = reset_slot_effect [OF len k s]
    have "load64 (mac_mem ?st) (slot s k) = load64 (mac_mem st) (slot s k)" using IH k by simp
    with IH k True show ?thesis unfolding st' by (auto simp: eff less_Suc_eq)
  qed (use Suc.prems in auto)
qed simp

text \<open>
  C37. The dynamic slots of a storage are freed once: \<open>reset\<close> frees what they hold, in order, and
  clears them, so that the destructor then frees nothing and changes nothing; the destructor
  alone frees the same. The slots that were copied, among them the thread pointer, and every byte
  outside the storage keep their values.
\<close>

theorem mac_reset_frees_once:
  assumes "mac_block n st t"
  shows "\<exists>st'. mac_tls_reset t st = Ret () st' \<and> mac_freed st' = mac_freed st @ dynamic_slots n st t
    \<and> dynamic_slots n st' t = [] \<and> mac_tls_dtor t st' = Ret () st'
    \<and> mac_tls_dtor t st = Ret () (st\<lparr>mac_freed := mac_freed st @ dynamic_slots n st t\<rparr>)
    \<and> mac_get_thread t st' = Ret (mac_thread_of n st t) st'
    \<and> (\<forall>i < k_num_copied_slots. load64 (mac_mem st') (slot (after t + of_nat n) i)
          = load64 (mac_mem st) (slot (after t + of_nat n) i))
    \<and> (\<forall>x. n + 8 * mac_k_num_slots \<le> unat (x - after t) \<longrightarrow> mac_mem st' x = mac_mem st x)"
proof -
  let ?s = "after t + of_nat n :: addr"
  define st' where "st' = fold (reset_slot ?s) [k_num_copied_slots..<mac_k_num_slots] st"
  have len: "n + 8 * mac_k_num_slots < 2 ^ 63" using assms by (simp add: mac_block_def)
  note r = reset_slots_upto [OF len le_refl refl st'_def]
  have slots: "tls_slots t st' = Ret ?s st'"
    using r get_pthread_slots_offset_block [OF assms] assms
    by (auto simp: tls_slots_def get_pthread_slots_offset_def mac_block_def word_unat_eq_iff)
  have reset: "mac_tls_reset t st = Ret () st'"
    by (simp add: mac_tls_reset_def tls_slots_block [OF assms] st'_def)
  have none: "dynamic_slots n st' t = []"
    using r by (simp add: dynamic_slots_def filter_empty_conv)
  then have dtor': "mac_tls_dtor t st' = Ret () st'"
    by (simp add: mac_tls_dtor_def slots dtor_slots flip: dynamic_slots_def)
  have dtor: "mac_tls_dtor t st = Ret () (st\<lparr>mac_freed := mac_freed st @ dynamic_slots n st t\<rparr>)"
    by (simp add: mac_tls_dtor_def tls_slots_block [OF assms] dtor_slots dynamic_slots_def)
  have "mac_get_thread t st' = Ret (mac_thread_of n st t) st'"
    using r by (simp add: mac_get_thread_def slots mac_thread_of_def mac_slot_defs)
  with r reset none dtor dtor' show ?thesis
    by (intro exI [of _ st']) (simp add: dynamic_slots_def mac_slot_defs)
qed

theorem mac_reset_frees_once_witness:
  "\<exists>st'. mac_tls_reset 0x20000 demo_mac_two = Ret () st' \<and> mac_tls_dtor 0x20000 st' = Ret () st'
     \<and> 0xABC \<in> set (mac_freed st') \<and> dynamic_slots 16 st' 0x20000 = []"
proof -
  have "mac_block 16 demo_mac_two 0x20000" using demo_two_blocks by simp
  moreover have "load64 (mac_mem demo_mac_two) (slot (after 0x20000 + of_nat 16) 300) = 0xABC"
    using demo_two_loads by (simp add: slot_def after_def sizeof_tls_def)
  then have "0xABC \<in> set (dynamic_slots 16 demo_mac_two 0x20000)"
    by (intro in_dynamic_slots [where i = 300]) (simp_all add: mac_slot_defs)
  ultimately show ?thesis
    using mac_reset_frees_once [of 16 demo_mac_two "0x20000"] by auto
qed

end
