(* ===== verification/Task.thy ===== *)
theory Task
  imports Memory Tls_Linux
begin

text \<open>
  Tasks (\<open>sched/task.h\<close>, \<open>sched/task_impl.h\<close>, \<open>sched/task.cc\<close>): the task object, its
  placement on its own stack, its life cycle and the switch between tasks. The world holds
  the task objects by address, the thread local storage, the suspended activations of every
  task that is not running and the kernel calls made so far.

  A context switch is modelled by its effect on activations: \<open>gthread_switch_to\<close> leaves the
  caller suspended with the list of activations that will be resumed, innermost first
  (\<open>frame\<close>), and hands control to the activations of the target. The register-level
  account of the same switch is in the theory \<open>Arch\<close>.
\<close>

section \<open>Definitions\<close>

subsection \<open>Data\<close>

datatype run_state_t = RUNNING | SUSPENDED | STOPPED | WAITING

record task =
  tls_ptr :: addr
  stack_top :: addr
  stack_begin :: addr
  total_stack_size :: size_t
  run_state :: run_state_t
  entry :: addr
  arg :: addr
  return_value :: addr
  joiner :: addr
  detached :: bool
  vruntime :: int
  priority_boost :: u64
  no_preempt_flag :: bool

text \<open>
  The points at which an activation can be suspended, each named after the function and
  holding the local variables it needs when it goes on: inside \<open>gthread_task_entry\<close> before
  the entry function, in \<open>task::switch_to_internal\<close>, and in the callers of the latter.
\<close>

datatype frame =
    Task_entry
  | In_switch_to addr
  | In_node_yield
  | In_node_start
  | In_sched_yield
  | In_join addr bool
  | In_exit
  | In_stop
  | In_sleep_for
  | In_trap
  | In_swap

text \<open>The value of \<open>g_current_sched_node\<close>; the program has one node, the root node.\<close>

datatype node_ptr = Null_node | Root_node

text \<open>
  What a call does to the control flow: it returns to its caller, or it has switched to
  another task and the caller is suspended.
\<close>

datatype control = Returned | Switched

record world =
  tls :: tls_state
  g_current_sched_node :: "addr \<Rightarrow> node_ptr"
  tasks :: "addr \<rightharpoonup> task"
  conts :: "addr \<Rightarrow> frame list"
  os_trace :: "os_call list"

text \<open>The platform a task is created on: the kernel, the loaded modules, the object size.\<close>

record env =
  kernel :: os
  modules :: "dl_phdr_info list"
  sizeof_task :: size_t

subsection \<open>Access to the world\<close>

fun lift_tls ::
    "(tls_state \<Rightarrow> ('a, tls_state) outcome) \<Rightarrow> 'x world_scheme \<Rightarrow> ('a, 'x world_scheme) outcome" where
  "lift_tls f w =
     (case f (tls w) of
        Ret a st \<Rightarrow> Ret a (w\<lparr>tls := st\<rparr>)
      | Throw e st \<Rightarrow> Throw e (w\<lparr>tls := st\<rparr>)
      | Crash c \<Rightarrow> Crash c)"

definition deref ::
    "addr \<Rightarrow> 'x world_scheme \<Rightarrow> (task \<Rightarrow> ('a, 'x world_scheme) outcome) \<Rightarrow> ('a, 'x world_scheme) outcome" where
  "deref t w f = (case tasks w t of None \<Rightarrow> Crash Bad_pointer | Some x \<Rightarrow> f x)"

definition upd_task ::
    "addr \<Rightarrow> (task \<Rightarrow> task) \<Rightarrow> 'x world_scheme \<Rightarrow> (unit, 'x world_scheme) outcome" where
  "upd_task t f w = deref t w (\<lambda>x. Ret () (w\<lparr>tasks := (tasks w)(t \<mapsto> f x)\<rparr>))"

text \<open>\<open>task::current()\<close>.\<close>

definition task_current :: "'x world_scheme \<Rightarrow> (addr, 'x world_scheme) outcome" where
  "task_current w = lift_tls current_thread w"

subsection \<open>Construction and destruction\<close>

definition sixteen_byte_align :: "addr \<Rightarrow> addr" where
  "sixteen_byte_align p = p AND (NOT 0xF)"

text \<open>The default constructor, for the object that wraps a running context.\<close>

definition task_default :: task where
  "task_default =
     \<lparr>tls_ptr = nullptr, stack_top = nullptr, stack_begin = nullptr, total_stack_size = 0,
      run_state = RUNNING, entry = nullptr, arg = nullptr, return_value = nullptr,
      joiner = nullptr, detached = False, vruntime = 0, priority_boost = 0,
      no_preempt_flag = False\<rparr>"

text \<open>The fields the private constructor initialises.\<close>

definition fresh_task :: "addr \<Rightarrow> addr \<Rightarrow> addr \<Rightarrow> size_t \<Rightarrow> task" where
  "fresh_task tls_p stk stk_begin tot =
     \<lparr>tls_ptr = tls_p, stack_top = stk, stack_begin = stk_begin, total_stack_size = tot,
      run_state = STOPPED, entry = nullptr, arg = nullptr, return_value = nullptr,
      joiner = nullptr, detached = False, vruntime = 0, priority_boost = 0,
      no_preempt_flag = False\<rparr>"

text \<open>The private constructor: the object at \<open>this\<close>, with its storage below it on the stack.\<close>

definition task_ctor ::
    "env \<Rightarrow> addr \<Rightarrow> addr \<Rightarrow> addr \<Rightarrow> size_t \<Rightarrow> bool \<Rightarrow> 'x world_scheme \<Rightarrow> (addr, 'x world_scheme) outcome" where
  "task_ctor e this stk stk_begin tot alloc w =
     (if alloc then
        (let tls_begin = stk_begin - postfix_bytes
         in bind_outcome (lift_tls (tls_ctor (modules e) tls_begin) w) (\<lambda>_ w1.
            bind_outcome (lift_tls (prefix_bytes (modules e)) w1) (\<lambda>prefix w2.
            bind_outcome (lift_tls (set_thread tls_begin this) w2) (\<lambda>_ w3.
              Ret this
                (w3\<lparr>tasks := (tasks w3)(this \<mapsto>
                      fresh_task tls_begin stk (sixteen_byte_align (tls_begin - prefix)) tot),
                    g_current_sched_node :=
                      (g_current_sched_node w3)(after tls_begin := Null_node)\<rparr>)))))
      else
        Ret this
          (w\<lparr>tasks := (tasks w)(this \<mapsto>
               fresh_task nullptr stk (sixteen_byte_align stk_begin) tot)\<rparr>))"

text \<open>
  \<open>task::create\<close> drops the return code of \<open>allocate_stack\<close>; where that leaves an out
  parameter unwritten, an uninitialised variable is read.
\<close>

definition task_create :: "env \<Rightarrow> attr \<Rightarrow> 'x world_scheme \<Rightarrow> (addr, 'x world_scheme) outcome" where
  "task_create e a w =
     (let r = allocate_stack (kernel e) True a;
          w1 = w\<lparr>os_trace := os_trace w @ os_calls r\<rparr>
      in case (out_stack r, out_total r) of
           (Some stk, Some tot) \<Rightarrow>
             (let task_place = stk - sizeof_task e
              in task_ctor e task_place stk task_place tot (alloc_tls a) w1)
         | _ \<Rightarrow> Crash Uninit_read)"

text \<open>\<open>~task\<close>: a wrapped task has no stack and keeps its storage.\<close>

definition task_dtor :: "addr \<Rightarrow> 'x world_scheme \<Rightarrow> (unit, 'x world_scheme) outcome" where
  "task_dtor this w =
     deref this w (\<lambda>t.
       if stack_top t = nullptr then Ret () w
       else if tls_ptr t \<noteq> nullptr
       then bind_outcome (lift_tls (tls_dtor (tls_ptr t)) w) (\<lambda>_ w1. Ret () w1)
       else Ret () w)"

text \<open>The control blocks inside an unmapped region are gone with it.\<close>

definition unmap_tcbs :: "addr \<Rightarrow> size_t \<Rightarrow> tls_state \<Rightarrow> tls_state" where
  "unmap_tcbs base len st =
     st\<lparr>tcbs := (\<lambda>x. if unat (x - base) < unat len then None else tcbs st x)\<rparr>"

definition task_destroy :: "env \<Rightarrow> addr \<Rightarrow> 'x world_scheme \<Rightarrow> (unit, 'x world_scheme) outcome" where
  "task_destroy e this w =
     deref this w (\<lambda>t.
       bind_outcome (task_dtor this w) (\<lambda>_ w1.
         (let w2 = w1\<lparr>tasks := (tasks w1)(this := None)\<rparr>
          in if stack_top t \<noteq> nullptr then
               (let base = stack_top t - total_stack_size t
                in Ret ()
                     (w2\<lparr>os_trace := os_trace w2
                           @ snd (free_stack (kernel e) base (total_stack_size t)),
                         tls := unmap_tcbs base (total_stack_size t) (tls w2)\<rparr>))
             else Ret () w2)))"

definition reset_fields :: "task \<Rightarrow> task" where
  "reset_fields t =
     t\<lparr>run_state := STOPPED, entry := nullptr, arg := nullptr, return_value := nullptr,
       joiner := nullptr, detached := False, vruntime := 0, priority_boost := 0,
       no_preempt_flag := False\<rparr>"

definition task_reset :: "env \<Rightarrow> addr \<Rightarrow> 'x world_scheme \<Rightarrow> (unit, 'x world_scheme) outcome" where
  "task_reset e this w =
     deref this w (\<lambda>t.
       bind_outcome
         (if tls_ptr t \<noteq> nullptr then
            bind_outcome (lift_tls (tls_reset (modules e) (tls_ptr t)) w) (\<lambda>_ w1.
              Ret () (w1\<lparr>g_current_sched_node :=
                (g_current_sched_node w1)(after (tls_ptr t) := Null_node)\<rparr>))
          else Ret () w)
         (\<lambda>_ w1. upd_task this reset_fields w1))"

subsection \<open>Running\<close>

definition wrap_current :: "addr \<Rightarrow> 'x world_scheme \<Rightarrow> (unit, 'x world_scheme) outcome" where
  "wrap_current this w =
     bind_outcome
       (upd_task this (\<lambda>t. t\<lparr>tls_ptr := tls_current (tls w), run_state := RUNNING\<rparr>) w)
       (\<lambda>_ w1. lift_tls (set_thread (tls_current (tls w1)) this) w1)"

text \<open>
  \<open>task::start\<close>: the new context runs \<open>gthread_task_entry\<close> up to its first
  \<open>gthread_switch_to\<close>, which returns here and leaves it suspended before the entry function.
\<close>

definition task_start :: "addr \<Rightarrow> 'x world_scheme \<Rightarrow> (unit, 'x world_scheme) outcome" where
  "task_start this w =
     deref this w (\<lambda>t.
       if run_state t \<noteq> STOPPED then Crash Assert_failed
       else
         bind_outcome (task_current w) (\<lambda>cur w1.
           if this = cur then Crash Assert_failed
           else
             (let w2 = w1\<lparr>conts := (conts w1)(this := [Task_entry])\<rparr>
              in upd_task this (\<lambda>t. t\<lparr>run_state := SUSPENDED\<rparr>) w2)))"

definition task_stop ::
    "(addr \<Rightarrow> 'x world_scheme \<Rightarrow> (control, 'x world_scheme) outcome) option
       \<Rightarrow> addr \<Rightarrow> addr \<Rightarrow> 'x world_scheme \<Rightarrow> (control, 'x world_scheme) outcome" where
  "task_stop end_handler this v w =
     bind_outcome (upd_task this (\<lambda>t. t\<lparr>return_value := v\<rparr>) w) (\<lambda>_ w1.
     bind_outcome (case end_handler of None \<Rightarrow> Ret Returned w1 | Some h \<Rightarrow> h this w1) (\<lambda>c w2.
       case c of
         Switched \<Rightarrow> Ret Switched w2
       | Returned \<Rightarrow> Throw (Runtime_error ''task end handler did not stop the task!'') w2))"

text \<open>
  \<open>task::switch_to_internal\<close> up to the switch itself. \<open>k\<close> are the activations of the
  callers; \<open>thunk\<close> is the callback that runs after the storage is switched (\<open>None\<close> for a
  null pointer). The rest of the function runs when the caller is resumed, in \<open>finish_switch\<close>.
\<close>

definition switch_to_internal ::
    "addr \<Rightarrow> ('x world_scheme \<Rightarrow> 'x world_scheme) option \<Rightarrow> frame list
       \<Rightarrow> 'x world_scheme \<Rightarrow> (control, 'x world_scheme) outcome" where
  "switch_to_internal this thunk k w =
     bind_outcome (task_current w) (\<lambda>prev w0.
       if this = prev then Crash Assert_failed
       else
         bind_outcome
           (upd_task prev (\<lambda>p. if run_state p = RUNNING then p\<lparr>run_state := SUSPENDED\<rparr> else p) w0)
           (\<lambda>_ w1. deref this w1 (\<lambda>t.
             bind_outcome
               (if tls_ptr t \<noteq> nullptr then
                  bind_outcome (lift_tls (set_thread (tls_ptr t) this) w1)
                    (\<lambda>_ w2. lift_tls (tls_use (tls_ptr t)) w2)
                else lift_tls (set_thread (tls_current (tls w1)) this) w1)
               (\<lambda>_ w2.
                 (let w3 = (case thunk of None \<Rightarrow> w2 | Some f \<Rightarrow> f w2)
                  in Ret Switched (w3\<lparr>conts := (conts w3)(prev := In_switch_to prev # k)\<rparr>))))))"

definition finish_switch :: "addr \<Rightarrow> 'x world_scheme \<Rightarrow> (unit, 'x world_scheme) outcome" where
  "finish_switch prev w =
     bind_outcome (task_current w) (\<lambda>cur w1.
       if prev \<noteq> cur then Crash Assert_failed
       else upd_task prev (\<lambda>t. t\<lparr>run_state := RUNNING\<rparr>) w1)"

text \<open>\<open>gthread_task_entry\<close> when its task is first switched to.\<close>

definition enter_task :: "'x world_scheme \<Rightarrow> (unit, 'x world_scheme) outcome" where
  "enter_task w =
     bind_outcome (task_current w) (\<lambda>cur w1. upd_task cur (\<lambda>t. t\<lparr>run_state := RUNNING\<rparr>) w1)"

definition has_tls :: "task \<Rightarrow> bool" where
  "has_tls t \<longleftrightarrow> tls_ptr t \<noteq> nullptr"

text \<open>The running task as the storage in use records it.\<close>

definition current_is :: "addr \<Rightarrow> 'x world_scheme \<Rightarrow> bool" where
  "current_is c w \<longleftrightarrow> (\<exists>tcb. tcbs (tls w) (fs (tls w)) = Some tcb \<and> thread tcb = c)"

text \<open>
  The bytes a task needs at the top of its stack: the object itself and, with thread local
  storage, the control block and the images, and what alignment may cost.
\<close>

definition task_overhead :: "env \<Rightarrow> attr \<Rightarrow> 'x world_scheme \<Rightarrow> nat" where
  "task_overhead e a w =
     unat (sizeof_task e) + 16 +
     (if alloc_tls a then unat postfix_bytes + unat (prefix_sum (images (tls w))) else 0)"

text \<open>The storage after a switch to \<open>this\<close>.\<close>

definition switched_tls :: "addr \<Rightarrow> task \<Rightarrow> tls_state \<Rightarrow> tls_state" where
  "switched_tls this t st =
     (if tls_ptr t \<noteq> nullptr then
        st\<lparr>fs := after (tls_ptr t),
           tcbs := (tcbs st)(after (tls_ptr t) \<mapsto>
             (the (tcbs st (after (tls_ptr t))))\<lparr>thread := this, did_ctype_init := True\<rparr>)\<rparr>
      else st\<lparr>tcbs := (tcbs st)(fs st \<mapsto> (the (tcbs st (fs st)))\<lparr>thread := this\<rparr>)\<rparr>)"

definition demoted :: "task \<Rightarrow> task" where
  "demoted p = (if run_state p = RUNNING then p\<lparr>run_state := SUSPENDED\<rparr> else p)"

text \<open>A platform and a world with one running wrapped task, for the worked instances.\<close>

definition demo_env :: "addr \<Rightarrow> env" where
  "demo_env base = \<lparr>kernel = demo_os base, modules = [], sizeof_task = 160\<rparr>"

definition demo_world :: world where
  "demo_world =
     \<lparr>tls = demo_tls_state [demo_image], g_current_sched_node = (\<lambda>_. Null_node),
      tasks = [0x100 \<mapsto> task_default], conts = (\<lambda>_. []), os_trace = []\<rparr>"

section \<open>Access lemmas\<close>

lemma world_tls_self [simp]: "w\<lparr>tls := tls w\<rparr> = (w :: 'x world_scheme)"
  by simp

lemma deref_Some [simp]: "tasks w t = Some x \<Longrightarrow> deref t w f = f x"
  by (simp add: deref_def)

lemma upd_task_Some [simp]:
  "tasks w t = Some x \<Longrightarrow> upd_task t f w = Ret () (w\<lparr>tasks := (tasks w)(t \<mapsto> f x)\<rparr>)"
  by (simp add: upd_task_def)

lemma deref_Ret_iff: "deref t w f = Ret a w' \<longleftrightarrow> (\<exists>x. tasks w t = Some x \<and> f x = Ret a w')"
  by (simp add: deref_def split: option.splits)

lemma task_current_Ret [simp]: "current_is c w \<Longrightarrow> task_current w = Ret c w"
  by (auto simp: task_current_def current_is_def current_thread_def)

lemma task_current_Ret_iff: "task_current w = Ret c w' \<longleftrightarrow> current_is c w \<and> w' = w"
  by (auto simp: task_current_def current_is_def current_thread_def split: option.splits)

lemma current_is_unique: "current_is c w \<Longrightarrow> current_is d w \<Longrightarrow> c = d"
  by (auto simp: current_is_def)

lemma current_is_upd [simp]:
  "current_is c (w\<lparr>tasks := ts\<rparr>) = current_is c w"
  "current_is c (w\<lparr>conts := cs\<rparr>) = current_is c w"
  "current_is c (w\<lparr>g_current_sched_node := g\<rparr>) = current_is c w"
  "current_is c (w\<lparr>os_trace := tr\<rparr>) = current_is c w"
  by (simp_all add: current_is_def)

section \<open>Placement on the stack\<close>

lemma unat_sixteen_byte_align: "unat (sixteen_byte_align p) = unat p - unat p mod 16"
proof -
  have "p AND NOT (mask 4) = push_bit 4 (drop_bit 4 p)"
    by (rule bit_word_eqI) (auto simp: bit_simps)
  moreover have "push_bit 4 (drop_bit 4 p) + take_bit 4 p = p"
    by (rule bits_ident)
  ultimately have "p AND NOT (mask 4) = p - take_bit 4 p"
    by (metis add_diff_cancel_right')
  moreover have "unat (take_bit 4 p) = unat p mod 16"
    by (subst unsigned_take_bit_eq) (simp add: take_bit_eq_mod)
  moreover have "take_bit 4 p \<le> p"
    by (simp add: word_le_nat_alt unsigned_take_bit_eq)
  ultimately show ?thesis
    by (simp add: sixteen_byte_align_def unat_sub mask_eq_exp_minus_1)
qed

lemma sixteen_byte_align_mod [simp]: "unat (sixteen_byte_align p) mod 16 = 0"
  by (simp add: unat_sixteen_byte_align minus_mod_eq_mult_div)

lemma sixteen_byte_align_bounds:
  "unat (sixteen_byte_align p) \<le> unat p" "unat p < unat (sixteen_byte_align p) + 16"
  using mod_less_divisor [of 16 "unat p"] by (simp_all add: unat_sixteen_byte_align)

lemma unat_add_no_wrap: "unat a + unat b < 2 ^ 64 \<Longrightarrow> unat (a + b :: u64) = unat a + unat b"
  by (simp add: unat_word_ariths)

lemma unat_sub_le: "unat b \<le> unat a \<Longrightarrow> unat (a - b :: u64) = unat a - unat b"
  by (simp add: unat_sub word_le_nat_alt)

lemma reset_fields_fresh [simp]: "reset_fields (fresh_task p stk sb tot) = fresh_task p stk sb tot"
  by (simp add: reset_fields_def fresh_task_def)

lemma fresh_task_fields [simp]:
  "stack_top (fresh_task p stk sb tot) = stk" "stack_begin (fresh_task p stk sb tot) = sb"
  "total_stack_size (fresh_task p stk sb tot) = tot" "tls_ptr (fresh_task p stk sb tot) = p"
  "run_state (fresh_task p stk sb tot) = STOPPED" "vruntime (fresh_task p stk sb tot) = 0"
  "joiner (fresh_task p stk sb tot) = nullptr" "detached (fresh_task p stk sb tot) = False"
  "no_preempt_flag (fresh_task p stk sb tot) = False"
  by (simp_all add: fresh_task_def)

lemma task_ctor_tls:
  fixes stk_begin :: addr and w :: "'x world_scheme"
  assumes "alloc" and "has (tls w)"
  defines "tb \<equiv> stk_begin - postfix_bytes"
  shows "\<exists>tcb m. task_ctor e this stk stk_begin tot alloc w =
     Ret this (w\<lparr>tls := (tls w)\<lparr>bytes := m, tcbs := (tcbs (tls w))(after tb \<mapsto> tcb)\<rparr>,
       tasks := (tasks w)(this \<mapsto>
         fresh_task tb stk (sixteen_byte_align (tb - prefix_sum (images (tls w)))) tot),
       g_current_sched_node := (g_current_sched_node w)(after tb := Null_node)\<rparr>)
     \<and> thread tcb = this"
proof -
  obtain m tcb where ctor: "tls_ctor (modules e) tb (tls w)
      = Ret () ((tls w)\<lparr>bytes := m, tcbs := (tcbs (tls w))(after tb \<mapsto> tcb)\<rparr>)"
    using tls_ctor_cached [OF assms(2)] by blast
  show ?thesis
    using assms(1,2) ctor
    by (intro exI [of _ "tcb\<lparr>thread := this\<rparr>"] exI [of _ m])
      (simp add: task_ctor_def tb_def set_thread_def Let_def)
qed

text \<open>The mapping, the top of the stack and the object of a successful creation.\<close>

lemma task_create_alloc:
  assumes "st_addr (stack a) = nullptr"
    and "mapped_at (kernel e) (st_size (stack a) + guard_size a) base"
    and "guard_size a \<noteq> 0 \<longrightarrow> os_mprotect (kernel e) base (guard_size a) = 0"
  shows "task_create e a w =
     (let tot = st_size (stack a) + guard_size a; place = base + tot - sizeof_task e
      in task_ctor e place (base + tot) place tot (alloc_tls a)
           (w\<lparr>os_trace := os_trace w @ Mmap base tot
              # (if guard_size a \<noteq> 0 then [Mprotect base (guard_size a)] else [])\<rparr>))"
proof -
  have "allocate_stack (kernel e) True a =
     \<lparr>ret_code = 0, out_stack = Some (base + (st_size (stack a) + guard_size a)),
      out_total = Some (st_size (stack a) + guard_size a),
      os_calls = Mmap base (st_size (stack a) + guard_size a)
        # (if guard_size a \<noteq> 0 then [Mprotect base (guard_size a)] else [])\<rparr>"
    by (rule allocate_stack_new) (use assms in auto)
  then show ?thesis by (simp add: task_create_def Let_def)
qed

lemma task_create_placed:
  fixes w :: "'x world_scheme"
  assumes "st_addr (stack a) = nullptr"
    and "mapped_at (kernel e) (st_size (stack a) + guard_size a) base"
    and "guard_size a \<noteq> 0 \<longrightarrow> os_mprotect (kernel e) base (guard_size a) = 0"
    and "alloc_tls a \<longrightarrow> has (tls w)"
  defines "tot \<equiv> st_size (stack a) + guard_size a"
  defines "place \<equiv> base + tot - sizeof_task e"
  defines "used \<equiv> if alloc_tls a then postfix_bytes + prefix_sum (images (tls w)) else 0"
  shows "\<exists>p w'. task_create e a w = Ret place w'
     \<and> tasks w' = (tasks w)(place \<mapsto>
          fresh_task p (base + tot) (sixteen_byte_align (place - used)) tot)
     \<and> os_trace w' = os_trace w @ Mmap base tot
          # (if guard_size a \<noteq> 0 then [Mprotect base (guard_size a)] else [])
     \<and> p = (if alloc_tls a then place - postfix_bytes else nullptr)
     \<and> (if alloc_tls a then \<exists>tcb. tcbs (tls w') (after p) = Some tcb \<and> thread tcb = place else tls w' = tls w)"
proof (cases "alloc_tls a")
  case True
  let ?w = "w\<lparr>os_trace := os_trace w @ Mmap base tot
              # (if guard_size a \<noteq> 0 then [Mprotect base (guard_size a)] else [])\<rparr>"
  have "has (tls ?w)" using True assms(4) by simp
  from task_ctor_tls [OF True this, of e place "base + tot" place tot]
  show ?thesis
    using True task_create_alloc [OF assms(1-3), of w]
    by (auto simp: Let_def tot_def place_def used_def diff_diff_add add.assoc)
next
  case False
  then show ?thesis
    using task_create_alloc [OF assms(1-3), of w]
    by (simp add: Let_def tot_def place_def used_def task_ctor_def)
qed

text \<open>
  C31. A created task lies on its own stack: with enough room the object is at the top of
  the mapping and \<open>STOPPED\<close>; its thread local storage, when it has its own, ends where the object
  begins, holds a control block that names the task, and keeps the prefix free below it; and the
  stack pointer the task starts with is 16-byte aligned, above the guard and below all of these.
\<close>

theorem task_create_layout:
  assumes "st_addr (stack a) = nullptr"
    and "mapped_at (kernel e) (st_size (stack a) + guard_size a) base"
    and "guard_size a \<noteq> 0 \<longrightarrow> os_mprotect (kernel e) base (guard_size a) = 0"
    and "alloc_tls a \<longrightarrow> has (tls w)"
    and "unat (st_size (stack a)) + unat (guard_size a) < 2 ^ 64"
    and room: "task_overhead e a w \<le> unat (st_size (stack a))"
  shows "\<exists>place t w'. task_create e a w = Ret place w' \<and> tasks w' place = Some t
     \<and> run_state t = STOPPED
     \<and> unat place + unat (sizeof_task e) = unat (stack_top t)
     \<and> unat (stack_top t) = unat base + unat (guard_size a) + unat (st_size (stack a))
     \<and> unat (stack_begin t) mod 16 = 0
     \<and> unat base + unat (guard_size a) \<le> unat (stack_begin t)
     \<and> (if alloc_tls a
         then unat (tls_ptr t) + unat postfix_bytes = unat place
           \<and> unat (stack_begin t) + unat (prefix_sum (images (tls w))) \<le> unat (tls_ptr t)
           \<and> (\<exists>tcb. tcbs (tls w') (after (tls_ptr t)) = Some tcb \<and> thread tcb = place)
         else tls_ptr t = nullptr \<and> unat (stack_begin t) \<le> unat place)"
proof -
  let ?total = "st_size (stack a) + guard_size a"
  let ?extra = "if alloc_tls a then postfix_bytes + prefix_sum (images (tls w)) else 0"
  have total: "unat ?total = unat (st_size (stack a)) + unat (guard_size a)"
    using assms(5) by (rule unat_add_no_wrap)
  have top: "unat (base + ?total) = unat base + unat (st_size (stack a)) + unat (guard_size a)"
    using assms(2) total by (simp add: mapped_at_def unat_add_no_wrap)
  have extra: "unat ?extra =
      (if alloc_tls a then unat postfix_bytes + unat (prefix_sum (images (tls w))) else 0)"
    using room assms(5) by (auto simp: task_overhead_def intro!: unat_add_no_wrap)
  have place: "unat (base + ?total - sizeof_task e) = unat (base + ?total) - unat (sizeof_task e)"
    using room top by (intro unat_sub_le) (simp add: task_overhead_def)
  have begn: "unat (base + ?total - sizeof_task e - ?extra)
      = unat (base + ?total) - unat (sizeof_task e) - unat ?extra"
    using room top place extra by (subst unat_sub_le) (auto simp: task_overhead_def)
  let ?place = "base + ?total - sizeof_task e"
  obtain p w' where t: "task_create e a w = Ret ?place w'"
      "tasks w' = (tasks w)(?place \<mapsto> fresh_task p (base + ?total) (sixteen_byte_align (?place - ?extra)) ?total)"
      "p = (if alloc_tls a then ?place - postfix_bytes else nullptr)"
      "if alloc_tls a then \<exists>tcb. tcbs (tls w') (after p) = Some tcb \<and> thread tcb = ?place else tls w' = tls w"
    using task_create_placed [OF assms(1-4)] by blast
  let ?t = "fresh_task p (base + ?total) (sixteen_byte_align (?place - ?extra)) ?total"
  have sb: "unat base + unat (guard_size a) \<le> unat (sixteen_byte_align (?place - ?extra))"
    "unat (sixteen_byte_align (?place - ?extra)) + unat ?extra \<le> unat ?place"
    using room top place begn extra sixteen_byte_align_bounds [of "?place - ?extra"]
    by (auto simp: task_overhead_def split: if_splits)
  have tls: "unat p + unat postfix_bytes = unat ?place" if "alloc_tls a"
    using that room top place t(3) by (simp add: task_overhead_def unat_sub_le)
  have "tasks w' ?place = Some ?t" using t(2) by simp
  moreover have "unat ?place + unat (sizeof_task e) = unat (base + ?total)"
    using room top place by (simp add: task_overhead_def)
  moreover have "if alloc_tls a
      then unat p + unat postfix_bytes = unat ?place
        \<and> unat (sixteen_byte_align (?place - ?extra)) + unat (prefix_sum (images (tls w))) \<le> unat p
        \<and> (\<exists>tcb. tcbs (tls w') (after p) = Some tcb \<and> thread tcb = ?place)
      else p = nullptr \<and> unat (sixteen_byte_align (?place - ?extra)) \<le> unat ?place"
    using sb(2) extra tls t(3,4) by (cases "alloc_tls a") auto
  ultimately show ?thesis
    using t(1) top sb(1) by (intro exI [of _ ?place] exI [of _ ?t] exI [of _ w']) auto
qed

theorem task_create_layout_witness:
  "\<exists>place t w'. task_create (demo_env 0x700000000000) k_default_attr demo_world = Ret place w'
     \<and> tasks w' place = Some t \<and> run_state t = STOPPED
     \<and> unat (stack_begin t) mod 16 = 0 \<and> unat (stack_begin t) + 64 \<le> unat (tls_ptr t)
     \<and> unat (tls_ptr t) + 1697 = unat place"
proof -
  let ?e = "demo_env 0x700000000000" and ?a = k_default_attr
  have u: "unat (prefix_sum (images (tls demo_world))) = 64" "unat postfix_bytes = 1697"
    by (simp_all add: demo_world_def demo_tls_state_def demo_image_def postfix_bytes_def sizeof_tls_def sizeof_tcbhead_def)
  then have room: "task_overhead ?e ?a demo_world \<le> unat (st_size (stack ?a))"
    by (simp add: task_overhead_def demo_env_def k_default_attr_def)
  have mapped: "mapped_at (kernel ?e) (st_size (stack ?a) + guard_size ?a) 0x700000000000"
    by (simp add: mapped_at_def demo_env_def demo_os_def MAP_FAILED_def k_default_attr_def
        guard_size_def k_stack_min_def)
  have a: "st_addr (stack ?a) = nullptr" "guard_size ?a \<noteq> 0 \<longrightarrow> os_mprotect (kernel ?e) 0x700000000000 (guard_size ?a) = 0"
    "has (tls demo_world)" "unat (st_size (stack ?a)) + unat (guard_size ?a) < 2 ^ 64" "alloc_tls ?a"
    by (simp_all add: demo_world_def demo_tls_state_def demo_env_def demo_os_def k_default_attr_def guard_size_def k_stack_min_def)
  from task_create_layout [OF a(1) mapped a(2) _ a(4) room] a(3,5) u show ?thesis by auto
qed

lemma task_dtor_os_trace:
  assumes "task_dtor this w = Ret () w'"
  shows "os_trace w' = os_trace w \<and> tasks w' = tasks w"
  using assms
  by (auto simp: task_dtor_def deref_Ret_iff tls_dtor_def bind_outcome_Ret_iff
      split: if_splits option.splits outcome.splits)

text \<open>
  C32. Creating a task and destroying it gives its memory back: the region unmapped is
  exactly the region mapped, and the object is gone.
\<close>

theorem task_create_destroy:
  assumes "st_addr (stack a) = nullptr"
    and "mapped_at (kernel e) (st_size (stack a) + guard_size a) base"
    and "guard_size a \<noteq> 0 \<longrightarrow> os_mprotect (kernel e) base (guard_size a) = 0"
    and "alloc_tls a \<longrightarrow> has (tls w)"
    and "base + (st_size (stack a) + guard_size a) \<noteq> nullptr"
  shows "\<exists>place w' w''. task_create e a w = Ret place w' \<and> task_destroy e place w' = Ret () w''
     \<and> os_trace w'' = os_trace w'
         @ [Munmap base (st_size (stack a) + guard_size a)]
     \<and> Mmap base (st_size (stack a) + guard_size a) \<in> set (os_trace w')
     \<and> tasks w'' = (tasks w)(place := None)"
proof -
  let ?tot = "st_size (stack a) + guard_size a"
  let ?place = "base + ?tot - sizeof_task e"
  obtain p sb w' where c: "task_create e a w = Ret ?place w'"
      "tasks w' = (tasks w)(?place \<mapsto> fresh_task p (base + ?tot) sb ?tot)"
      "os_trace w' = os_trace w @ Mmap base ?tot
          # (if guard_size a \<noteq> 0 then [Mprotect base (guard_size a)] else [])"
      "p = (if alloc_tls a then ?place - postfix_bytes else nullptr)"
      "if alloc_tls a then \<exists>tcb. tcbs (tls w') (after p) = Some tcb \<and> thread tcb = ?place else tls w' = tls w"
    using task_create_placed [OF assms(1-4)] by blast
  have "\<exists>w1. task_dtor ?place w' = Ret () w1"
    using c(2,4,5) assms(5) by (auto simp: task_dtor_def tls_dtor_def split: option.splits)
  then obtain w1 where d: "task_dtor ?place w' = Ret () w1" ..
  from task_dtor_os_trace [OF d] have "os_trace w1 = os_trace w'" "tasks w1 = tasks w'" by auto
  then show ?thesis
    using c(1-3) d assms(5) by (simp add: task_destroy_def free_stack_def Let_def)
qed

theorem task_create_destroy_witness:
  "\<exists>place w' w''. task_create (demo_env 0x700000000000) k_light_attr demo_world = Ret place w'
     \<and> task_destroy (demo_env 0x700000000000) place w' = Ret () w''
     \<and> os_trace w'' = os_trace w' @ [Munmap 0x700000000000 0x402000]
     \<and> Mmap 0x700000000000 0x402000 \<in> set (os_trace w')
     \<and> tasks w'' = (tasks demo_world)(place := None)"
  using task_create_destroy [of k_light_attr "demo_env 0x700000000000" "0x700000000000" demo_world]
  by (simp add: mapped_at_def demo_env_def demo_os_def MAP_FAILED_def k_light_attr_def
      guard_size_def k_stack_min_def)

section \<open>Switching\<close>

lemma switch_to_internal_Ret:
  fixes thunk :: "('x world_scheme \<Rightarrow> 'x world_scheme) option"
  assumes "current_is prev w" and "this \<noteq> prev"
    and "tasks w prev = Some p" and "tasks w this = Some t"
    and "tls_ptr t \<noteq> nullptr \<longrightarrow> tcbs (tls w) (after (tls_ptr t)) \<noteq> None"
  defines "w2 \<equiv> w\<lparr>tasks := (tasks w)(prev \<mapsto> demoted p), tls := switched_tls this t (tls w)\<rparr>"
  defines "w3 \<equiv> (case thunk of None \<Rightarrow> w2 | Some f \<Rightarrow> f w2)"
  shows "switch_to_internal this thunk k w =
    Ret Switched (w3\<lparr>conts := (conts w3)(prev := In_switch_to prev # k)\<rparr>)"
  using assms(1-5)
  by (auto simp: switch_to_internal_def w2_def w3_def demoted_def switched_tls_def set_thread_def
      tls_use_def Let_def current_is_def split: option.splits)

lemma current_is_switched_tls: "current_is this (w\<lparr>tls := switched_tls this t st\<rparr>)"
  by (simp add: current_is_def switched_tls_def)

end
