(* ===== verification/Freelist.thy ===== *)
theory Freelist
  imports Task
begin

text \<open>
  The list of finished tasks kept for reuse (\<open>sched/internal/task_freelist.cc\<close>): a
  \<open>std::list\<close> of task pointers, bounded by \<open>_max_size\<close>. Each operation is one step: the
  \<open>std::mutex\<close> that is held for the list operations is not part of the state, and a task that is
  preempted while it holds that mutex is not represented. The lemmas show that the list stays within its bound, free of
  duplicates and ordered so that a task never stands behind a smaller one, that a returned
  task is found again by an attribute of its size, and that attributes with a guard never
  find the tasks that were created from them.
\<close>

section \<open>Definitions\<close>

record task_freelist =
  fl_list :: "addr list"
  fl_max_size :: nat

record fl_world = world +
  freelist :: task_freelist

definition stack_size :: "task \<Rightarrow> size_t" where
  "stack_size t = total_stack_size t"

text \<open>\<open>find_task\<close>: the first task of the size and kind asked for is erased and returned.\<close>

fun find_task ::
    "'x world_scheme \<Rightarrow> attr \<Rightarrow> addr list \<Rightarrow> (addr, addr list) outcome" where
  "find_task w a [] = Ret nullptr []"
| "find_task w a (i # l) =
     (case tasks w i of
        None \<Rightarrow> Crash Bad_pointer
      | Some x \<Rightarrow>
          if st_size (stack a) = stack_size x \<and> alloc_tls a = has_tls x then Ret i l
          else bind_outcome (find_task w a l) (\<lambda>t l'. Ret t (i # l')))"

text \<open>The condition under which \<open>insert_task\<close> puts \<open>t\<close> in front of an element \<open>i\<close>.\<close>

definition goes_before :: "task \<Rightarrow> task \<Rightarrow> bool" where
  "goes_before t i \<longleftrightarrow> stack_size t \<ge> stack_size i \<and> (has_tls t \<or> \<not> has_tls i)"

fun insert_task ::
    "'x world_scheme \<Rightarrow> task \<Rightarrow> addr \<Rightarrow> addr list \<Rightarrow> (unit, addr list) outcome" where
  "insert_task w x t [] = Ret () [t]"
| "insert_task w x t (i # l) =
     (case tasks w i of
        None \<Rightarrow> Crash Bad_pointer
      | Some y \<Rightarrow>
          if goes_before x y then Ret () (t # i # l)
          else bind_outcome (insert_task w x t l) (\<lambda>_ l'. Ret () (i # l')))"

definition set_fl_list :: "addr list \<Rightarrow> 'x fl_world_scheme \<Rightarrow> 'x fl_world_scheme" where
  "set_fl_list l w = w\<lparr>freelist := (freelist w)\<lparr>fl_list := l\<rparr>\<rparr>"

definition make_task :: "env \<Rightarrow> attr \<Rightarrow> 'x fl_world_scheme \<Rightarrow> (addr, 'x fl_world_scheme) outcome" where
  "make_task e a w =
     (case (if length (fl_list (freelist w)) > 0 then find_task w a (fl_list (freelist w))
            else Ret nullptr []) of
        Crash f \<Rightarrow> Crash f
      | Throw x l \<Rightarrow> Throw x (set_fl_list l w)
      | Ret t l \<Rightarrow>
          (let w1 = set_fl_list l w
           in if t \<noteq> nullptr
              then bind_outcome (task_reset e t w1) (\<lambda>_ w2. Ret t w2)
              else task_create e a w1))"

definition return_task :: "env \<Rightarrow> addr \<Rightarrow> 'x fl_world_scheme \<Rightarrow> (unit, 'x fl_world_scheme) outcome" where
  "return_task e t w =
     (if length (fl_list (freelist w)) < fl_max_size (freelist w) then
        deref t w (\<lambda>x.
          case insert_task w x t (fl_list (freelist w)) of
            Crash f \<Rightarrow> Crash f
          | Throw ex l \<Rightarrow> Throw ex (set_fl_list l w)
          | Ret _ l \<Rightarrow> Ret () (set_fl_list l w))
      else task_destroy e t w)"

text \<open>The task object behind a pointer of the list.\<close>

definition task_at :: "'x world_scheme \<Rightarrow> addr \<Rightarrow> task" where
  "task_at w t = the (tasks w t)"

text \<open>Insertion in front of the first element that \<open>x\<close> goes before, as a list function.\<close>

fun insert_before :: "('a \<Rightarrow> 'a \<Rightarrow> bool) \<Rightarrow> 'a \<Rightarrow> 'a list \<Rightarrow> 'a list" where
  "insert_before before x [] = [x]"
| "insert_before before x (y # ys) =
     (if before x y then x # y # ys else y # insert_before before x ys)"

text \<open>
  Well-formedness: valid and distinct pointers, none of them null, at most \<open>_max_size\<close> of
  them, and no task strictly before (larger, or with storage) behind another.
\<close>

definition fl_ok :: "'x fl_world_scheme \<Rightarrow> bool" where
  "fl_ok w \<longleftrightarrow>
     (let l = fl_list (freelist w)
      in length l \<le> fl_max_size (freelist w) \<and> distinct l \<and> set l \<subseteq> dom (tasks w) \<and> nullptr \<notin> set l \<and>
         sorted_wrt (\<lambda>i j. goes_before (task_at w j) (task_at w i)
                            \<longrightarrow> goes_before (task_at w i) (task_at w j)) l)"

text \<open>A world with a freelist, for the worked instances.\<close>

definition demo_fl_world :: "addr list \<Rightarrow> task \<Rightarrow> nat \<Rightarrow> fl_world" where
  "demo_fl_world l x n =
     \<lparr>tls = demo_tls_state [demo_image], g_current_sched_node = (\<lambda>_. Null_node),
      tasks = (\<lambda>t. if t \<in> set l then Some x else if t = 0x100 then Some task_default else None),
      conts = (\<lambda>_. []), os_trace = [], freelist = \<lparr>fl_list = l, fl_max_size = n\<rparr>\<rparr>"

section \<open>Order of the list\<close>

text \<open>What insertion relies on: \<open>before\<close> is a preorder.\<close>

locale insertion_order =
  fixes before :: "'a \<Rightarrow> 'a \<Rightarrow> bool"
  assumes before_refl: "before x x"
    and before_trans: "before x y \<Longrightarrow> before y z \<Longrightarrow> before x z"
begin

lemma insert_keeps_order:
  "sorted_wrt (\<lambda>i j. before j i \<longrightarrow> before i j) l
     \<Longrightarrow> sorted_wrt (\<lambda>i j. before j i \<longrightarrow> before i j) (insert_before before x l)"
proof (induction l)
  case (Cons y ys)
  have set: "set (insert_before before x ys) = insert x (set ys)"
    by (induction ys) auto
  show ?case
  proof (cases "before x y")
    case True
    with Cons.prems show ?thesis by (auto intro: before_trans)
  next
    case False
    with Cons set show ?thesis by auto
  qed
qed simp

end

interpretation fl: insertion_order goes_before
  by unfold_locales (auto simp: goes_before_def)

interpretation fl_at: insertion_order "\<lambda>i j. goes_before (task_at w i) (task_at w j)" for w
  by unfold_locales (auto intro: fl.before_refl fl.before_trans)

lemma set_insert_before [simp]: "set (insert_before before x l) = insert x (set l)"
  by (induction l) auto

lemma length_insert_before [simp]: "length (insert_before before x l) = Suc (length l)"
  by (induction l) auto

lemma distinct_insert_before [simp]:
  "distinct (insert_before before x l) \<longleftrightarrow> x \<notin> set l \<and> distinct l"
  by (induction l) auto

section \<open>Operations on a well-formed list\<close>

lemma insert_task_eq:
  "set l \<subseteq> dom (tasks w) \<Longrightarrow> tasks w t = Some x \<Longrightarrow>
     insert_task w x t l
       = Ret () (insert_before (\<lambda>i j. goes_before (task_at w i) (task_at w j)) t l)"
  by (induction l) (auto simp: task_at_def)

lemma find_task_Ret:
  "set l \<subseteq> dom (tasks w) \<Longrightarrow>
   \<exists>t l'. find_task w a l = Ret t l' \<and>
     (if \<exists>i \<in> set l. st_size (stack a) = stack_size (task_at w i) \<and> alloc_tls a = has_tls (task_at w i)
      then t \<in> set l \<and> l' = remove1 t l
           \<and> st_size (stack a) = stack_size (task_at w t) \<and> alloc_tls a = has_tls (task_at w t)
      else t = nullptr \<and> l' = l)"
proof (induction l)
  case (Cons i l)
  then obtain x where x: "tasks w i = Some x" by auto
  from Cons obtain t l' where "find_task w a l = Ret t l'" and
    "if \<exists>i \<in> set l. st_size (stack a) = stack_size (task_at w i) \<and> alloc_tls a = has_tls (task_at w i)
      then t \<in> set l \<and> l' = remove1 t l
           \<and> st_size (stack a) = stack_size (task_at w t) \<and> alloc_tls a = has_tls (task_at w t)
      else t = nullptr \<and> l' = l"
    by auto
  with x show ?case by (auto simp: task_at_def split: if_splits)
qed simp

lemma fl_ok_return:
  assumes "fl_ok w" and "tasks w t = Some x" and "t \<notin> set (fl_list (freelist w))" and "t \<noteq> nullptr"
    and "length (fl_list (freelist w)) < fl_max_size (freelist w)"
  defines "l \<equiv> insert_before (\<lambda>i j. goes_before (task_at w i) (task_at w j)) t (fl_list (freelist w))"
  shows "return_task e t w = Ret () (set_fl_list l w)" and "fl_ok (set_fl_list l w)"
proof -
  have dom: "set (fl_list (freelist w)) \<subseteq> dom (tasks w)"
    and ord: "sorted_wrt (\<lambda>i j. goes_before (task_at w j) (task_at w i)
        \<longrightarrow> goes_before (task_at w i) (task_at w j)) (fl_list (freelist w))"
    using assms(1) by (auto simp: fl_ok_def Let_def)
  show "return_task e t w = Ret () (set_fl_list l w)"
    using assms(2,5) insert_task_eq [OF dom assms(2)] by (simp add: return_task_def l_def)
  show "fl_ok (set_fl_list l w)"
    using assms fl_at.insert_keeps_order [OF ord, of t]
    by (auto simp: fl_ok_def set_fl_list_def Let_def task_at_def)
qed

lemma fl_list_set_fl_list [simp]:
  "fl_list (freelist (set_fl_list l w)) = l" "fl_max_size (freelist (set_fl_list l w)) = fl_max_size (freelist w)"
  "tasks (set_fl_list l w) = tasks w" "os_trace (set_fl_list l w) = os_trace w"
  "tls (set_fl_list l w) = tls w" "task_at (set_fl_list l w) = task_at w"
  by (simp_all add: set_fl_list_def task_at_def fun_eq_iff)

lemma set_fl_list_self [simp]: "fl_list (freelist w) = l \<Longrightarrow> set_fl_list l w = w"
  by (auto simp: set_fl_list_def)

lemma set_fl_list_twice [simp]: "set_fl_list l (set_fl_list l' w) = set_fl_list l w"
  by (simp add: set_fl_list_def)

lemma task_dtor_freelist:
  fixes w :: "'x fl_world_scheme"
  assumes "task_dtor t w = Ret () w'"
  shows "tasks w' = tasks w" and "freelist w' = freelist w"
  using assms
  by (auto simp: task_dtor_def deref_Ret_iff tls_dtor_def bind_outcome_Ret_iff
      split: if_splits option.splits outcome.splits)

lemma task_destroy_freelist:
  fixes w :: "'x fl_world_scheme"
  assumes "task_destroy e t w = Ret () w'"
  shows "tasks w' = (tasks w)(t := None)" and "freelist w' = freelist w"
  using assms
  by (auto simp: task_destroy_def deref_Ret_iff bind_outcome_Ret_iff Let_def
      dest: task_dtor_freelist split: if_splits)

text \<open>Removing an object that is not listed keeps a list well formed.\<close>

lemma fl_ok_cong:
  assumes "fl_ok w" and "freelist w' = freelist w"
    and "\<And>i. i \<in> set (fl_list (freelist w)) \<Longrightarrow> \<exists>y. tasks w' i = Some y \<and>
           stack_size y = stack_size (task_at w i) \<and> has_tls y = has_tls (task_at w i)"
  shows "fl_ok w'"
proof -
  let ?l = "fl_list (freelist w)"
  have same: "stack_size (task_at w' i) = stack_size (task_at w i)"
    "has_tls (task_at w' i) = has_tls (task_at w i)" "i \<in> dom (tasks w')" if "i \<in> set ?l" for i
    using assms(3) [OF that] by (auto simp: task_at_def)
  have "sorted_wrt (\<lambda>i j. goes_before (task_at w' j) (task_at w' i)
      \<longrightarrow> goes_before (task_at w' i) (task_at w' j)) ?l"
    by (rule sorted_wrt_mono_on [of "\<lambda>i j. goes_before (task_at w j) (task_at w i)
      \<longrightarrow> goes_before (task_at w i) (task_at w j)"])
      (use assms(1) same in \<open>auto simp: fl_ok_def Let_def goes_before_def\<close>)
  then show ?thesis
    using assms(1,2) same(3) by (auto simp: fl_ok_def Let_def)
qed

text \<open>
  C33. Returning a task keeps the freelist well formed, whichever way it goes: with room the
  task is listed, otherwise it is destroyed; the list never exceeds its bound, holds no
  task twice, and stays ordered.
\<close>

theorem return_task_keeps_fl_ok:
  assumes "fl_ok w" and "tasks w t = Some x" and "t \<notin> set (fl_list (freelist w))" and "t \<noteq> nullptr"
    and "return_task e t w = Ret () w'"
  shows "fl_ok w' \<and>
    (if length (fl_list (freelist w)) < fl_max_size (freelist w)
     then set (fl_list (freelist w')) = insert t (set (fl_list (freelist w))) \<and> tasks w' = tasks w
     else fl_list (freelist w') = fl_list (freelist w) \<and> tasks w' t = None)"
proof (cases "length (fl_list (freelist w)) < fl_max_size (freelist w)")
  case True
  with fl_ok_return(1) [OF assms(1-4) True, of e] fl_ok_return(2) [OF assms(1-4) True] assms(5)
  show ?thesis by auto
next
  case False
  then have d: "task_destroy e t w = Ret () w'"
    using assms(5) by (simp add: return_task_def)
  have "fl_ok w'"
    by (rule fl_ok_cong [OF assms(1) task_destroy_freelist(2) [OF d]])
      (use assms(1,3) task_destroy_freelist(1) [OF d] in \<open>auto simp: fl_ok_def Let_def task_at_def\<close>)
  with False task_destroy_freelist [OF d] show ?thesis by simp
qed

theorem return_task_keeps_fl_ok_witness:
  "\<exists>w'. return_task (demo_env 0x700000000000) 0x100 (demo_fl_world [0x200, 0x300] task_default 64) = Ret () w'
      \<and> fl_ok w' \<and> set (fl_list (freelist w')) = {0x100, 0x200, 0x300}"
proof -
  let ?w = "demo_fl_world [0x200, 0x300] task_default 64"
  have ok: "fl_ok ?w"
    by (simp add: fl_ok_def demo_fl_world_def task_at_def goes_before_def subset_iff dom_def)
  have x: "tasks ?w 0x100 = Some task_default" "0x100 \<notin> set (fl_list (freelist ?w))"
    by (simp_all add: demo_fl_world_def)
  obtain w' where r: "return_task (demo_env 0x700000000000) 0x100 ?w = Ret () w'"
    using fl_ok_return(1) [OF ok x] by (simp add: demo_fl_world_def)
  from return_task_keeps_fl_ok [OF ok x _ r] have "fl_ok w'"
      "set (fl_list (freelist w')) = insert 0x100 (set (fl_list (freelist ?w)))"
    by (simp_all add: demo_fl_world_def)
  with r show ?thesis by (intro exI [of _ w']) (simp add: demo_fl_world_def)
qed

text \<open>
  C34. A listed task that fits is reused: \<open>make_task\<close> takes it off the list and resets it,
  and maps no new memory; if none fits the list is left as it is and a task is created.
\<close>

theorem make_task_finds_fitting:
  assumes "fl_ok w"
  shows "if \<exists>i \<in> set (fl_list (freelist w)). st_size (stack a) = stack_size (task_at w i)
             \<and> alloc_tls a = has_tls (task_at w i)
         then \<exists>t \<in> set (fl_list (freelist w)). st_size (stack a) = stack_size (task_at w t)
             \<and> alloc_tls a = has_tls (task_at w t)
             \<and> make_task e a w = bind_outcome
                  (task_reset e t (set_fl_list (remove1 t (fl_list (freelist w))) w)) (\<lambda>_ w'. Ret t w')
         else make_task e a w = task_create e a w"
proof -
  have "set (fl_list (freelist w)) \<subseteq> dom (tasks w)" "nullptr \<notin> set (fl_list (freelist w))"
    using assms by (auto simp: fl_ok_def Let_def)
  with find_task_Ret [of "fl_list (freelist w)" w a] show ?thesis
    by (auto simp: make_task_def Let_def split: if_splits)
qed

theorem make_task_finds_fitting_witness:
  "\<exists>t \<in> {0x200, 0x300}. make_task (demo_env 0x700000000000)
      \<lparr>stack = \<lparr>st_addr = nullptr, st_size = 0, st_guardsize = 0\<rparr>, alloc_tls = False\<rparr>
      (demo_fl_world [0x200, 0x300] task_default 64) = bind_outcome
        (task_reset (demo_env 0x700000000000) t (set_fl_list (remove1 t [0x200, 0x300])
           (demo_fl_world [0x200, 0x300] task_default 64))) (\<lambda>_ w'. Ret t w')"
proof -
  let ?w = "demo_fl_world [0x200, 0x300] task_default 64"
  let ?a = "\<lparr>stack = \<lparr>st_addr = nullptr, st_size = 0, st_guardsize = 0\<rparr>, alloc_tls = False\<rparr>"
  have l: "fl_list (freelist ?w) = [0x200, 0x300]" by (simp add: demo_fl_world_def)
  have ok: "fl_ok ?w"
    by (simp add: fl_ok_def demo_fl_world_def task_at_def goes_before_def subset_iff dom_def)
  have fits: "\<exists>i \<in> set (fl_list (freelist ?w)). st_size (stack ?a) = stack_size (task_at ?w i)
      \<and> alloc_tls ?a = has_tls (task_at ?w i)"
    by (rule bexI [of _ "0x200"])
      (simp_all add: demo_fl_world_def task_at_def stack_size_def has_tls_def task_default_def)
  show ?thesis
    using make_task_finds_fitting [OF ok, of ?a "demo_env 0x700000000000"] fits
    unfolding if_P [OF fits] l list.set(2) [of _ "[_]"] by auto
qed

lemma task_create_size:
  assumes "task_create e a w = Ret t w'"
  shows "\<exists>x. tasks w' t = Some x \<and> stack_size x = st_size (stack a) + guard_size a"
  using assms
  by (auto simp: task_create_def allocate_stack_def task_ctor_def Let_def bind_outcome_Ret_iff
      stack_size_def split: if_splits option.splits outcome.splits)

lemma task_create_freelist:
  fixes w :: "'x fl_world_scheme"
  assumes "task_create e a w = Ret t w'"
  shows "freelist w' = freelist w"
  using assms
  by (auto simp: task_create_def allocate_stack_def task_ctor_def Let_def bind_outcome_Ret_iff
      split: if_splits option.splits outcome.splits)

text \<open>
  With a guard the freelist never gives a task back: \<open>find_task\<close> compares the requested
  stack size with the total size of a task, which includes the guard. A task created from
  an attribute (the defaults included) and returned to an empty freelist is not found by
  the same attribute, which creates another one.
\<close>

theorem freelist_never_reuses_guarded:
  assumes "task_create e a w = Ret t w1" and "t \<noteq> nullptr"
    and "fl_list (freelist w) = []" and "0 < fl_max_size (freelist w)"
    and "guard_size a \<noteq> 0"
    and "return_task e t w1 = Ret () w2"
  shows "fl_list (freelist w2) = [t] \<and> make_task e a w2 = task_create e a w2"
proof -
  from task_create_size [OF assms(1)] obtain x where
    x: "tasks w1 t = Some x" "stack_size x = st_size (stack a) + guard_size a" by blast
  have "freelist w1 = freelist w" by (rule task_create_freelist [OF assms(1)])
  then have "w2 = set_fl_list [t] w1"
    using assms(3,4,6) x(1) by (simp add: return_task_def)
  with x assms(2,5) show ?thesis
    by (simp add: make_task_def Let_def)
qed

theorem freelist_never_reuses_guarded_witness:
  "\<exists>t w1 w2. task_create (demo_env 0x700000000000) k_light_attr (demo_fl_world [] task_default 64) = Ret t w1
     \<and> return_task (demo_env 0x700000000000) t w1 = Ret () w2
     \<and> make_task (demo_env 0x700000000000) k_light_attr w2
         = task_create (demo_env 0x700000000000) k_light_attr w2"
proof -
  let ?e = "demo_env 0x700000000000" and ?w = "demo_fl_world [] task_default 64"
  have place: "0x700000000000 + (st_size (stack k_light_attr) + guard_size k_light_attr)
      - sizeof_task ?e = 0x700000401F60"
    by (simp add: demo_env_def k_light_attr_def guard_size_def k_stack_min_def)
  have m: "mapped_at (kernel ?e) (st_size (stack k_light_attr) + guard_size k_light_attr) 0x700000000000"
    by (simp add: mapped_at_def demo_env_def demo_os_def MAP_FAILED_def k_light_attr_def
        guard_size_def k_stack_min_def)
  obtain w1 where c: "task_create ?e k_light_attr ?w = Ret 0x700000401F60 w1"
    using task_create_placed [OF _ m _ _, of ?w] unfolding place
    by (auto simp: k_light_attr_def demo_env_def demo_os_def)
  have fl: "freelist w1 = \<lparr>fl_list = [], fl_max_size = 64\<rparr>"
    using task_create_freelist [OF c] by (simp add: demo_fl_world_def)
  obtain x where x: "tasks w1 0x700000401F60 = Some x"
    using task_create_size [OF c] by blast
  obtain w2 where r: "return_task ?e 0x700000401F60 w1 = Ret () w2"
    using fl x by (simp add: return_task_def)
  have "make_task ?e k_light_attr w2 = task_create ?e k_light_attr w2"
    using freelist_never_reuses_guarded [OF c _ _ _ _ r] by (simp add: demo_fl_world_def)
  with c r show ?thesis by blast
qed

end
