(* ===== verification/Rq.thy ===== *)
theory Rq
  imports Prelude "HOL-Library.Product_Lexorder"
begin

text \<open>
  The run queue (\<open>sched/internal/rq.h\<close>, \<open>rq_impl.h\<close>, \<open>rq.cc\<close>) and the queue of sleepers
  (\<open>sched/internal/time_ordered_queue.h\<close>, \<open>time_ordered_queue_impl.h\<close>). Tasks are
  pointers; their virtual runtimes are read through a function \<open>vr\<close> from pointers, the view
  of the heap that the comparator of the \<open>std::multiset\<close> has. Clock readings are arguments.
  The lemmas show that the run queue is a priority queue by virtual runtime and what the
  sleep queue does with ripe and unripe sleepers.
\<close>

section \<open>Definitions\<close>

subsection \<open>Time ordered queue\<close>

type_synonym time_ordered_queue = "(int \<times> addr) list"

definition toq_compare :: "int \<times> addr \<Rightarrow> int \<times> addr \<Rightarrow> bool" where
  "toq_compare x y \<longleftrightarrow> fst x < fst y"

definition toq_push :: "int \<Rightarrow> addr \<Rightarrow> time_ordered_queue \<Rightarrow> time_ordered_queue" where
  "toq_push ripe u q = ms_emplace toq_compare (ripe, u) q"

text \<open>
  \<open>pop(&ripe)\<close> with the clock reading \<open>now\<close>: the value (null when nothing is handed out) and
  the ripe time of the first entry. On an empty queue \<open>begin()\<close> is dereferenced at the end.
\<close>

definition toq_pop :: "int \<Rightarrow> time_ordered_queue \<Rightarrow> (addr \<times> int, time_ordered_queue) outcome" where
  "toq_pop now q =
     (case q of
        [] \<Rightarrow> Crash Bad_pointer
      | (start_first, start_second) # rest \<Rightarrow>
          if start_first \<ge> now then Ret (start_second, start_first) rest
          else Ret (nullptr, start_first) q)"

subsection \<open>Run queue\<close>

record rq =
  runqueue :: "addr list"
  sleepqueue :: time_ordered_queue
  min_vruntime :: int

definition empty_rq :: rq where
  "empty_rq = \<lparr>runqueue = [], sleepqueue = [], min_vruntime = 0\<rparr>"

definition time_ordered_compare :: "(addr \<Rightarrow> int) \<Rightarrow> addr \<Rightarrow> addr \<Rightarrow> bool" where
  "time_ordered_compare vr a b = (if vr a \<noteq> vr b then vr a < vr b else a < b)"

definition rq_push :: "(addr \<Rightarrow> int) \<Rightarrow> addr \<Rightarrow> rq \<Rightarrow> rq" where
  "rq_push vr t q = q\<lparr>runqueue := ms_emplace (time_ordered_compare vr) t (runqueue q)\<rparr>"

text \<open>
  The queue part of \<open>rq::sleep_push\<close>, for the running task \<open>cur\<close> (the argument \<open>t\<close> of the
  source is not used there); the state change of the task is with the scheduler node.
\<close>

definition rq_sleep_push :: "int \<Rightarrow> int \<Rightarrow> addr \<Rightarrow> rq \<Rightarrow> rq" where
  "rq_sleep_push now sleep_duration cur q =
     (let earliest_wake_time = now + sleep_duration
      in q\<lparr>sleepqueue := toq_push earliest_wake_time cur (sleepqueue q)\<rparr>)"

text \<open>
  The first part of \<open>rq::pop\<close>: one sleeper is moved over, or the thread idles, or there is
  nothing to do. \<open>now\<close> is the reading inside \<open>time_ordered_queue::pop\<close>, \<open>now'\<close> the one after
  the idle thunk, which sleeps until the wake time.
\<close>

definition rq_wake :: "(addr \<Rightarrow> int) \<Rightarrow> int \<Rightarrow> int \<Rightarrow> rq \<Rightarrow> (unit, rq) outcome" where
  "rq_wake vr now now' q =
     (if sleepqueue q \<noteq> [] then
        (case toq_pop now (sleepqueue q) of
           Crash f \<Rightarrow> Crash f
         | Throw e sq \<Rightarrow> Throw e (q\<lparr>sleepqueue := sq\<rparr>)
         | Ret (sleeper, next_runnable) sq \<Rightarrow>
             (let q1 = q\<lparr>sleepqueue := sq\<rparr>
              in if sleeper \<noteq> nullptr then Ret () (rq_push vr sleeper q1)
                 else if runqueue q1 = [] then
                   if now' \<ge> next_runnable then Ret () (rq_push vr sleeper q1)
                   else Crash Assert_failed
                 else Ret () q1))
      else if runqueue q = [] then Throw (Runtime_error ''nothing to do. deadlock?'') q
      else Ret () q)"

text \<open>The second part: the first of the run queue leaves it and may raise \<open>min_vruntime\<close>.\<close>

definition rq_take :: "(addr \<Rightarrow> int) \<Rightarrow> rq \<Rightarrow> (addr, rq) outcome" where
  "rq_take vr q =
     (case runqueue q of
        [] \<Rightarrow> Crash Bad_pointer
      | next_task # rest \<Rightarrow>
          if next_task = nullptr then Crash Bad_pointer
          else
            Ret next_task
              (q\<lparr>runqueue := rest,
                 min_vruntime := (if min_vruntime q < vr next_task then vr next_task
                                  else min_vruntime q)\<rparr>))"

definition rq_pop :: "(addr \<Rightarrow> int) \<Rightarrow> int \<Rightarrow> int \<Rightarrow> rq \<Rightarrow> (addr, rq) outcome" where
  "rq_pop vr now now' q = bind_outcome (rq_wake vr now now' q) (\<lambda>_ q1. rq_take vr q1)"

text \<open>Well-formedness: both containers are in iteration order and hold no null pointer.\<close>

definition rq_ok :: "(addr \<Rightarrow> int) \<Rightarrow> rq \<Rightarrow> bool" where
  "rq_ok vr q \<longleftrightarrow>
     ms_ordered (time_ordered_compare vr) (runqueue q) \<and> nullptr \<notin> set (runqueue q) \<and>
     ms_ordered toq_compare (sleepqueue q) \<and> nullptr \<notin> snd ` set (sleepqueue q)"

text \<open>
  For the statements: popping until nothing is left, from a queue without sleepers; and a history
  of the sleep queue, with the values its pops return.
\<close>

primrec drain :: "('q \<Rightarrow> ('a \<times> 'q) option) \<Rightarrow> nat \<Rightarrow> 'q \<Rightarrow> 'a list" where
  "drain pop 0 q = []"
| "drain pop (Suc n) q = (case pop q of None \<Rightarrow> [] | Some (x, q') \<Rightarrow> x # drain pop n q')"

definition rq_pop_runnable :: "(addr \<Rightarrow> int) \<Rightarrow> int \<Rightarrow> rq \<Rightarrow> (addr \<times> rq) option" where
  "rq_pop_runnable vr now q =
     (case rq_pop vr now now q of Ret t q' \<Rightarrow> Some (t, q') | _ \<Rightarrow> None)"

datatype toq_call = Toq_push int addr | Toq_pop int

fun toq_run :: "toq_call list \<Rightarrow> time_ordered_queue \<Rightarrow> (addr list, time_ordered_queue) outcome" where
  "toq_run [] q = Ret [] q"
| "toq_run (Toq_push ripe u # cs) q = toq_run cs (toq_push ripe u q)"
| "toq_run (Toq_pop now # cs) q =
     bind_outcome (toq_pop now q) (\<lambda>(v, _) q1.
     bind_outcome (toq_run cs q1) (\<lambda>vs q2. Ret (v # vs) q2))"

fun toq_pushed :: "toq_call list \<Rightarrow> (int \<times> addr) list" where
  "toq_pushed [] = []"
| "toq_pushed (Toq_push ripe u # cs) = (ripe, u) # toq_pushed cs"
| "toq_pushed (Toq_pop _ # cs) = toq_pushed cs"

text \<open>No wake time before \<open>t\<close> is pushed, and the clock shows at least \<open>t'\<close>.\<close>

fun not_before :: "int \<Rightarrow> int \<Rightarrow> toq_call \<Rightarrow> bool" where
  "not_before t t' (Toq_push ripe u) = (t \<le> ripe)"
| "not_before t t' (Toq_pop now) = (t' \<le> now)"

section \<open>The comparators\<close>

interpretation toc: strict_weak_order "time_ordered_compare vr" for vr
  by unfold_locales (auto simp: time_ordered_compare_def split: if_splits)

interpretation tqc: strict_weak_order toq_compare
  by unfold_locales (auto simp: toq_compare_def)

lemma not_compare_le: "\<not> time_ordered_compare vr y x \<Longrightarrow> (vr x, x) \<le> (vr y, y)"
  by (auto simp: time_ordered_compare_def split: if_splits)

text \<open>The order of the run queue depends only on the runtimes of the tasks in it.\<close>

lemma ms_ordered_vr_cong:
  "ms_ordered (time_ordered_compare vr) xs \<Longrightarrow> (\<And>t. t \<in> set xs \<Longrightarrow> vr' t = vr t)
     \<Longrightarrow> ms_ordered (time_ordered_compare vr') xs"
  by (erule sorted_wrt_mono_on) (auto simp: time_ordered_compare_def split: if_splits)

section \<open>Pushing and popping\<close>

lemma rq_push_fields [simp]:
  "set (runqueue (rq_push vr t q)) = insert t (set (runqueue q))"
  "sleepqueue (rq_push vr t q) = sleepqueue q" "min_vruntime (rq_push vr t q) = min_vruntime q"
  "distinct (runqueue (rq_push vr t q)) \<longleftrightarrow> t \<notin> set (runqueue q) \<and> distinct (runqueue q)"
  "runqueue (rq_push vr t q) \<noteq> []" "mset (runqueue (rq_push vr t q)) = add_mset t (mset (runqueue q))"
  "runqueue (rq_push vr t (q\<lparr>sleepqueue := sq\<rparr>)) = runqueue (rq_push vr t q)"
  by (simp_all add: rq_push_def)

lemma rq_ok_push: "rq_ok vr q \<Longrightarrow> t \<noteq> nullptr \<Longrightarrow> rq_ok vr (rq_push vr t q)"
  by (auto simp: rq_ok_def rq_push_def intro: toc.ordered_emplace)

lemma rq_ok_sleep_push: "rq_ok vr q \<Longrightarrow> cur \<noteq> nullptr \<Longrightarrow> rq_ok vr (rq_sleep_push now d cur q)"
  by (auto simp: rq_ok_def rq_sleep_push_def toq_push_def Let_def intro: tqc.ordered_emplace)

lemma rq_ok_vr_cong:
  "rq_ok vr q \<Longrightarrow> (\<And>t. t \<in> set (runqueue q) \<Longrightarrow> vr' t = vr t) \<Longrightarrow> rq_ok vr' q"
  by (auto simp: rq_ok_def intro: ms_ordered_vr_cong)

text \<open>What \<open>rq_wake\<close> can do to a well-formed queue.\<close>

lemma rq_wake_cases:
  assumes "rq_ok vr q"
  shows "rq_wake vr now now' q =
     (case sleepqueue q of
        [] \<Rightarrow> if runqueue q = [] then Throw (Runtime_error ''nothing to do. deadlock?'') q
              else Ret () q
      | (ripe, u) # sq \<Rightarrow>
          if ripe \<ge> now then Ret () (rq_push vr u (q\<lparr>sleepqueue := sq\<rparr>))
          else if runqueue q \<noteq> [] then Ret () q
          else if now' \<ge> ripe then Ret () (q\<lparr>runqueue := [nullptr]\<rparr>)
          else Crash Assert_failed)"
proof (cases "sleepqueue q")
  case Nil
  then show ?thesis by (simp add: rq_wake_def)
next
  case (Cons x sq)
  obtain ripe u where x: "x = (ripe, u)" by (cases x)
  with Cons assms have "u \<noteq> nullptr" by (auto simp: rq_ok_def)
  moreover have "q\<lparr>sleepqueue := (ripe, u) # sq\<rparr> = q" using Cons x by simp
  ultimately show ?thesis
    using Cons x by (simp add: rq_wake_def toq_pop_def rq_push_def)
qed

lemma rq_take_Ret:
  assumes "rq_ok vr q" and "rq_take vr q = Ret t q'"
  shows "runqueue q = t # runqueue q'" "sleepqueue q' = sleepqueue q" "t \<noteq> nullptr"
    "rq_ok vr q'" "min_vruntime q' = max (min_vruntime q) (vr t)"
    "\<And>u. u \<in> set (runqueue q) \<Longrightarrow> vr t \<le> vr u"
    "\<And>u. u \<in> set (runqueue q) \<Longrightarrow> (vr t, t) \<le> (vr u, u)"
proof -
  show q: "runqueue q = t # runqueue q'" and "sleepqueue q' = sleepqueue q" and "t \<noteq> nullptr"
    and "rq_ok vr q'" and "min_vruntime q' = max (min_vruntime q) (vr t)"
    using assms by (auto simp: rq_take_def rq_ok_def split: list.splits if_splits)
  show le: "(vr t, t) \<le> (vr u, u)" if "u \<in> set (runqueue q)" for u
    using toc.begin_minimal [of vr t "runqueue q'" u] that assms(1) q not_compare_le
    by (auto simp: rq_ok_def)
  show "vr t \<le> vr u" if "u \<in> set (runqueue q)" for u using le [OF that] by auto
qed

lemma rq_take_nonempty:
  "rq_ok vr q \<Longrightarrow> runqueue q \<noteq> [] \<Longrightarrow> \<exists>t q'. rq_take vr q = Ret t q'"
  by (cases "runqueue q") (auto simp: rq_take_def rq_ok_def)

text \<open>A successful \<open>pop\<close> of a well-formed queue: where the task came from and what is left.\<close>

lemma rq_pop_Ret:
  assumes ok: "rq_ok vr q" and pop: "rq_pop vr now now' q = Ret t q'"
  shows "t \<noteq> nullptr" "rq_ok vr q'" "min_vruntime q' = max (min_vruntime q) (vr t)"
    "\<And>u. u \<in> set (runqueue q) \<Longrightarrow> vr t \<le> vr u"
    "mset (runqueue q') + mset (map snd (sleepqueue q')) + {#t#}
       = mset (runqueue q) + mset (map snd (sleepqueue q))"
    "(sleepqueue q' = sleepqueue q \<and> runqueue q = t # runqueue q') \<or>
     (\<exists>ripe u. sleepqueue q = (ripe, u) # sleepqueue q' \<and> ripe \<ge> now
        \<and> runqueue (rq_push vr u q) = t # runqueue q')"
proof -
  from pop obtain q1 where w: "rq_wake vr now now' q = Ret () q1" and tk: "rq_take vr q1 = Ret t q'"
    by (auto simp: rq_pop_def bind_outcome_Ret_iff)
  have "rq_ok vr q1 \<and> min_vruntime q1 = min_vruntime q \<and>
     (runqueue q1 = runqueue q \<and> sleepqueue q1 = sleepqueue q \<or> (\<exists>ripe u. sleepqueue q = (ripe, u) # sleepqueue q1 \<and> ripe \<ge> now
        \<and> runqueue q1 = runqueue (rq_push vr u q)))"
  proof (cases "sleepqueue q")
    case Nil
    with w ok show ?thesis by (auto simp: rq_wake_cases split: if_splits)
  next
    case (Cons x sq)
    obtain ripe u where x: "x = (ripe, u)" by (cases x)
    have "rq_take vr (q\<lparr>runqueue := [nullptr]\<rparr>) = Crash Bad_pointer" by (simp add: rq_take_def)
    moreover have "rq_ok vr (q\<lparr>sleepqueue := sq\<rparr>)" "u \<noteq> nullptr"
      using ok Cons x by (auto simp: rq_ok_def)
    ultimately show ?thesis
      using w tk ok Cons x
      by (auto simp: rq_wake_cases rq_ok_push split: if_splits)
  qed
  then have ok1: "rq_ok vr q1" and mv: "min_vruntime q1 = min_vruntime q"
    and src: "runqueue q1 = runqueue q \<and> sleepqueue q1 = sleepqueue q \<or> (\<exists>ripe u. sleepqueue q = (ripe, u) # sleepqueue q1 \<and> ripe \<ge> now
        \<and> runqueue q1 = runqueue (rq_push vr u q))" by auto
  note t = rq_take_Ret [OF ok1 tk]
  show "t \<noteq> nullptr" "rq_ok vr q'" "min_vruntime q' = max (min_vruntime q) (vr t)"
    using t mv by auto
  from src show "\<And>u. u \<in> set (runqueue q) \<Longrightarrow> vr t \<le> vr u"
  proof
    assume "\<exists>ripe u. sleepqueue q = (ripe, u) # sleepqueue q1 \<and> ripe \<ge> now
        \<and> runqueue q1 = runqueue (rq_push vr u q)"
    then have "set (runqueue q) \<subseteq> set (runqueue q1)"
      by auto
    then show "\<And>u. u \<in> set (runqueue q) \<Longrightarrow> vr t \<le> vr u" using t(6) by blast
  qed (use t(6) in simp)
  from src have "mset (runqueue q1) + mset (map snd (sleepqueue q1))
      = mset (runqueue q) + mset (map snd (sleepqueue q))"
    by auto
  with t(1,2) show "mset (runqueue q') + mset (map snd (sleepqueue q')) + {#t#}
       = mset (runqueue q) + mset (map snd (sleepqueue q))" by simp
  from src t(1,2) show "(sleepqueue q' = sleepqueue q \<and> runqueue q = t # runqueue q') \<or>
     (\<exists>ripe u. sleepqueue q = (ripe, u) # sleepqueue q' \<and> ripe \<ge> now
        \<and> runqueue (rq_push vr u q) = t # runqueue q')"
    by auto
qed

lemma rq_pop_nonempty:
  assumes "rq_ok vr q" and "runqueue q \<noteq> []"
  shows "\<exists>t q'. rq_pop vr now now' q = Ret t q'"
proof (cases "sleepqueue q")
  case Nil
  with assms rq_take_nonempty [OF assms] show ?thesis
    by (auto simp: rq_pop_def rq_wake_cases)
next
  case (Cons x sq)
  obtain ripe u where x: "x = (ripe, u)" by (cases x)
  then have "rq_ok vr (rq_push vr u (q\<lparr>sleepqueue := sq\<rparr>))"
    using assms(1) Cons by (intro rq_ok_push) (auto simp: rq_ok_def)
  with assms Cons x rq_take_nonempty [OF this] rq_take_nonempty [OF assms] show ?thesis
    by (auto simp: rq_pop_def rq_wake_cases)
qed

section \<open>The priority queue contract\<close>

text \<open>
  What the scheduler node relies on: a bag of tasks from which a minimum is taken. The
  consequence proved from the contract is the scheduling order: popping until the bag is
  empty yields every element once, in order.
\<close>

locale priority_queue =
  fixes push :: "'a \<Rightarrow> 'q \<Rightarrow> 'q"
    and pop :: "'q \<Rightarrow> ('a \<times> 'q) option"
    and elems :: "'q \<Rightarrow> 'a multiset"
    and invar :: "'q \<Rightarrow> bool"
    and key :: "'a \<Rightarrow> 'k :: linorder"
    and valid :: "'a \<Rightarrow> bool"
  assumes invar_push: "invar q \<Longrightarrow> valid x \<Longrightarrow> invar (push x q)"
    and elems_push: "invar q \<Longrightarrow> elems (push x q) = add_mset x (elems q)"
    and pop_empty: "invar q \<Longrightarrow> pop q = None \<longleftrightarrow> elems q = {#}"
    and pop_invar: "invar q \<Longrightarrow> pop q = Some (x, q') \<Longrightarrow> invar q'"
    and pop_elems: "invar q \<Longrightarrow> pop q = Some (x, q') \<Longrightarrow> elems q = add_mset x (elems q')"
    and pop_min: "invar q \<Longrightarrow> pop q = Some (x, q') \<Longrightarrow> y \<in># elems q \<Longrightarrow> key x \<le> key y"
begin

lemma drain_subset: "invar q \<Longrightarrow> set (drain pop n q) \<subseteq> set_mset (elems q)"
proof (induction n arbitrary: q)
  case (Suc n)
  show ?case
  proof (cases "pop q")
    case (Some r)
    obtain x q' where r: "r = (x, q')" by (cases r)
    with Some Suc show ?thesis
      using pop_elems [OF Suc.prems] pop_invar [OF Suc.prems] by fastforce
  qed simp
qed simp

lemma drain_sorted: "invar q \<Longrightarrow> sorted (map key (drain pop n q))"
proof (induction n arbitrary: q)
  case (Suc n)
  show ?case
  proof (cases "pop q")
    case (Some r)
    obtain x q' where r: "r = (x, q')" by (cases r)
    have inv: "invar q'" using Some r Suc.prems pop_invar by blast
    have "\<forall>y \<in> set (drain pop n q'). key x \<le> key y"
      using drain_subset [OF inv, of n] pop_elems [OF Suc.prems] pop_min [OF Suc.prems] Some r
      by fastforce
    with Some r Suc.IH [OF inv] show ?thesis by simp
  qed simp
qed simp

lemma drain_mset: "invar q \<Longrightarrow> size (elems q) \<le> n \<Longrightarrow> mset (drain pop n q) = elems q"
proof (induction n arbitrary: q)
  case (Suc n)
  show ?case
  proof (cases "pop q")
    case None
    then show ?thesis using pop_empty [OF Suc.prems(1)] by simp
  next
    case (Some r)
    obtain x q' where r: "r = (x, q')" by (cases r)
    with Some have "elems q = add_mset x (elems q')" "invar q'"
      using pop_elems [OF Suc.prems(1)] pop_invar [OF Suc.prems(1)] by auto
    with Some r Suc show ?thesis by simp
  qed
qed simp

end

lemma rq_pop_no_sleepers:
  assumes "rq_ok vr q" and "sleepqueue q = []"
  shows "rq_pop vr now now' q =
     (if runqueue q = [] then Throw (Runtime_error ''nothing to do. deadlock?'') q else rq_take vr q)"
  using assms by (simp add: rq_pop_def rq_wake_cases)

lemma rq_pop_runnable_Some:
  assumes "rq_ok vr q" and "sleepqueue q = []" and "rq_pop_runnable vr now q = Some (x, q')"
  shows "rq_take vr q = Ret x q'"
  using assms
  by (auto simp: rq_pop_runnable_def rq_pop_no_sleepers split: outcome.splits if_splits)

interpretation rqp: priority_queue
  "rq_push vr" "rq_pop_runnable vr now" "\<lambda>q. mset (runqueue q)"
  "\<lambda>q. rq_ok vr q \<and> sleepqueue q = []" "\<lambda>t. (vr t, t)" "\<lambda>t. t \<noteq> nullptr" for vr now
proof (unfold_locales, goal_cases)
  case (3 q)
  then show ?case
    using rq_take_nonempty [of vr q]
    by (cases "runqueue q = []") (auto simp: rq_pop_runnable_def rq_pop_no_sleepers)
next
  case (4 q x q')
  then have "rq_take vr q = Ret x q'" by (auto intro: rq_pop_runnable_Some)
  with 4 rq_take_Ret(2,4) [of vr q x q'] show ?case by simp
next
  case (5 q x q')
  then have "rq_take vr q = Ret x q'" by (auto intro: rq_pop_runnable_Some)
  with 5 rq_take_Ret(1) [of vr q x q'] show ?case by simp
next
  case (6 q x q' y)
  then have "rq_take vr q = Ret x q'" by (auto intro: rq_pop_runnable_Some)
  with 6 rq_take_Ret(7) [of vr q x q' y] show ?case by simp
qed (auto simp: rq_ok_push)

section \<open>Properties\<close>

text \<open>
  C26. The run queue schedules fairly: a push followed by a pop hands out a task whose virtual
  runtime is least among the pushed task and all queued ones, loses and invents no task, and
  never lowers \<open>min_vruntime\<close>, which ends up at least at the runtime of the task handed out.
\<close>

theorem rq_push_pop_fair:
  assumes "rq_ok vr q" and "t \<noteq> nullptr"
  shows "\<exists>u q'. rq_pop vr now now' (rq_push vr t q) = Ret u q' \<and> rq_ok vr q'
     \<and> vr u \<le> vr t \<and> (\<forall>x. x \<in> set (runqueue q) \<longrightarrow> vr u \<le> vr x)
     \<and> mset (runqueue q') + mset (map snd (sleepqueue q')) + {#u#}
         = mset (runqueue q) + mset (map snd (sleepqueue q)) + {#t#}
     \<and> min_vruntime q \<le> min_vruntime q' \<and> vr u \<le> min_vruntime q'"
proof -
  have ok: "rq_ok vr (rq_push vr t q)" by (rule rq_ok_push [OF assms])
  then obtain u q' where p: "rq_pop vr now now' (rq_push vr t q) = Ret u q'"
    using rq_pop_nonempty by (metis rq_push_fields(5))
  note r = rq_pop_Ret [OF ok p]
  show ?thesis
    using p r(2-5) by (intro exI [of _ u] exI [of _ q']) auto
qed

theorem rq_push_pop_fair_witness:
  "\<exists>u q'. rq_pop (\<lambda>t. if t = 0x10 then 7 else 3) 0 0
       (rq_push (\<lambda>t. if t = 0x10 then 7 else 3) 0x10
         \<lparr>runqueue = [0x20], sleepqueue = [], min_vruntime = 0\<rparr>) = Ret u q'
     \<and> (if u = 0x10 then 7 else 3 :: int) \<le> 3"
proof -
  have "rq_ok (\<lambda>t. if t = 0x10 then 7 else 3) \<lparr>runqueue = [0x20], sleepqueue = [], min_vruntime = 0\<rparr>"
    by (simp add: rq_ok_def)
  from rq_push_pop_fair [OF this, of "0x10" 0 0] show ?thesis by fastforce
qed

lemma rq_ok_empty: "rq_ok vr empty_rq"
  by (simp add: rq_ok_def empty_rq_def)

lemma rq_push_all:
  assumes "rq_ok vr q" "sleepqueue q = []" "nullptr \<notin> set ts"
  shows "rq_ok vr (fold (rq_push vr) ts q) \<and> sleepqueue (fold (rq_push vr) ts q) = []
    \<and> mset (runqueue (fold (rq_push vr) ts q)) = mset ts + mset (runqueue q)"
  using assms by (induction ts arbitrary: q) (auto simp: rq_ok_push)

text \<open>
  C27. The run queue sorts: when tasks are pushed in any order and popped until the queue is empty,
  they come out as \<open>sort_key\<close> orders them, by virtual runtime and, where that is equal, by the
  address of the task, whatever the order of the pushes was.
\<close>

theorem rq_drains_in_order:
  assumes "nullptr \<notin> set ts"
  shows "drain (rq_pop_runnable vr now) (length ts) (fold (rq_push vr) ts empty_rq) = sort_key (\<lambda>t. (vr t, t)) ts"
proof -
  let ?q = "fold (rq_push vr) ts empty_rq"
  have q: "rq_ok vr ?q" "sleepqueue ?q = []" "mset (runqueue ?q) = mset ts"
    using rq_push_all [OF rq_ok_empty _ assms, of vr] by (simp_all add: empty_rq_def)
  have "size (mset (runqueue ?q)) = length ts" using q(3) by simp
  then have "mset ts = mset (drain (rq_pop_runnable vr now) (length ts) ?q)"
    using rqp.drain_mset [of vr ?q "length ts" now] q by simp
  moreover have "sorted (map (\<lambda>t. (vr t, t)) (drain (rq_pop_runnable vr now) (length ts) ?q))"
    using rqp.drain_sorted [of vr ?q now] q by simp
  ultimately show ?thesis
    by (intro sort_key_inj_key_eq [symmetric]) (simp_all add: inj_on_def)
qed

theorem rq_drains_in_order_witness:
  "drain (rq_pop_runnable (\<lambda>t. if t = 0x20 then 1 else 5) 0) 3
     (fold (rq_push (\<lambda>t. if t = 0x20 then 1 else 5)) [0x30, 0x10, 0x20] empty_rq) = [0x20, 0x10, 0x30]"
  using rq_drains_in_order [of "[0x30, 0x10, 0x20]" "\<lambda>t. if t = 0x20 then 1 else 5" 0] by (simp add: numeral_3_eq_3 del: drain.simps)

lemma toq_push_later: "ripe \<le> ripe' \<Longrightarrow> \<exists>r. toq_push ripe' u' ((ripe, u) # rest) = (ripe, u) # r \<and> mset r = add_mset (ripe', u') (mset rest)"
  by (simp add: toq_push_def toq_compare_def)

text \<open>
  C40. A sleeper that is missed blocks the sleep queue for good. The first sleeper is handed out, and
  leaves the queue, only as long as its wake time has not passed; once the clock is beyond it, no
  later \<open>pop\<close> returns anything, however many sleepers with later wake times are pushed meanwhile,
  and every one of them stays queued.
\<close>

theorem toq_missed_sleeper_blocks:
  assumes "u \<noteq> nullptr" and "ripe < now" and "\<forall>c \<in> set cs. not_before ripe now c"
  shows "(\<forall>t. t \<le> ripe \<longrightarrow> toq_pop t ((ripe, u) # rest) = Ret (u, ripe) rest) \<and>
    (\<exists>vs r. toq_run cs ((ripe, u) # rest) = Ret vs ((ripe, u) # r) \<and> set vs \<subseteq> {nullptr}
       \<and> mset r = mset rest + mset (toq_pushed cs))"
proof
  show "\<forall>t. t \<le> ripe \<longrightarrow> toq_pop t ((ripe, u) # rest) = Ret (u, ripe) rest" by (simp add: toq_pop_def)
  show "\<exists>vs r. toq_run cs ((ripe, u) # rest) = Ret vs ((ripe, u) # r) \<and> set vs \<subseteq> {nullptr}
       \<and> mset r = mset rest + mset (toq_pushed cs)"
    using assms(3)
  proof (induction cs arbitrary: rest)
    case (Cons c cs)
    show ?case
    proof (cases c)
      case (Toq_push ripe' u')
      then obtain r where "toq_push ripe' u' ((ripe, u) # rest) = (ripe, u) # r" "mset r = add_mset (ripe', u') (mset rest)"
        using toq_push_later [of ripe ripe' u' u rest] Cons.prems by auto
      then show ?thesis using Cons.IH [of r] Cons.prems Toq_push by auto
    next
      case (Toq_pop t)
      then have "toq_pop t ((ripe, u) # rest) = Ret (nullptr, ripe) ((ripe, u) # rest)"
        using Cons.prems assms(2) by (simp add: toq_pop_def)
      then show ?thesis using Cons.IH [of rest] Cons.prems Toq_pop by auto
    qed
  qed simp
qed

theorem toq_missed_sleeper_blocks_witness:
  "\<exists>vs r. toq_run [Toq_pop 100, Toq_push 130 0x20, Toq_pop 120] [(50, 0x10)] = Ret vs ((50, 0x10) # r)
     \<and> set vs \<subseteq> {nullptr} \<and> mset r = {#(130, 0x20)#}"
  using toq_missed_sleeper_blocks [of "0x10" 50 100 "[Toq_pop 100, Toq_push 130 0x20, Toq_pop 120]" "[]"] by simp

text \<open>
  Idling never works: when the run queue is empty and the first sleeper's wake time has
  passed, \<open>pop\<close> puts a null pointer on the run queue and dereferences it (or fails its own
  assertion), whatever the clock shows after the wait.
\<close>

theorem rq_pop_idle_crashes:
  assumes "runqueue q = []" and "sleepqueue q = (ripe, u) # rest" and "ripe < now"
  shows "rq_pop vr now now' q = Crash (if ripe \<le> now' then Bad_pointer else Assert_failed)"
  using assms by (simp add: rq_pop_def rq_wake_def toq_pop_def rq_take_def rq_push_def)

theorem rq_pop_idle_crashes_witness:
  "rq_pop (\<lambda>_. 0) 100 100 \<lparr>runqueue = [], sleepqueue = [(50, 0x10)], min_vruntime = 0\<rparr>
     = Crash Bad_pointer"
  using rq_pop_idle_crashes
      [of "\<lparr>runqueue = [], sleepqueue = [(50, 0x10)], min_vruntime = 0\<rparr>" 50 "0x10" "[]" 100]
  by simp

end
