(* ===== verification/Time_Platform.thy ===== *)
theory Time_Platform
  imports Prelude
begin

text \<open>
  Clocks, timers and the alarm (\<open>platform/clock.cc\<close>, \<open>platform/timer.h\<close>,
  \<open>platform/alarm.cc\<close>, \<open>platform/alarm_impl.h\<close>). Durations are integers in the unit of
  their C++ type; a conversion to a coarser unit truncates towards zero. The kernel's
  answers (\<open>clock_gettime\<close>, \<open>clock_getres\<close>, \<open>setitimer\<close>) are arguments.
\<close>

section \<open>Definitions\<close>

subsection \<open>Clock\<close>

record timespec =
  ts_sec :: int
  ts_nsec :: int

text \<open>\<open>posix_time_from_type\<close>: nanoseconds as an unsigned 64-bit value.\<close>

definition posix_time_from_type :: "timespec \<Rightarrow> u64" where
  "posix_time_from_type t = of_int (ts_sec t * 1000 * 1000 * 1000 + ts_nsec t)"

text \<open>\<open>thread_clock::now\<close>: the representation of \<open>std::chrono::nanoseconds\<close> is signed.\<close>

definition thread_clock_now :: "timespec \<Rightarrow> int" where
  "thread_clock_now t = sint (posix_time_from_type t)"

text \<open>The resolution, from the answer of \<open>clock_getres\<close>.\<close>

definition posix_time_resolution_from_type :: "timespec \<Rightarrow> u64" where
  "posix_time_resolution_from_type t = of_int (ts_sec t * 1000 * 1000 * 1000 + ts_nsec t)"

definition thread_clock_resolution :: "timespec \<Rightarrow> int" where
  "thread_clock_resolution t = sint (posix_time_resolution_from_type t)"

text \<open>\<open>duration_cast<microseconds>\<close> of a duration in nanoseconds.\<close>

definition ns_to_us :: "int \<Rightarrow> int" where
  "ns_to_us d = (if d \<ge> 0 then d div 1000 else - ((- d) div 1000))"

subsection \<open>Timer\<close>

text \<open>The callback of an RAII timer is present or has been moved away.\<close>

record timer =
  start_time :: int
  end_function :: bool

definition timer_ctor :: "int \<Rightarrow> bool \<Rightarrow> timer" where
  "timer_ctor now f = \<lparr>start_time = now, end_function = f\<rparr>"

text \<open>The move constructor: the new timer and what is left of the old one.\<close>

definition timer_move :: "timer \<Rightarrow> timer \<times> timer" where
  "timer_move t =
     (\<lparr>start_time = start_time t, end_function = end_function t\<rparr>, t\<lparr>end_function := False\<rparr>)"

text \<open>The destructor: the duration passed to the callback, if there is one.\<close>

definition timer_dtor :: "int \<Rightarrow> timer \<Rightarrow> int option" where
  "timer_dtor now t = (if end_function t then Some (now - start_time t) else None)"

subsection \<open>Alarm\<close>

text \<open>
  The static members, whether the handler is installed, what \<open>setitimer\<close> was told last, and
  the signals that are blocked.
\<close>

record alarm =
  trap :: bool
  signal_set :: bool
  interval :: int
  itimer :: "(int \<times> int) option"
  blocked_signals :: "nat set"

definition initial_alarm :: alarm where
  "initial_alarm = \<lparr>trap = False, signal_set = False, interval = 0, itimer = None, blocked_signals = {}\<rparr>"

text \<open>Truncating division and remainder of C++.\<close>

definition trunc_div :: "int \<Rightarrow> int \<Rightarrow> int" where
  "trunc_div a b = sgn a * (\<bar>a\<bar> div b)"

definition trunc_mod :: "int \<Rightarrow> int \<Rightarrow> int" where
  "trunc_mod a b = a - trunc_div a b * b"

text \<open>\<open>rc\<close> is the result of \<open>setitimer\<close>; \<open>it_value\<close> and \<open>it_interval\<close> are set alike.\<close>

definition set_interval_internal :: "int \<Rightarrow> int \<Rightarrow> alarm \<Rightarrow> (unit, alarm) outcome" where
  "set_interval_internal rc usec al =
     (let itval = (trunc_div usec 1000000, trunc_mod usec 1000000)
      in if rc \<noteq> 0 then Throw (System_error ''error setting itimer'') al
         else Ret () (al\<lparr>itimer := Some itval\<rparr>))"

definition set_interval :: "int \<Rightarrow> int \<Rightarrow> alarm \<Rightarrow> (unit, alarm) outcome" where
  "set_interval rc usec al =
     bind_outcome (set_interval_internal rc usec al) (\<lambda>_ al'. Ret () (al'\<lparr>interval := usec\<rparr>))"

definition clear_interval :: "int \<Rightarrow> alarm \<Rightarrow> (unit, alarm) outcome" where
  "clear_interval rc al = set_interval rc 0 al"

definition set_trap :: "alarm \<Rightarrow> alarm" where
  "set_trap al =
     (let set_trap_now = \<not> trap al;
          al1 = al\<lparr>trap := True\<rparr>
      in if set_trap_now then al1\<lparr>signal_set := True\<rparr> else al1)"

definition SIGPROF :: nat where
  "SIGPROF = 27"

text \<open>
  The handler. The variable \<open>sigset\<close> is not initialised before \<open>sigaddset\<close>: \<open>garbage\<close> is what it
  holds. The first result says whether the trap is called.
\<close>

definition alarm_handler :: "nat set \<Rightarrow> alarm \<Rightarrow> bool \<times> alarm" where
  "alarm_handler garbage al =
     (let sigset = insert SIGPROF garbage;
          al1 = al\<lparr>blocked_signals := blocked_signals al - sigset\<rparr>
      in (trap al1, al1))"

text \<open>What the kernel does with the signal: nothing while it is blocked, else it is blocked
  for the handler.\<close>

definition deliver :: "nat set \<Rightarrow> alarm \<Rightarrow> bool \<times> alarm" where
  "deliver garbage al =
     (if signal_set al \<and> SIGPROF \<notin> blocked_signals al
      then alarm_handler garbage (al\<lparr>blocked_signals := insert SIGPROF (blocked_signals al)\<rparr>)
      else (False, al))"

section \<open>Lemmas\<close>

lemma ns_to_us_nonneg [simp]: "0 \<le> d \<Longrightarrow> 0 \<le> ns_to_us d"
  by (simp add: ns_to_us_def pos_imp_zdiv_nonneg_iff)

text \<open>
  An interval is passed to the kernel exactly: seconds and microseconds recombine to it
  and the microseconds stay below a second; when the kernel refuses, the recorded interval
  and the timer are unchanged.
\<close>

theorem set_interval_exact:
  assumes "0 \<le> usec"
  shows "if rc = 0
    then \<exists>al' s u. set_interval rc usec al = Ret () al' \<and> interval al' = usec
           \<and> itimer al' = Some (s, u) \<and> s * 1000000 + u = usec \<and> 0 \<le> u \<and> u < 1000000
    else \<exists>ex. set_interval rc usec al = Throw ex al"
  using assms
  by (cases "usec = 0")
    (simp_all add: set_interval_def set_interval_internal_def trunc_div_def trunc_mod_def Let_def
      minus_div_mult_eq_mod)

theorem set_interval_exact_witness:
  "\<exists>al' s u. set_interval 0 50000 initial_alarm = Ret () al' \<and> interval al' = 50000
     \<and> itimer al' = Some (s, u) \<and> s * 1000000 + u = 50000"
  using set_interval_exact [of 50000 0 initial_alarm] by auto

text \<open>
  A timer reports once: of a moved-to timer and the one it was moved from, only the
  first runs the callback, with the time since the original construction.
\<close>

theorem timer_move_reports_once:
  "let (t', t) = timer_move (timer_ctor t0 f)
   in timer_dtor now t = None \<and> timer_dtor now t' = (if f then Some (now - t0) else None)"
  by (simp add: timer_move_def timer_ctor_def timer_dtor_def)

text \<open>
  A reading of the clock is exact for 292 years: no wrap-around in the product or in the
  conversion to a signed count, and later readings are larger.
\<close>

lemma sint_of_int_small: "0 \<le> x \<Longrightarrow> x < 2 ^ 63 \<Longrightarrow> sint (of_int x :: u64) = x"
  by (simp add: sint_sbintrunc' signed_take_bit_int_eq_self)

theorem thread_clock_exact:
  assumes "0 \<le> ts_sec t" "ts_sec t < 9223372036" "0 \<le> ts_nsec t" "ts_nsec t < 1000000000"
  shows "thread_clock_now t = ts_sec t * 1000000000 + ts_nsec t
    \<and> thread_clock_resolution t = ts_sec t * 1000000000 + ts_nsec t"
proof -
  have "0 \<le> ts_sec t * 1000000000 + ts_nsec t" "ts_sec t * 1000000000 + ts_nsec t < 2 ^ 63"
    using assms by auto
  then show ?thesis
    using sint_of_int_small [of "ts_sec t * 1000000000 + ts_nsec t"]
    by (simp add: thread_clock_now_def thread_clock_resolution_def posix_time_from_type_def
        posix_time_resolution_from_type_def mult.assoc)
qed

theorem thread_clock_exact_witness:
  "thread_clock_now \<lparr>ts_sec = 3, ts_nsec = 5\<rparr> = 3000000005"
  using thread_clock_exact [of "\<lparr>ts_sec = 3, ts_nsec = 5\<rparr>"] by simp

text \<open>
  The alarm keeps ringing although the handler may switch away and not return: whatever the
  set of signals held before, the handler unblocks the signal before it calls the trap, so the
  next alarm is delivered as well. It unblocks whatever else the set held.
\<close>

theorem alarm_rings_again:
  assumes "signal_set al" "trap al" "SIGPROF \<notin> blocked_signals al"
  shows "\<exists>al'. deliver garbage al = (True, al') \<and> signal_set al' \<and> trap al' \<and> SIGPROF \<notin> blocked_signals al'
    \<and> blocked_signals al' = blocked_signals al - garbage \<and> fst (deliver garbage' al')"
  using assms by (auto simp: deliver_def alarm_handler_def Let_def)

theorem alarm_rings_again_witness:
  "\<exists>al'. deliver {2} (set_trap initial_alarm) = (True, al') \<and> fst (deliver {} al')"
  using alarm_rings_again [of "set_trap initial_alarm" "{2}" "{}"]
  by (auto simp: set_trap_def initial_alarm_def)

end
