(* ===== verification/Sched_Node.thy ===== *)
theory Sched_Node
  imports Freelist Rq Time_Platform
begin

text \<open>
  The scheduler node (\<open>sched/sched_node.h\<close>, \<open>sched/sched_node.cc\<close>) and preemption
  (\<open>sched/preempt.h\<close>, \<open>sched/preempt.cc\<close>). The program has one node, hosted by its only
  kernel thread; its state extends the world of the tasks and the freelist. An operation
  that may switch tasks takes the activations \<open>k\<close> of its callers and answers \<open>Switched\<close>
  when the caller is left suspended; what the suspended activations do when they are
  resumed is in \<open>resume_frame\<close>. Clock readings are arguments (\<open>clk\<close>).

  The lemmas describe what each operation does to the tasks, the queues and the locks when
  it returns.
\<close>

section \<open>Definitions\<close>

record sched_node =
  spin_flag :: bool
  running :: bool
  deferred :: addr
  node_rq :: rq
  last_tick :: int
  host_task :: addr

text \<open>
  The whole program state: \<open>inited\<close> tells whether the function-local \<open>sched_context\<close> is
  constructed, \<open>end_handler_set\<close> whether \<open>task::_end_handler\<close> is set, \<open>g_alarm_armed\<close> and
  \<open>galarm\<close> are the preemption timer.
\<close>

record gstate = fl_world +
  node :: sched_node
  inited :: bool
  end_handler_set :: bool
  g_alarm_armed :: bool
  galarm :: alarm

text \<open>
  The clock readings and the kernel's answers of one call into the scheduler:
  \<open>vruntime_clock::now()\<close> before and after the pop, the sleep queue's clock in \<open>sleep_push\<close>,
  inside the pop and after idling, and what the first use of the library reads from the
  clock and from \<open>setitimer\<close>.
\<close>

record clk =
  tick0 :: int
  tick1 :: int
  wall_push :: int
  wall0 :: int
  wall1 :: int
  boot_tick :: int
  boot_rc :: int

subsection \<open>The spin lock of the node\<close>

definition set_node :: "(sched_node \<Rightarrow> sched_node) \<Rightarrow> gstate \<Rightarrow> gstate" where
  "set_node f w = w\<lparr>node := f (node w)\<rparr>"

definition set_rq :: "rq \<Rightarrow> gstate \<Rightarrow> gstate" where
  "set_rq q = set_node (\<lambda>n. n\<lparr>node_rq := q\<rparr>)"

definition spin_try_lock :: "gstate \<Rightarrow> (bool, gstate) outcome" where
  "spin_try_lock w =
     (if spin_flag (node w) then Ret False w else Ret True (set_node (\<lambda>n. n\<lparr>spin_flag := True\<rparr>) w))"

text \<open>Nobody else runs while the only kernel thread spins.\<close>

definition spin_lock :: "gstate \<Rightarrow> (unit, gstate) outcome" where
  "spin_lock w =
     bind_outcome (spin_try_lock w) (\<lambda>b w1. if b then Ret () w1 else Crash Spin_forever)"

definition spin_unlock :: "gstate \<Rightarrow> (unit, gstate) outcome" where
  "spin_unlock w = Ret () (set_node (\<lambda>n. n\<lparr>spin_flag := False\<rparr>) w)"

text \<open>
  A lock guard around code that may switch away: the destructor has not run yet when the
  caller is left suspended.
\<close>

fun guarded :: "(gstate \<Rightarrow> (unit, gstate) outcome) \<Rightarrow> (control, gstate) outcome \<Rightarrow> (control, gstate) outcome" where
  "guarded unlock (Ret Switched w) = Ret Switched w"
| "guarded unlock (Ret Returned w) = bind_outcome (unlock w) (\<lambda>_ w1. Ret Returned w1)"
| "guarded unlock (Throw x w) = bind_outcome (unlock w) (\<lambda>_ w1. Throw x w1)"
| "guarded unlock (Crash f) = Crash f"

subsection \<open>The node\<close>

text \<open>The runtimes that the comparator of the run queue reads.\<close>

definition vr_of :: "'x world_scheme \<Rightarrow> addr \<Rightarrow> int" where
  "vr_of w t = (case tasks w t of None \<Rightarrow> 0 | Some x \<Rightarrow> vruntime x)"

definition lift_rq :: "(rq \<Rightarrow> ('a, rq) outcome) \<Rightarrow> gstate \<Rightarrow> ('a, gstate) outcome" where
  "lift_rq f w =
     (case f (node_rq (node w)) of
        Ret a q \<Rightarrow> Ret a (set_rq q w)
      | Throw x q \<Rightarrow> Throw x (set_rq q w)
      | Crash c \<Rightarrow> Crash c)"

text \<open>\<open>g_current_sched_node\<close> is thread local: its cell belongs to the storage in use.\<close>

definition current_node :: "gstate \<Rightarrow> node_ptr" where
  "current_node w = g_current_sched_node w (fs (tls w))"

definition set_current_node :: "gstate \<Rightarrow> gstate" where
  "set_current_node w =
     w\<lparr>g_current_sched_node := (g_current_sched_node w)(fs (tls w) := Root_node)\<rparr>"

definition node_start_async :: "int \<Rightarrow> gstate \<Rightarrow> (unit, gstate) outcome" where
  "node_start_async now w =
     (let w1 = set_node (\<lambda>n. n\<lparr>last_tick := now\<rparr>) (set_current_node w)
      in bind_outcome (wrap_current (host_task (node w1)) w1) (\<lambda>_ w2.
           if running (node w2) then Throw (Runtime_error ''sched_node was already running'') w2
           else Ret () (set_node (\<lambda>n. n\<lparr>running := True\<rparr>) w2)))"

definition get_next_task :: "clk \<Rightarrow> addr \<Rightarrow> gstate \<Rightarrow> (addr, gstate) outcome" where
  "get_next_task c cur w =
     bind_outcome
       (upd_task cur (\<lambda>t. t\<lparr>vruntime := vruntime t + ns_to_us (tick0 c - last_tick (node w))\<rparr>) w)
       (\<lambda>_ w1. deref cur w1 (\<lambda>t.
          let w2 = (if run_state t = RUNNING
                    then set_rq (rq_push (vr_of w1) cur (node_rq (node w1))) w1
                    else if run_state t = STOPPED \<and> detached t
                    then set_node (\<lambda>n. n\<lparr>deferred := cur\<rparr>) w1
                    else w1)
          in bind_outcome (lift_rq (rq_pop (vr_of w2) (wall0 c) (wall1 c)) w2) (\<lambda>next_task w3.
               Ret next_task (set_node (\<lambda>n. n\<lparr>last_tick := tick1 c\<rparr>) w3))))"

text \<open>Handing back the detached task that stopped on its own stack.\<close>

definition return_deferred :: "env \<Rightarrow> gstate \<Rightarrow> (unit, gstate) outcome" where
  "return_deferred e w =
     (if deferred (node w) \<noteq> nullptr
      then bind_outcome (return_task e (deferred (node w)) w) (\<lambda>_ w1.
             Ret () (set_node (\<lambda>n. n\<lparr>deferred := nullptr\<rparr>) w1))
      else Ret () w)"

text \<open>
  \<open>sched_node::yield\<close>. The inner \<open>unlock_guard\<close> drops the lock for the switch; taking it
  again and leaving the outer guard is \<open>In_node_yield\<close>.
\<close>

definition node_yield :: "env \<Rightarrow> clk \<Rightarrow> frame list \<Rightarrow> gstate \<Rightarrow> (control, gstate) outcome" where
  "node_yield e c k w =
     (if \<not> running (node w) then Ret Returned w
      else bind_outcome (spin_lock w) (\<lambda>_ w1. guarded spin_unlock
        (bind_outcome (return_deferred e w1) (\<lambda>_ w2.
         bind_outcome (task_current w2) (\<lambda>cur w3.
         bind_outcome (get_next_task c cur w3) (\<lambda>next_task w4.
           if next_task \<noteq> cur
           then bind_outcome (spin_unlock w4) (\<lambda>_ w5.
                  switch_to_internal next_task (Some set_current_node) (In_node_yield # k) w5)
           else Ret Returned w4))))))"

text \<open>The host task waits, so control comes back only when it is scheduled again.\<close>

definition node_start :: "env \<Rightarrow> clk \<Rightarrow> frame list \<Rightarrow> gstate \<Rightarrow> (control, gstate) outcome" where
  "node_start e c k w =
     bind_outcome (node_start_async (boot_tick c) w) (\<lambda>_ w1.
     bind_outcome (upd_task (host_task (node w1)) (\<lambda>t. t\<lparr>run_state := WAITING\<rparr>) w1) (\<lambda>_ w2.
     bind_outcome (node_yield e c (In_node_start # k) w2) (\<lambda>r w3.
       case r of
         Switched \<Rightarrow> Ret Switched w3
       | Returned \<Rightarrow>
           if running (node w3)
           then Throw (Runtime_error ''control resumed in host task before sched_node stopped and sched_node was started synchronously. there is either a bug in the scheduler or there was nothing initially scheduled when start() was called (user error)'') w3
           else Ret Returned w3)))"

text \<open>\<open>rq::sleep_push\<close> with its state change, under the spin lock; then \<open>yield\<close>.\<close>

definition node_yield_for :: "env \<Rightarrow> clk \<Rightarrow> int \<Rightarrow> frame list \<Rightarrow> gstate \<Rightarrow> (control, gstate) outcome" where
  "node_yield_for e c duration k w =
     bind_outcome (task_current w) (\<lambda>current w0.
     bind_outcome
       (bind_outcome (spin_lock w0) (\<lambda>_ w1. with_dtor spin_unlock
          (bind_outcome (upd_task current (\<lambda>t. t\<lparr>run_state := WAITING\<rparr>) w1) (\<lambda>_ w2.
           bind_outcome (task_current w2) (\<lambda>cur w3.
           bind_outcome (upd_task cur (\<lambda>t. t\<lparr>run_state := WAITING\<rparr>) w3) (\<lambda>_ w4.
             Ret () (set_rq (rq_sleep_push (wall_push c) duration cur (node_rq (node w4))) w4)))))))
       (\<lambda>_ w5. node_yield e c k w5))"

definition node_schedule :: "addr \<Rightarrow> gstate \<Rightarrow> (unit, gstate) outcome" where
  "node_schedule t w =
     bind_outcome (spin_lock w) (\<lambda>_ w1. with_dtor spin_unlock
       (bind_outcome
          (upd_task t (\<lambda>x. if vruntime x = 0 then x\<lparr>vruntime := min_vruntime (node_rq (node w1))\<rparr>
                           else x) w1)
          (\<lambda>_ w2. Ret () (set_rq (rq_push (vr_of w2) t (node_rq (node w2))) w2))))"

definition node_switch_to :: "int \<Rightarrow> addr \<Rightarrow> frame list \<Rightarrow> gstate \<Rightarrow> (control, gstate) outcome" where
  "node_switch_to now t k w =
     bind_outcome
       (bind_outcome (spin_lock w) (\<lambda>_ w1. with_dtor spin_unlock
          (bind_outcome (task_current w1) (\<lambda>cur w2.
           bind_outcome
             (upd_task cur (\<lambda>x. x\<lparr>vruntime := vruntime x + ns_to_us (now - last_tick (node w2))\<rparr>) w2)
             (\<lambda>_ w3. Ret () (set_node (\<lambda>n. n\<lparr>last_tick := now\<rparr>) w3))))))
       (\<lambda>_ w4. switch_to_internal t (Some set_current_node) k w4)"

subsection \<open>Preemption\<close>

definition preempt_interval :: int where
  "preempt_interval = 50000"

definition preempt_lock :: "gstate \<Rightarrow> (unit, gstate) outcome" where
  "preempt_lock w =
     bind_outcome (task_current w) (\<lambda>cur w1. deref cur w1 (\<lambda>t.
       if no_preempt_flag t then Crash Assert_failed
       else upd_task cur (\<lambda>t. t\<lparr>no_preempt_flag := True\<rparr>) w1))"

definition preempt_unlock :: "gstate \<Rightarrow> (unit, gstate) outcome" where
  "preempt_unlock w =
     bind_outcome (task_current w) (\<lambda>cur w1. deref cur w1 (\<lambda>t.
       if no_preempt_flag t then upd_task cur (\<lambda>t. t\<lparr>no_preempt_flag := False\<rparr>) w1
       else Crash Assert_failed))"

definition preempt_held :: "gstate \<Rightarrow> (bool, gstate) outcome" where
  "preempt_held w =
     bind_outcome (task_current w) (\<lambda>cur w1. deref cur w1 (\<lambda>t. Ret (no_preempt_flag t) w1))"

definition preempt_node :: "gstate \<Rightarrow> (unit, gstate) outcome" where
  "preempt_node w = (if current_node w = Null_node then Crash Assert_failed else Ret () w)"

text \<open>
  The function the alarm runs at every tick of the timer. In the theories below it runs between two
  calls of user code.
\<close>

definition preempt_trap :: "env \<Rightarrow> clk \<Rightarrow> frame list \<Rightarrow> gstate \<Rightarrow> (control, gstate) outcome" where
  "preempt_trap e c k w =
     (if current_node w = Null_node then Ret Returned w
      else bind_outcome (preempt_held w) (\<lambda>held w1.
        if held then Ret Returned w1
        else bind_outcome (preempt_lock w1) (\<lambda>_ w2. guarded preempt_unlock
               (bind_outcome (preempt_node w2) (\<lambda>_ w3. node_yield e c (In_trap # k) w3)))))"

definition lift_alarm :: "(alarm \<Rightarrow> (unit, alarm) outcome) \<Rightarrow> gstate \<Rightarrow> (unit, gstate) outcome" where
  "lift_alarm f w =
     (case f (galarm w) of
        Ret u al \<Rightarrow> Ret u (w\<lparr>galarm := al\<rparr>)
      | Throw x al \<Rightarrow> Throw x (w\<lparr>galarm := al\<rparr>)
      | Crash c \<Rightarrow> Crash c)"

definition enable_timer_preemption :: "int \<Rightarrow> gstate \<Rightarrow> (unit, gstate) outcome" where
  "enable_timer_preemption rc w =
     (let w1 = (if \<not> g_alarm_armed w
                then w\<lparr>galarm := set_trap (galarm w), g_alarm_armed := True\<rparr> else w)
      in lift_alarm (set_interval rc preempt_interval) w1)"

definition disable_timer_preemption :: "int \<Rightarrow> gstate \<Rightarrow> (unit, gstate) outcome" where
  "disable_timer_preemption rc w = lift_alarm (clear_interval rc) w"

end
