(* ===== verification/Sched.thy ===== *)
theory Sched
  imports Sched_Node
begin

text \<open>
  The scheduler interface (\<open>sched/sched.h\<close>, \<open>sched/sched.cc\<close>, \<open>sched/sched_impl.h\<close>) and the
  resumption of suspended tasks. A call of the running task is \<open>exec\<close>: it runs the
  operation and, where that switches to another task, the activations of the task switched
  to, until user code runs again. The result is the one the resumed user code sees. The calls
  that park and wake tasks for \<open>concur/\<close> are among them.
\<close>

section \<open>Definitions\<close>

text \<open>
  What user code gets from a call: \<open>join\<close> and \<open>detach\<close> write the handle they are given,
  \<open>join\<close> also \<open>*return_value\<close> when that pointer is not null.
\<close>

datatype result =
    No_result
  | New_handle addr
  | Handle_written addr "addr option"

text \<open>
  \<open>sched_context::get()\<close>: on first use the freelist, the root node and its host task are
  constructed, the node is started, preemption enabled and the end handler set. When the
  constructor throws, the objects are gone again.
\<close>

definition fresh_node :: "addr \<Rightarrow> sched_node" where
  "fresh_node host =
     \<lparr>spin_flag = False, running = False, deferred = nullptr, node_rq = empty_rq,
      last_tick = 0, host_task = host\<rparr>"

definition sched_context_get :: "clk \<Rightarrow> gstate \<Rightarrow> (unit, gstate) outcome" where
  "sched_context_get c w =
     (if inited w then Ret () w
      else
        (let host = host_task (node w);
             w0 = w\<lparr>tasks := (tasks w)(host \<mapsto> task_default),
                    freelist := \<lparr>fl_list = [], fl_max_size = 64\<rparr>, node := fresh_node host\<rparr>
         in case bind_outcome (node_start_async (boot_tick c) w0) (\<lambda>_ w1.
                   bind_outcome (enable_timer_preemption (boot_rc c) w1) (\<lambda>_ w2.
                     Ret () (w2\<lparr>inited := True, end_handler_set := True\<rparr>))) of
              Ret u w3 \<Rightarrow> Ret u w3
            | Throw x w3 \<Rightarrow> Throw x (w3\<lparr>tasks := (tasks w3)(host := None)\<rparr>)
            | Crash f \<Rightarrow> Crash f))"

definition sched_yield :: "env \<Rightarrow> clk \<Rightarrow> frame list \<Rightarrow> gstate \<Rightarrow> (control, gstate) outcome" where
  "sched_yield e c k w =
     (if current_node w = Null_node then Ret Returned w
      else bind_outcome (preempt_lock w) (\<lambda>_ w1. guarded preempt_unlock
             (bind_outcome (preempt_node w1) (\<lambda>_ w2. node_yield e c (In_sched_yield # k) w2))))"

definition sched_spawn :: "env \<Rightarrow> clk \<Rightarrow> attr \<Rightarrow> addr \<Rightarrow> addr \<Rightarrow> gstate \<Rightarrow> (addr, gstate) outcome" where
  "sched_spawn e c a ent ar w =
     (if ent = nullptr then Throw (Domain_error ''must supply entry function'') w
      else
        bind_outcome (sched_context_get c w) (\<lambda>_ w1.
        bind_outcome (make_task e a w1) (\<lambda>t w2.
        bind_outcome (upd_task t (\<lambda>x. x\<lparr>entry := ent, arg := ar\<rparr>) w2) (\<lambda>_ w3.
        bind_outcome (task_start t w3) (\<lambda>_ w4.
        bind_outcome (preempt_lock w4) (\<lambda>_ w5. with_dtor preempt_unlock
          (bind_outcome (preempt_node w5) (\<lambda>_ w6.
           bind_outcome (node_schedule t w6) (\<lambda>_ w7. Ret t w7)))))))))"

text \<open>The part of \<open>join\<close> after the wait, for the task \<open>t\<close> of the handle.\<close>

definition join_finish :: "env \<Rightarrow> clk \<Rightarrow> addr \<Rightarrow> bool \<Rightarrow> gstate \<Rightarrow> (result, gstate) outcome" where
  "join_finish e c t want w =
     deref t w (\<lambda>x.
       if run_state x \<noteq> STOPPED then Crash Assert_failed
       else
         (let v = (if want then Some (return_value x) else None)
          in bind_outcome (sched_context_get c w) (\<lambda>_ w1.
             bind_outcome (return_task e t w1) (\<lambda>_ w2. Ret (Handle_written nullptr v) w2))))"

text \<open>
  The part of \<open>join\<close> under the \<open>unique_lock\<close>: whether the caller has to wait. Either way the
  lock is released, by hand before \<open>yield\<close> or at the end of the block.
\<close>

definition join_begin :: "addr \<Rightarrow> gstate \<Rightarrow> (bool, gstate) outcome" where
  "join_begin t w =
     bind_outcome (task_current w) (\<lambda>current w0.
     bind_outcome (preempt_lock w0) (\<lambda>_ w1. with_dtor preempt_unlock
       (deref t w1 (\<lambda>x.
          if joiner x \<noteq> nullptr
          then Throw (Logic_error ''a thread can only be joined from one place'') w1
          else if run_state x \<noteq> STOPPED
          then bind_outcome (upd_task t (\<lambda>x. x\<lparr>joiner := current\<rparr>) w1) (\<lambda>_ w2.
               bind_outcome (upd_task current (\<lambda>x. x\<lparr>run_state := WAITING\<rparr>) w2) (\<lambda>_ w3.
                 Ret True w3))
          else Ret False w1))))"

text \<open>\<open>h\<close> is the handle behind the pointer argument, \<open>None\<close> when that is null.\<close>

definition sched_join ::
    "env \<Rightarrow> clk \<Rightarrow> addr option \<Rightarrow> bool \<Rightarrow> frame list \<Rightarrow> gstate \<Rightarrow> (control \<times> result, gstate) outcome" where
  "sched_join e c h want k w =
     (if h = None \<or> h = Some nullptr
      then Throw (Domain_error ''|handle| must be specified and must be a valid thread'') w
      else
        (let t = the h
         in bind_outcome (join_begin t w) (\<lambda>wait w1.
            bind_outcome (if wait then sched_yield e c (In_join t want # k) w1 else Ret Returned w1)
              (\<lambda>r w2. case r of
                 Switched \<Rightarrow> Ret (Switched, No_result) w2
               | Returned \<Rightarrow> bind_outcome (join_finish e c t want w2) (\<lambda>v w3. Ret (Returned, v) w3)))))"

definition sched_detach :: "env \<Rightarrow> clk \<Rightarrow> addr option \<Rightarrow> gstate \<Rightarrow> (result, gstate) outcome" where
  "sched_detach e c h w =
     (if h = None \<or> h = Some nullptr
      then Throw (Domain_error ''|handle| must be specified and must be a valid thread'') w
      else
        (let t = the h
         in bind_outcome
              (bind_outcome (preempt_lock w) (\<lambda>_ w1. with_dtor preempt_unlock
                 (deref t w1 (\<lambda>x.
                    if run_state x \<noteq> STOPPED
                    then bind_outcome (upd_task t (\<lambda>x. x\<lparr>detached := True\<rparr>) w1) (\<lambda>_ w2. Ret True w2)
                    else Ret False w1))))
              (\<lambda>done w2.
                 if done then Ret (Handle_written nullptr None) w2
                 else deref t w2 (\<lambda>x.
                   if run_state x \<noteq> STOPPED then Crash Assert_failed
                   else bind_outcome (sched_context_get c w2) (\<lambda>_ w3.
                        bind_outcome (return_task e t w3) (\<lambda>_ w4.
                          Ret (Handle_written nullptr None) w4))))))"

definition sched_exit :: "env \<Rightarrow> clk \<Rightarrow> addr \<Rightarrow> frame list \<Rightarrow> gstate \<Rightarrow> (control, gstate) outcome" where
  "sched_exit e c v k w =
     bind_outcome (task_current w) (\<lambda>current w0. deref current w0 (\<lambda>x0.
       if entry x0 = nullptr then Throw (Runtime_error ''cannot exit from the root task!'') w0
       else bind_outcome (preempt_lock w0) (\<lambda>_ w1. guarded preempt_unlock
         (bind_outcome
            (upd_task current (\<lambda>x. x\<lparr>return_value := v, run_state := STOPPED\<rparr>) w1) (\<lambda>_ w2.
          deref current w2 (\<lambda>x.
          bind_outcome
            (if joiner x \<noteq> nullptr
             then bind_outcome (preempt_node w2) (\<lambda>_ w3. node_schedule (joiner x) w3)
             else Ret () w2) (\<lambda>_ w4.
          bind_outcome (preempt_node w4) (\<lambda>_ w5. node_yield e c (In_exit # k) w5))))))))"

definition sched_sleep_for :: "env \<Rightarrow> clk \<Rightarrow> int \<Rightarrow> frame list \<Rightarrow> gstate \<Rightarrow> (control, gstate) outcome" where
  "sched_sleep_for e c duration k w =
     bind_outcome (preempt_lock w) (\<lambda>_ w1. guarded preempt_unlock
       (bind_outcome (preempt_node w1) (\<lambda>_ w2. node_yield_for e c duration (In_sleep_for # k) w2)))"

text \<open>
  What a \<open>waiter\<close> does with the scheduler (\<open>concur/internal/waiter.cc\<close>, \<open>waiter_impl.h\<close>), once it has
  its cell: \<open>park_if\<close> lets the current task wait, \<open>unpark\<close> makes the task \<open>t\<close> of the cell runnable,
  and \<open>swap\<close> switches to it while the current task waits.
\<close>

definition waiter_wait :: "env \<Rightarrow> clk \<Rightarrow> frame list \<Rightarrow> gstate \<Rightarrow> (control, gstate) outcome" where
  "waiter_wait e c k w =
     bind_outcome (task_current w) (\<lambda>current w0.
     bind_outcome (upd_task current (\<lambda>x. x\<lparr>run_state := WAITING\<rparr>) w0) (\<lambda>_ w1. sched_yield e c k w1))"

definition waiter_wake :: "addr \<Rightarrow> gstate \<Rightarrow> (unit, gstate) outcome" where
  "waiter_wake t w =
     deref t w (\<lambda>x.
       if run_state x \<noteq> WAITING then Crash Assert_failed
       else bind_outcome (preempt_lock w) (\<lambda>_ w1. with_dtor preempt_unlock
         (bind_outcome (upd_task t (\<lambda>x. x\<lparr>run_state := SUSPENDED\<rparr>) w1) (\<lambda>_ w2.
          bind_outcome (preempt_node w2) (\<lambda>_ w3. node_schedule t w3)))))"

definition waiter_swap :: "clk \<Rightarrow> addr \<Rightarrow> frame list \<Rightarrow> gstate \<Rightarrow> (control, gstate) outcome" where
  "waiter_swap c t k w =
     bind_outcome (task_current w) (\<lambda>current w0.
     bind_outcome (preempt_lock w0) (\<lambda>_ w1. guarded preempt_unlock
       (bind_outcome (upd_task current (\<lambda>x. x\<lparr>run_state := WAITING\<rparr>) w1) (\<lambda>_ w2.
        bind_outcome (preempt_node w2) (\<lambda>_ w3. node_switch_to (tick0 c) t (In_swap # k) w3)))))"

text \<open>\<open>task_end_handler\<close>, and the end of \<open>gthread_task_entry\<close> that runs it.\<close>

definition task_end_handler ::
    "env \<Rightarrow> clk \<Rightarrow> frame list \<Rightarrow> addr \<Rightarrow> gstate \<Rightarrow> (control, gstate) outcome" where
  "task_end_handler e c k t w = deref t w (\<lambda>x. sched_exit e c (return_value x) k w)"

definition return_from_entry :: "env \<Rightarrow> clk \<Rightarrow> addr \<Rightarrow> gstate \<Rightarrow> (control, gstate) outcome" where
  "return_from_entry e c v w =
     bind_outcome (task_current w) (\<lambda>cur w1.
       task_stop (if end_handler_set w1 then Some (task_end_handler e c [In_stop]) else None) cur v w1)"

subsection \<open>Resumption\<close>

fun resume_frame :: "env \<Rightarrow> clk \<Rightarrow> frame \<Rightarrow> gstate \<Rightarrow> (result, gstate) outcome" where
  "resume_frame e c Task_entry w = bind_outcome (enter_task w) (\<lambda>_ w1. Ret No_result w1)"
| "resume_frame e c (In_switch_to prev) w = bind_outcome (finish_switch prev w) (\<lambda>_ w1. Ret No_result w1)"
| "resume_frame e c In_node_yield w =
     bind_outcome (spin_lock w) (\<lambda>_ w1. bind_outcome (spin_unlock w1) (\<lambda>_ w2. Ret No_result w2))"
| "resume_frame e c In_node_start w =
     (if running (node w) then Throw (Runtime_error ''control resumed in host task'') w
      else Ret No_result w)"
| "resume_frame e c In_sched_yield w = bind_outcome (preempt_unlock w) (\<lambda>_ w1. Ret No_result w1)"
| "resume_frame e c (In_join t want) w = join_finish e c t want w"
| "resume_frame e c In_exit w = bind_outcome (preempt_unlock w) (\<lambda>_ w1. Ret No_result w1)"
| "resume_frame e c In_stop w = Throw (Runtime_error ''task end handler did not stop the task!'') w"
| "resume_frame e c In_sleep_for w = bind_outcome (preempt_unlock w) (\<lambda>_ w1. Ret No_result w1)"
| "resume_frame e c In_trap w = bind_outcome (preempt_unlock w) (\<lambda>_ w1. Ret No_result w1)"
| "resume_frame e c In_swap w = bind_outcome (preempt_unlock w) (\<lambda>_ w1. Ret No_result w1)"

fun run_frames :: "env \<Rightarrow> clk \<Rightarrow> frame list \<Rightarrow> gstate \<Rightarrow> (result, gstate) outcome" where
  "run_frames e c [] w = Ret No_result w"
| "run_frames e c [f] w = resume_frame e c f w"
| "run_frames e c (f # g # k) w = bind_outcome (resume_frame e c f w) (\<lambda>_ w1. run_frames e c (g # k) w1)"

definition resume :: "env \<Rightarrow> clk \<Rightarrow> gstate \<Rightarrow> (result, gstate) outcome" where
  "resume e c w = bind_outcome (task_current w) (\<lambda>cur w1. run_frames e c (conts w1 cur) w1)"

subsection \<open>The calls of user code\<close>

datatype op =
    Op_yield
  | Op_spawn attr addr addr
  | Op_join "addr option" bool
  | Op_detach "addr option"
  | Op_exit addr
  | Op_return addr
  | Op_sleep int
  | Op_tick
  | Op_wait
  | Op_wake addr
  | Op_swap addr

definition no_value :: "(control, gstate) outcome \<Rightarrow> (control \<times> result, gstate) outcome" where
  "no_value r = bind_outcome r (\<lambda>x w. Ret (x, No_result) w)"

definition run_op :: "env \<Rightarrow> clk \<Rightarrow> op \<Rightarrow> gstate \<Rightarrow> (control \<times> result, gstate) outcome" where
  "run_op e c p w =
     (case p of
        Op_yield \<Rightarrow> no_value (sched_yield e c [] w)
      | Op_spawn a ent ar \<Rightarrow> bind_outcome (sched_spawn e c a ent ar w) (\<lambda>t w1. Ret (Returned, New_handle t) w1)
      | Op_join h want \<Rightarrow> sched_join e c h want [] w
      | Op_detach h \<Rightarrow> bind_outcome (sched_detach e c h w) (\<lambda>r w1. Ret (Returned, r) w1)
      | Op_exit v \<Rightarrow> no_value (sched_exit e c v [] w)
      | Op_return v \<Rightarrow> no_value (return_from_entry e c v w)
      | Op_sleep d \<Rightarrow> no_value (sched_sleep_for e c d [] w)
      | Op_tick \<Rightarrow> no_value (preempt_trap e c [] w)
      | Op_wait \<Rightarrow> no_value (waiter_wait e c [] w)
      | Op_wake t \<Rightarrow> bind_outcome (waiter_wake t w) (\<lambda>_ w1. Ret (Returned, No_result) w1)
      | Op_swap t \<Rightarrow> no_value (waiter_swap c t [] w))"

definition exec :: "env \<Rightarrow> clk \<Rightarrow> op \<Rightarrow> gstate \<Rightarrow> (result, gstate) outcome" where
  "exec e c p w =
     bind_outcome (run_op e c p w) (\<lambda>(r, v) w1.
       case r of Returned \<Rightarrow> Ret v w1 | Switched \<Rightarrow> resume e c w1)"

end
