(* ===== verification/Sched_Table.thy ===== *)
theory Sched_Table
  imports Sched
begin

text \<open>
  What the scheduler keeps true of the tasks, stated on the parts of the state it depends
  on: the task objects \<open>ts\<close>, their suspended activations \<open>cs\<close>, the run queue \<open>R\<close>, the
  freelist \<open>F\<close>, the deferred task \<open>d\<close>, the host task, the handles \<open>H\<close> that user code owns, the
  tasks \<open>P\<close> that waiters keep, and the running task \<open>c\<close> (null while no task runs, between two of
  them).

  The lemmas are the transitions of the table: a running task is parked (runnable, waiting
  for a join or on a waiter, or stopped), a parked task is woken, a task is taken from the run
  queue, a task is created, detached, joined or given back.
\<close>

section \<open>Definitions\<close>

text \<open>Task \<open>t\<close> is suspended inside \<open>join\<close> of \<open>j\<close>.\<close>

definition waits :: "(addr \<Rightarrow> frame list) \<Rightarrow> addr \<Rightarrow> addr \<Rightarrow> bool" where
  "waits cs t j \<longleftrightarrow>
     (\<exists>want. cs t = [In_switch_to t, In_node_yield, In_sched_yield, In_join j want])"

text \<open>Task \<open>t\<close> is suspended where a waiter parks it: inside \<open>yield\<close> or \<open>waiter::swap\<close>.\<close>

definition parks :: "(addr \<Rightarrow> frame list) \<Rightarrow> addr \<Rightarrow> bool" where
  "parks cs t \<longleftrightarrow> cs t = [In_switch_to t, In_node_yield, In_sched_yield] \<or> cs t = [In_switch_to t, In_swap]"

text \<open>
  The activations of a suspended task: not entered yet and preemptible, or inside \<open>yield\<close>, the
  timer's trap, \<open>waiter::swap\<close> or \<open>join\<close>, with the preemption flag of the critical section it left
  off in.
\<close>

definition shape_ok ::
    "(addr \<rightharpoonup> task) \<Rightarrow> (addr \<Rightarrow> frame list) \<Rightarrow> addr set \<Rightarrow> addr \<Rightarrow> task \<Rightarrow> bool" where
  "shape_ok ts cs F t x \<longleftrightarrow>
     (cs t = [Task_entry] \<and> \<not> no_preempt_flag x) \<or>
     (no_preempt_flag x \<and>
        (cs t = [In_switch_to t, In_node_yield, In_sched_yield] \<or>
         cs t = [In_switch_to t, In_node_yield, In_trap] \<or> cs t = [In_switch_to t, In_swap] \<or>
         (\<exists>j y. waits cs t j \<and> ts j = Some y \<and> joiner y = t \<and> j \<notin> F)))"

text \<open>A task object that is not on the freelist; \<open>c\<close> is exempt from what suspended tasks obey.\<close>

definition row_ok ::
    "addr set \<Rightarrow> (addr \<rightharpoonup> task) \<Rightarrow> (addr \<Rightarrow> frame list) \<Rightarrow> addr set \<Rightarrow> addr set \<Rightarrow> addr \<Rightarrow> addr \<Rightarrow> addr set
       \<Rightarrow> addr \<Rightarrow> addr \<Rightarrow> task \<Rightarrow> bool" where
  "row_ok P ts cs R F d host H c t x \<longleftrightarrow>
     (detached x \<longrightarrow> t \<notin> H \<and> joiner x = nullptr) \<and>
     (t \<noteq> host \<longrightarrow> detached x \<or> t \<in> H \<or> joiner x \<noteq> nullptr) \<and>
     (joiner x \<noteq> nullptr \<longrightarrow>
        t \<notin> H \<and> joiner x \<noteq> c \<and> joiner x \<noteq> d \<and> joiner x \<notin> F \<and> waits cs (joiner x) t \<and>
        (\<exists>y. ts (joiner x) = Some y \<and> run_state y \<noteq> STOPPED) \<and>
        (joiner x \<in> R \<longleftrightarrow> run_state x = STOPPED)) \<and>
     (t = d \<longrightarrow> run_state x = STOPPED \<and> detached x) \<and>
     (t \<noteq> d \<and> t \<noteq> c \<and> run_state x = STOPPED \<longrightarrow> t \<notin> R \<and> \<not> detached x) \<and>
     (t \<noteq> c \<and> run_state x \<noteq> STOPPED \<longrightarrow>
        run_state x \<noteq> RUNNING \<and> shape_ok ts cs F t x \<and>
        (t \<in> R \<or> run_state x = WAITING \<and> (\<exists>j. waits cs t j) \<or> t \<in> P)) \<and>
     (t \<noteq> host \<longrightarrow> entry x \<noteq> nullptr) \<and>
     (t \<in> P \<longrightarrow> t \<noteq> c \<and> run_state x = WAITING \<and> t \<notin> R \<and> parks cs t)"

definition table_ok ::
    "addr set \<Rightarrow> (addr \<rightharpoonup> task) \<Rightarrow> (addr \<Rightarrow> frame list) \<Rightarrow> addr set \<Rightarrow> addr set \<Rightarrow> addr \<Rightarrow> addr \<Rightarrow> addr set
       \<Rightarrow> addr \<Rightarrow> bool" where
  "table_ok P ts cs R F d host H c \<longleftrightarrow>
     ts nullptr = None \<and> R \<subseteq> dom ts \<and> F \<subseteq> dom ts \<and> H \<subseteq> dom ts \<and>
     (d \<noteq> nullptr \<longrightarrow> d \<in> dom ts) \<and> (c \<noteq> nullptr \<longrightarrow> c \<in> dom ts \<and> c \<noteq> d) \<and>
     c \<notin> R \<and> c \<notin> F \<and> d \<notin> R \<and> d \<notin> F \<and> R \<inter> F = {} \<and> H \<inter> F = {} \<and>
     host \<notin> F \<and> (\<exists>x. ts host = Some x \<and> entry x = nullptr \<and> run_state x \<noteq> STOPPED) \<and> host \<notin> H \<and>
     (\<forall>t x. ts t = Some x \<and> t \<in> F \<longrightarrow> run_state x = STOPPED) \<and>
     (\<forall>t x. ts t = Some x \<and> t \<notin> F \<longrightarrow> row_ok P ts cs R F d host H c t x) \<and>
     P \<subseteq> dom ts \<and> P \<inter> F = {}"

text \<open>The fields the table depends on (and the preemption flag of suspended tasks): not the runtimes, arguments and return values.\<close>

definition core :: "task \<Rightarrow> run_state_t \<times> addr \<times> bool \<times> bool" where
  "core x = (run_state x, joiner x, detached x, entry x = nullptr)"

text \<open>A task is given back: it is listed on the freelist, or destroyed.\<close>

definition given_back ::
    "(addr \<rightharpoonup> task) \<Rightarrow> addr set \<Rightarrow> addr \<Rightarrow> (addr \<rightharpoonup> task) \<Rightarrow> addr set \<Rightarrow> bool" where
  "given_back ts F t ts' F' \<longleftrightarrow>
     ts' = ts \<and> F' = insert t F \<or> ts' = ts(t := None) \<and> F' = F"

section \<open>Parts of a table\<close>

lemma waits_inj: "waits cs t j \<Longrightarrow> waits cs t j' \<Longrightarrow> j = j'"
  by (auto simp: waits_def)

lemma waits_upd [simp]: "t \<noteq> u \<Longrightarrow> waits (cs(u := k)) t j = waits cs t j"
  by (simp add: waits_def)

lemma waits_same [simp]:
  "waits (cs(t := [In_switch_to t, In_node_yield, In_sched_yield, In_join j want])) t i \<longleftrightarrow> i = j"
  by (auto simp: waits_def)

lemma waits_shapes [simp]:
  "cs t = [Task_entry] \<Longrightarrow> \<not> waits cs t j"
  "cs t = [In_switch_to t, In_node_yield, In_sched_yield] \<Longrightarrow> \<not> waits cs t j"
  "cs t = [In_switch_to t, In_node_yield, In_trap] \<Longrightarrow> \<not> waits cs t j"
  "cs t = [In_switch_to t, In_swap] \<Longrightarrow> \<not> waits cs t j"
  by (simp_all add: waits_def)

lemma parks_upd [simp]: "t \<noteq> u \<Longrightarrow> parks (cs(u := k)) t = parks cs t"
  by (simp add: parks_def)

lemma parks_not_waits: "parks cs t \<Longrightarrow> \<not> waits cs t j"
  by (auto simp: parks_def)

lemma table_okD:
  assumes "table_ok P ts cs R F d host H c"
  shows "ts nullptr = None" "R \<subseteq> dom ts" "F \<subseteq> dom ts" "H \<subseteq> dom ts" "c \<notin> R" "c \<notin> F" "d \<notin> R" "d \<notin> F"
    "R \<inter> F = {}" "H \<inter> F = {}" "host \<notin> F" "host \<notin> H"
    "d \<noteq> nullptr \<Longrightarrow> d \<in> dom ts" "c \<noteq> nullptr \<Longrightarrow> c \<in> dom ts \<and> c \<noteq> d"
    "\<exists>x. ts host = Some x \<and> entry x = nullptr \<and> run_state x \<noteq> STOPPED"
    "ts t = Some x \<Longrightarrow> t \<in> F \<Longrightarrow> run_state x = STOPPED"
    "ts t = Some x \<Longrightarrow> t \<notin> F \<Longrightarrow> row_ok P ts cs R F d host H c t x"
    "P \<subseteq> dom ts" "P \<inter> F = {}"
  using assms by (auto simp: table_ok_def)

lemma table_okI:
  assumes "ts nullptr = None" "R \<subseteq> dom ts" "F \<subseteq> dom ts" "H \<subseteq> dom ts" "c \<notin> R" "c \<notin> F" "d \<notin> R" "d \<notin> F"
    "R \<inter> F = {}" "H \<inter> F = {}" "host \<notin> F" "host \<notin> H"
    "d \<noteq> nullptr \<Longrightarrow> d \<in> dom ts" "c \<noteq> nullptr \<Longrightarrow> c \<in> dom ts \<and> c \<noteq> d"
    "\<exists>x. ts host = Some x \<and> entry x = nullptr \<and> run_state x \<noteq> STOPPED"
    "\<And>t x. ts t = Some x \<Longrightarrow> t \<in> F \<Longrightarrow> run_state x = STOPPED"
    "\<And>t x. ts t = Some x \<Longrightarrow> t \<notin> F \<Longrightarrow> row_ok P ts cs R F d host H c t x"
    "P \<subseteq> dom ts" "P \<inter> F = {}"
  shows "table_ok P ts cs R F d host H c"
  using assms by (auto simp: table_ok_def)

lemma shape_ok_cong:
  assumes "shape_ok ts cs F t x" and "cs' t = cs t" and "no_preempt_flag x' = no_preempt_flag x"
    and "\<And>j y. waits cs t j \<Longrightarrow> ts j = Some y \<Longrightarrow> joiner y = t \<Longrightarrow> j \<notin> F \<Longrightarrow>
           \<exists>y'. ts' j = Some y' \<and> joiner y' = t \<and> j \<notin> F'"
  shows "shape_ok ts' cs' F' t x'"
proof -
  have w: "waits cs' t j = waits cs t j" for j
    using assms(2) by (simp add: waits_def)
  show ?thesis
    using assms(1) assms(4) unfolding shape_ok_def w assms(2,3) by blast
qed

text \<open>The row of a task that a transition does not touch.\<close>

lemma row_ok_other:
  assumes row: "row_ok P ts cs R F d host H c t x" and "t \<noteq> c" "t \<noteq> c'"
    and same: "t \<in> H' \<longleftrightarrow> t \<in> H" "t \<in> R' \<longleftrightarrow> t \<in> R" "t = d' \<longleftrightarrow> t = d" "cs' t = cs t"
    and shape: "shape_ok ts cs F t x \<Longrightarrow> shape_ok ts' cs' F' t x"
    and link: "\<And>y. joiner x \<noteq> nullptr \<Longrightarrow> joiner x \<noteq> c \<Longrightarrow> joiner x \<noteq> d \<Longrightarrow> joiner x \<notin> F \<Longrightarrow>
       waits cs (joiner x) t \<Longrightarrow> ts (joiner x) = Some y \<Longrightarrow> run_state y \<noteq> STOPPED \<Longrightarrow>
       joiner x \<noteq> c' \<and> joiner x \<noteq> d' \<and> joiner x \<notin> F' \<and> waits cs' (joiner x) t \<and>
       (\<exists>y. ts' (joiner x) = Some y \<and> run_state y \<noteq> STOPPED) \<and> (joiner x \<in> R' \<longleftrightarrow> joiner x \<in> R)"
  shows "row_ok P ts' cs' R' F' d' host H' c' t x"
proof -
  have "waits cs' t j = waits cs t j" "parks cs' t = parks cs t" for j
    using same(4) by (simp_all add: waits_def parks_def)
  moreover have "(\<exists>y. ts' (joiner x) = Some y \<and> run_state y \<noteq> STOPPED) \<and> joiner x \<noteq> c' \<and>
      joiner x \<noteq> d' \<and> joiner x \<notin> F' \<and> waits cs' (joiner x) t \<and> (joiner x \<in> R' \<longleftrightarrow> joiner x \<in> R)"
    if "joiner x \<noteq> nullptr"
    using that link row by (auto simp: row_ok_def)
  ultimately show ?thesis
    using row shape assms(2,3) same(1-3) by (simp add: row_ok_def)
qed

lemma row_okD:
  assumes "row_ok P ts cs R F d host H c t x"
  shows "detached x \<Longrightarrow> t \<notin> H" "detached x \<Longrightarrow> joiner x = nullptr"
    "t \<noteq> host \<Longrightarrow> detached x \<or> t \<in> H \<or> joiner x \<noteq> nullptr"
    "joiner x \<noteq> nullptr \<Longrightarrow> t \<notin> H" "joiner x \<noteq> nullptr \<Longrightarrow> joiner x \<noteq> c"
    "joiner x \<noteq> nullptr \<Longrightarrow> joiner x \<noteq> d" "joiner x \<noteq> nullptr \<Longrightarrow> joiner x \<notin> F"
    "joiner x \<noteq> nullptr \<Longrightarrow> waits cs (joiner x) t"
    "joiner x \<noteq> nullptr \<Longrightarrow> \<exists>y. ts (joiner x) = Some y \<and> run_state y \<noteq> STOPPED"
    "joiner x \<noteq> nullptr \<Longrightarrow> joiner x \<in> R \<longleftrightarrow> run_state x = STOPPED"
    "t = d \<Longrightarrow> run_state x = STOPPED" "t = d \<Longrightarrow> detached x"
    "t \<noteq> d \<Longrightarrow> t \<noteq> c \<Longrightarrow> run_state x = STOPPED \<Longrightarrow> t \<notin> R \<and> \<not> detached x"
    "t \<noteq> c \<Longrightarrow> run_state x \<noteq> STOPPED \<Longrightarrow> run_state x \<noteq> RUNNING \<and> shape_ok ts cs F t x"
    "t \<noteq> c \<Longrightarrow> run_state x \<noteq> STOPPED \<Longrightarrow> t \<in> R \<or> run_state x = WAITING \<and> (\<exists>j. waits cs t j) \<or> t \<in> P"
    "t \<noteq> host \<Longrightarrow> entry x \<noteq> nullptr"
    "t \<in> P \<Longrightarrow> t \<noteq> c \<and> run_state x = WAITING \<and> t \<notin> R \<and> parks cs t"
  using assms unfolding row_ok_def by simp_all

lemma row_okI:
  assumes "detached x \<Longrightarrow> t \<notin> H" "detached x \<Longrightarrow> joiner x = nullptr"
    "t \<noteq> host \<Longrightarrow> detached x \<or> t \<in> H \<or> joiner x \<noteq> nullptr"
    "joiner x \<noteq> nullptr \<Longrightarrow> t \<notin> H" "joiner x \<noteq> nullptr \<Longrightarrow> joiner x \<noteq> c"
    "joiner x \<noteq> nullptr \<Longrightarrow> joiner x \<noteq> d" "joiner x \<noteq> nullptr \<Longrightarrow> joiner x \<notin> F"
    "joiner x \<noteq> nullptr \<Longrightarrow> waits cs (joiner x) t"
    "joiner x \<noteq> nullptr \<Longrightarrow> \<exists>y. ts (joiner x) = Some y \<and> run_state y \<noteq> STOPPED"
    "joiner x \<noteq> nullptr \<Longrightarrow> joiner x \<in> R \<longleftrightarrow> run_state x = STOPPED"
    "t = d \<Longrightarrow> run_state x = STOPPED" "t = d \<Longrightarrow> detached x"
    "t \<noteq> d \<Longrightarrow> t \<noteq> c \<Longrightarrow> run_state x = STOPPED \<Longrightarrow> t \<notin> R \<and> \<not> detached x"
    "t \<noteq> c \<Longrightarrow> run_state x \<noteq> STOPPED \<Longrightarrow> run_state x \<noteq> RUNNING \<and> shape_ok ts cs F t x"
    "t \<noteq> c \<Longrightarrow> run_state x \<noteq> STOPPED \<Longrightarrow> t \<in> R \<or> run_state x = WAITING \<and> (\<exists>j. waits cs t j) \<or> t \<in> P"
    "t \<noteq> host \<Longrightarrow> entry x \<noteq> nullptr"
    "t \<in> P \<Longrightarrow> t \<noteq> c \<and> run_state x = WAITING \<and> t \<notin> R \<and> parks cs t"
  shows "row_ok P ts cs R F d host H c t x"
  unfolding row_ok_def by (intro conjI impI) (use assms in \<open>simp_all\<close>)

section \<open>Transitions\<close>

text \<open>A running task is put on the run queue.\<close>

lemma table_park_ready:
  assumes T: "table_ok P ts cs R F d host H c" and c: "ts c = Some x"
    and x': "run_state x' = SUSPENDED" "no_preempt_flag x'" "joiner x' = joiner x"
      "detached x' = detached x" "entry x' = entry x"
    and x: "run_state x \<noteq> STOPPED"
    and k: "k = [In_sched_yield] \<or> k = [In_trap]"
  shows "table_ok P (ts(c \<mapsto> x')) (cs(c := In_switch_to c # In_node_yield # k)) (insert c R) F d host H nullptr"
proof -
  note D = table_okD [OF T]
  have c0: "c \<noteq> nullptr" using D(1) c by auto
  have sh: "shape_ok (ts(c \<mapsto> x')) (cs(c := In_switch_to c # In_node_yield # k)) F t y"
    if "shape_ok ts cs F t y" "t \<noteq> c" for t y
    by (rule shape_ok_cong [OF that(1)]) (use that c x' in auto)
  show ?thesis
  proof (rule table_okI, goal_cases)
    case (17 t z)
    show ?case
    proof (cases "t = c")
      case True
      note r = row_okD [OF D(17) [OF c D(6)]]
      show ?thesis
        using True 17 r D(14) x x' k c0 by (intro row_okI) (auto simp: shape_ok_def)
    next
      case False
      with 17 have z: "ts t = Some z" "t \<notin> F" by auto
      show ?thesis
        by (rule row_ok_other [OF D(17) [OF z]]) (use False D c c0 x' sh z in auto)
    qed
  qed (use D c c0 x' in \<open>auto split: if_splits\<close>)
qed

text \<open>A running task waits for the task \<open>j\<close> of a handle it owns.\<close>

lemma table_park_join:
  assumes T: "table_ok P ts cs R F d host H c" and c: "ts c = Some x" and j: "ts j = Some y"
    and jc: "j \<in> H" "j \<noteq> c" "run_state y \<noteq> STOPPED" "joiner y = nullptr"
    and x: "run_state x \<noteq> STOPPED"
    and x': "run_state x' = WAITING" "no_preempt_flag x'" "joiner x' = joiner x"
      "detached x' = detached x" "entry x' = entry x"
    and y': "y' = y\<lparr>joiner := c\<rparr>"
  shows "table_ok P (ts(c \<mapsto> x', j \<mapsto> y'))
     (cs(c := [In_switch_to c, In_node_yield, In_sched_yield, In_join j want])) R F d host (H - {j}) nullptr"
proof -
  note D = table_okD [OF T]
  have c0: "c \<noteq> nullptr" using D(1) c by auto
  have jF: "j \<notin> F" "j \<noteq> host" using jc D(10,12) by auto
  note rj = row_okD [OF D(17) [OF j jF(1)]]
  have sh: "shape_ok (ts(c \<mapsto> x', j \<mapsto> y'))
      (cs(c := [In_switch_to c, In_node_yield, In_sched_yield, In_join j want])) F t z'"
    if "shape_ok ts cs F t z" "t \<noteq> c" "t \<noteq> nullptr" "no_preempt_flag z' = no_preempt_flag z" for t z z'
    by (rule shape_ok_cong [OF that(1)]) (use that c x' jc j in auto)
  have j0: "j \<noteq> nullptr" using D(1) j by auto
  show ?thesis
  proof (rule table_okI, goal_cases)
    case (17 t z)
    consider "t = c" | "t = j" | "t \<noteq> c" "t \<noteq> j" by blast
    then show ?case
    proof cases
      case 1
      note r = row_okD [OF D(17) [OF c D(6)]]
      show ?thesis
        using 1 17 r D(14) x x' c0 jc jF y' by (intro row_okI) (auto simp: shape_ok_def)
    next
      case 2
      with 17 have "z = y'" using jc by auto
      then show ?thesis
        using 2 rj D(5,6,14) x' c0 jc jF y' sh [of j y y'] j0 by (intro row_okI) (auto simp: waits_def)
    next
      case 3
      with 17 have z: "ts t = Some z" "t \<notin> F" "t \<noteq> nullptr" using D(1) by auto
      show ?thesis
        by (rule row_ok_other [OF D(17) [OF z(1,2)]]) (use 3 D c c0 x' sh z j jc y' in auto)
    qed
  qed (use D c c0 x' jc j y' in \<open>auto split: if_splits\<close>)
qed

text \<open>A running task parks: it waits for another task to make it runnable.\<close>

lemma table_park_wait:
  assumes T: "table_ok P ts cs R F d host H c" and c: "ts c = Some x"
    and x: "run_state x \<noteq> STOPPED"
    and x': "run_state x' = WAITING" "no_preempt_flag x'" "joiner x' = joiner x"
      "detached x' = detached x" "entry x' = entry x"
    and k: "parks (cs(c := k)) c"
  shows "table_ok (insert c P) (ts(c \<mapsto> x')) (cs(c := k)) R F d host H nullptr"
proof -
  note D = table_okD [OF T]
  have c0: "c \<noteq> nullptr" using D(1) c by auto
  have sh: "shape_ok (ts(c \<mapsto> x')) (cs(c := k)) F t y" if "shape_ok ts cs F t y" "t \<noteq> c" for t y
    by (rule shape_ok_cong [OF that(1)]) (use that c x' in auto)
  show ?thesis
  proof (rule table_okI, goal_cases)
    case (17 t z)
    show ?case
    proof (cases "t = c")
      case True
      note r = row_okD [OF D(17) [OF c D(6)]]
      show ?thesis
        using True 17 r D(5,14) x x' k c0 by (intro row_okI) (auto simp: shape_ok_def parks_def)
    next
      case False
      with 17 have z: "ts t = Some z" "t \<notin> F" by auto
      have "row_ok P (ts(c \<mapsto> x')) (cs(c := k)) R F d host H nullptr t z"
        by (rule row_ok_other [OF D(17) [OF z]]) (use False D c c0 x' sh z in auto)
      with False show ?thesis by (simp add: row_ok_def)
    qed
  qed (use D c c0 x' in \<open>auto split: if_splits\<close>)
qed

text \<open>A parked task becomes runnable.\<close>

lemma table_wake:
  assumes T: "table_ok P ts cs R F d host H c" and t: "t \<in> P" "ts t = Some x"
    and x': "run_state x' = SUSPENDED \<or> run_state x' = WAITING" "no_preempt_flag x' = no_preempt_flag x"
      "joiner x' = joiner x" "detached x' = detached x" "entry x' = entry x"
  shows "table_ok (P - {t}) (ts(t \<mapsto> x')) cs (insert t R) F d host H c"
proof -
  note D = table_okD [OF T]
  have tF: "t \<notin> F" using D(19) t by auto
  note r = row_okD [OF D(17) [OF t(2) tF]]
  have t': "t \<noteq> c" "run_state x = WAITING" "t \<notin> R" "parks cs t" "t \<noteq> d" using r(11,17) t by auto
  have sh: "shape_ok (ts(t \<mapsto> x')) cs F u z'"
    if "shape_ok ts cs F u z" "no_preempt_flag z' = no_preempt_flag z" for u z z'
    by (rule shape_ok_cong [OF that(1)]) (use t x' that in auto)
  show ?thesis
  proof (rule table_okI, goal_cases)
    case (17 u z)
    show ?case
    proof (cases "u = t")
      case True
      then have z: "z = x'" using 17 by auto
      have "joiner x \<noteq> t" if "joiner x \<noteq> nullptr" using r(8) that parks_not_waits [OF t'(4)] by metis
      then show ?thesis using True z r x' t' sh [of t x x'] by (intro row_okI) auto
    next
      case False
      with 17 have z: "ts u = Some z" "u \<notin> F" by auto
      have "joiner z \<noteq> t" if "joiner z \<noteq> nullptr"
        using row_okD(8) [OF D(17) [OF z]] that parks_not_waits [OF t'(4)] by metis
      then show ?thesis
        using D(17) [OF z] sh [of u z z] False x' t' by (auto simp: row_ok_def)
    qed
  qed (use D t tF x' t' in \<open>auto split: if_splits\<close>)
qed

text \<open>The running task stops; its joiner, if there is one, becomes runnable.\<close>

lemma table_park_stopped:
  assumes T: "table_ok P ts cs R F nullptr host H c" and c: "ts c = Some x"
    and x: "run_state x \<noteq> STOPPED" "entry x \<noteq> nullptr"
    and x': "run_state x' = STOPPED" "joiner x' = joiner x" "detached x' = detached x" "entry x' = entry x"
  shows "table_ok P (ts(c \<mapsto> x')) (cs(c := k)) (if joiner x \<noteq> nullptr then insert (joiner x) R else R) F
     (if detached x then c else nullptr) host H nullptr"
proof -
  note D = table_okD [OF T]
  have c0: "c \<noteq> nullptr" "c \<noteq> host" using D(1,15) c x by auto
  note r = row_okD [OF D(17) [OF c D(6)]]
  have sh: "shape_ok (ts(c \<mapsto> x')) (cs(c := k)) F t y" if "shape_ok ts cs F t y" "t \<noteq> c" for t y
    by (rule shape_ok_cong [OF that(1)]) (use that c x' in auto)
  show ?thesis
  proof (rule table_okI, goal_cases)
    case (17 t z)
    show ?case
    proof (cases "t = c")
      case True
      show ?thesis
        using True 17 r D(5,6,14) x x' c0 by (intro row_okI) auto
    next
      case False
      with 17 have z: "ts t = Some z" "t \<notin> F" by auto
      note rt = row_okD [OF D(17) [OF z]]
      have "row_ok P (ts(c \<mapsto> x')) (cs(c := k)) R F (if detached x then c else nullptr) host H nullptr t z"
        by (rule row_ok_other [OF D(17) [OF z]]) (use False D c c0 x' sh z in auto)
      moreover have "joiner z \<noteq> joiner x" if "joiner x \<noteq> nullptr" "joiner z \<noteq> nullptr"
        using rt(8) r(8) that waits_inj False by metis
      moreover have "t \<noteq> joiner x \<or> run_state z \<noteq> STOPPED \<and> t \<notin> P" if "joiner x \<noteq> nullptr"
        using r(8,9) rt(17) z that parks_not_waits by auto
      ultimately show ?thesis by (auto simp: row_ok_def)
    qed
  next
    case 2
    then show ?case using D(2) r(9) c by auto
  next
    case 5
    then show ?case using D(1,2) by auto
  next
    case 7
    then show ?case using D(1,2,5) r(5) by auto
  next
    case 9
    then show ?case using D(9) r(7) by auto
  qed (use D c c0 x' in \<open>auto split: if_splits\<close>)
qed

text \<open>A runnable task that is not in \<open>join\<close> is taken from the run queue and runs.\<close>

lemma table_take:
  assumes T: "table_ok P ts cs R F d host H nullptr" and n: "n \<in> R" "ts n = Some x"
    and nw: "\<And>j. \<not> waits cs n j"
    and x': "run_state x' = RUNNING" "joiner x' = joiner x" "detached x' = detached x" "entry x' = entry x"
  shows "table_ok P (ts(n \<mapsto> x')) cs (R - {n}) F d host H n"
proof -
  note D = table_okD [OF T]
  have nF: "n \<notin> F" "n \<noteq> d" "n \<noteq> nullptr" using n D(1,7,9) by auto
  note r = row_okD [OF D(17) [OF n(2) nF(1)]]
  have run: "run_state x \<noteq> STOPPED" using r(13) nF n by auto
  have sh: "shape_ok (ts(n \<mapsto> x')) cs F t y" if "shape_ok ts cs F t y" for t y
    by (rule shape_ok_cong [OF that(1)]) (use n x' in auto)
  show ?thesis
  proof (rule table_okI, goal_cases)
    case (17 t z)
    show ?case
    proof (cases "t = n")
      case True
      have "joiner x \<noteq> n" using r(8) nw nF(3) by metis
      then show ?thesis
        using True 17 r x' nF run n(1) by (intro row_okI) auto
    next
      case False
      with 17 have z: "ts t = Some z" "t \<notin> F" by auto
      have "t \<noteq> nullptr" using z D(1) by auto
      then show ?thesis
        by (intro row_ok_other [OF D(17) [OF z]]) (use False n x' sh z nw in auto)
    qed
  qed (use D n nF x' in \<open>auto split: if_splits\<close>)
qed

text \<open>
  A runnable task that is in \<open>join\<close> of \<open>j\<close> is taken: \<open>j\<close> has stopped, and goes to the freelist.
\<close>

lemma table_join_stopped:
  assumes T: "table_ok P ts cs R F d host H nullptr" and n: "n \<in> R" "waits cs n j"
  shows "\<exists>y. ts j = Some y \<and> run_state y = STOPPED \<and> joiner y = n \<and> j \<notin> F \<and> j \<notin> R \<and> j \<noteq> d \<and> j \<noteq> n"
proof -
  note D = table_okD [OF T]
  obtain x where x: "ts n = Some x" using n D(2) by auto
  have nF: "n \<notin> F" "n \<noteq> d" "n \<noteq> nullptr" using n x D(1,7,9) by auto
  note r = row_okD [OF D(17) [OF x nF(1)]]
  have run: "run_state x \<noteq> STOPPED" using r(13) nF n by auto
  have nw: "cs n \<noteq> [Task_entry]" "cs n \<noteq> [In_switch_to n, In_node_yield, In_sched_yield]"
    "cs n \<noteq> [In_switch_to n, In_node_yield, In_trap]" "cs n \<noteq> [In_switch_to n, In_swap]"
    using n(2) by auto
  from r(14) nF run nw obtain i y where i: "waits cs n i" "ts i = Some y" "joiner y = n" "i \<notin> F"
    by (auto simp: shape_ok_def)
  then have ij: "i = j" using n(2) waits_inj by metis
  note q = row_okD [OF D(17) [OF i(2,4)]]
  have "run_state y = STOPPED" "i \<noteq> d" using q(2,10,12) i n nF by auto
  moreover have "i \<noteq> nullptr" using i D(1) by auto
  ultimately have "i \<notin> R" using q(13) i by auto
  with i ij \<open>run_state y = STOPPED\<close> \<open>i \<noteq> d\<close> n show ?thesis by auto
qed

lemma table_take_join:
  assumes T: "table_ok P ts cs R F d host H nullptr" and n: "n \<in> R" "ts n = Some x" "waits cs n j"
    and x': "run_state x' = RUNNING" "joiner x' = joiner x" "detached x' = detached x" "entry x' = entry x"
  shows "table_ok P (ts(n \<mapsto> x')) cs (R - {n}) (insert j F) d host H n"
proof -
  note D = table_okD [OF T]
  have nF: "n \<notin> F" "n \<noteq> d" "n \<noteq> nullptr" using n D(1,7,9) by auto
  obtain y where y: "ts j = Some y" "run_state y = STOPPED" "joiner y = n" "j \<notin> F" "j \<notin> R" "j \<noteq> d" "j \<noteq> n"
    using table_join_stopped [OF T n(1,3)] by auto
  note r = row_okD [OF D(17) [OF n(2) nF(1)]] and q = row_okD [OF D(17) [OF y(1,4)]]
  have run: "run_state x \<noteq> STOPPED" using r(13) nF n by auto
  have jH: "j \<notin> H" "j \<noteq> host" "j \<notin> P" using q(4,17) y nF D(15) by auto
  have sh: "shape_ok (ts(n \<mapsto> x')) cs (insert j F) t z" if "shape_ok ts cs F t z" "t \<noteq> n" for t z
    by (rule shape_ok_cong [OF that(1)]) (use n x' y that in auto)
  have other: "joiner z \<noteq> n \<and> joiner z \<noteq> j"
    if "ts t = Some z" "t \<notin> F" "t \<noteq> j" "joiner z \<noteq> nullptr" for t z
    using row_okD(8,9) [OF D(17) [OF that(1,2)]] that n(3) y(1,2) waits_inj by fastforce
  show ?thesis
  proof (rule table_okI, goal_cases)
    case (17 t z)
    show ?case
    proof (cases "t = n")
      case True
      have "joiner x \<noteq> n \<and> joiner x \<noteq> j" if "joiner x \<noteq> nullptr"
        using other [OF n(2) nF(1)] that y(7) by auto
      then show ?thesis
        using True 17 r x' nF run y n(1) by (intro row_okI) auto
    next
      case False
      with 17 have z: "ts t = Some z" "t \<notin> F" "t \<noteq> j" by auto
      have "t \<noteq> nullptr" using z D(1) by auto
      then show ?thesis
        by (intro row_ok_other [OF D(17) [OF z(1,2)]]) (use False n x' sh z other y in auto)
    qed
  qed (use D n nF x' y jH in \<open>auto split: if_splits\<close>)
qed

text \<open>An object on the freelist can go away.\<close>

lemma table_drop:
  assumes T: "table_ok P ts cs R F d host H c" and j: "j \<in> F"
  shows "table_ok P (ts(j := None)) cs R (F - {j}) d host H c"
proof -
  note D = table_okD [OF T]
  have sh: "shape_ok (ts(j := None)) cs (F - {j}) t z" if "shape_ok ts cs F t z" for t z
    by (rule shape_ok_cong [OF that(1)]) (use j that in auto)
  show ?thesis
  proof (rule table_okI, goal_cases)
    case (17 t z)
    then have z: "ts t = Some z" "t \<notin> F" by (auto split: if_splits)
    show ?case
      using D(17) [OF z] sh [of t z] j unfolding row_ok_def by auto
  qed (use D j in \<open>auto split: if_splits\<close>)
qed

lemma table_given_back:
  assumes T: "table_ok P ts cs R (insert t F) d host H c" and "t \<notin> F" and g: "given_back ts F t ts' F'"
  shows "table_ok P ts' cs R F' d host H c"
  using g table_drop [OF T, of t] T assms(2) by (auto simp: given_back_def)

lemma given_back_other: "given_back ts F t ts' F' \<Longrightarrow> u \<noteq> t \<Longrightarrow> ts' u = ts u"
  by (auto simp: given_back_def)

lemma given_back_upd:
  "given_back ts F t ts' F' \<Longrightarrow> c \<noteq> t \<Longrightarrow> given_back (ts(c \<mapsto> x)) F t (ts'(c \<mapsto> x)) F'"
  by (auto simp: given_back_def fun_upd_twist)

text \<open>The deferred task goes to the freelist.\<close>

lemma table_return_deferred:
  assumes T: "table_ok P ts cs R F d host H c" and d: "d \<noteq> nullptr"
  shows "table_ok P ts cs R (insert d F) nullptr host H c"
proof -
  note D = table_okD [OF T]
  obtain y where y: "ts d = Some y" using D(13) d by auto
  note r = row_okD [OF D(17) [OF y D(8)]]
  have dP: "d \<notin> P" using r(11,17) by auto
  have sh: "shape_ok ts cs (insert d F) t z" if "shape_ok ts cs F t z" "t \<noteq> nullptr" for t z
    by (rule shape_ok_cong [OF that(1)]) (use y that r in auto)
  show ?thesis
  proof (rule table_okI, goal_cases)
    case (17 t z)
    then have z: "ts t = Some z" "t \<notin> F" "t \<noteq> d" "t \<noteq> nullptr" using D(1) by auto
    show ?case
      using D(17) [OF z(1,2)] sh [of t z] z by (auto simp: row_ok_def)
  qed (use D y r d dP in \<open>auto split: if_splits\<close>)
qed

text \<open>A stopped task whose handle is given up goes to the freelist.\<close>

lemma table_return_handle:
  assumes T: "table_ok P ts cs R F d host H c" and t: "t \<in> H" "ts t = Some x" "run_state x = STOPPED" "t \<noteq> c"
  shows "table_ok P ts cs R (insert t F) d host (H - {t}) c"
proof -
  note D = table_okD [OF T]
  have tF: "t \<notin> F" "t \<noteq> host" "t \<noteq> nullptr" using D(1,10,12) t by auto
  note r = row_okD [OF D(17) [OF t(2) tF(1)]]
  have t': "t \<noteq> d" "joiner x = nullptr" "t \<notin> R" "t \<notin> P"
    using r(1,4,12,13,17) t by auto
  have sh: "shape_ok ts cs (insert t F) u z" if "shape_ok ts cs F u z" "u \<noteq> nullptr" for u z
    by (rule shape_ok_cong [OF that(1)]) (use t t' that in auto)
  show ?thesis
  proof (rule table_okI, goal_cases)
    case (17 u z)
    then have z: "ts u = Some z" "u \<notin> F" "u \<noteq> t" "u \<noteq> nullptr" using D(1) by auto
    have "joiner z \<noteq> t" using row_okD(9) [OF D(17) [OF z(1,2)]] t tF(3) by fastforce
    then show ?case
      using D(17) [OF z(1,2)] sh [of u z] z by (auto simp: row_ok_def)
  qed (use D t t' tF in \<open>auto split: if_splits\<close>)
qed

text \<open>A task that has not stopped is detached.\<close>

lemma table_detach:
  assumes T: "table_ok P ts cs R F d host H c" and t: "t \<in> H" "ts t = Some x" "run_state x \<noteq> STOPPED"
    and x': "x' = x\<lparr>detached := True\<rparr>"
  shows "table_ok P (ts(t \<mapsto> x')) cs R F d host (H - {t}) c"
proof -
  note D = table_okD [OF T]
  have tF: "t \<notin> F" "t \<noteq> host" "t \<noteq> nullptr" using D(1,10,12) t by auto
  note r = row_okD [OF D(17) [OF t(2) tF(1)]]
  have j: "joiner x = nullptr" "t \<noteq> d" using r(4,11) t by auto
  have sh: "shape_ok (ts(t \<mapsto> x')) cs F u z'"
    if "shape_ok ts cs F u z" "no_preempt_flag z' = no_preempt_flag z" for u z z'
    by (rule shape_ok_cong [OF that(1)]) (use t x' that in auto)
  show ?thesis
  proof (rule table_okI, goal_cases)
    case (17 u z)
    show ?case
    proof (cases "u = t")
      case True
      then have "z = x'" using 17 by auto
      then show ?thesis using True r x' j t sh [of t x x'] by (intro row_okI) auto
    next
      case False
      with 17 have z: "ts u = Some z" "u \<notin> F" by auto
      show ?thesis
        using D(17) [OF z] sh [of u z z] False x' t by (auto simp: row_ok_def)
    qed
  qed (use D t tF x' in \<open>auto split: if_splits\<close>)
qed

text \<open>A new task, on a fresh object or one from the freelist, is scheduled.\<close>

lemma table_spawn:
  assumes T: "table_ok P ts cs R F d host H c" and t: "t \<notin> dom ts \<or> t \<in> F" "t \<noteq> nullptr"
    and x: "run_state x = SUSPENDED" "\<not> no_preempt_flag x" "joiner x = nullptr" "\<not> detached x" "entry x \<noteq> nullptr"
  shows "table_ok P (ts(t \<mapsto> x)) (cs(t := [Task_entry])) (insert t R) (F - {t}) d host (insert t H) c"
proof -
  note D = table_okD [OF T]
  have td: "t \<noteq> d" "t \<noteq> c" "t \<noteq> host" "t \<notin> R" "t \<notin> P" using t D(2,8,6,9,11,13,14,15,18,19) by auto
  have sh: "shape_ok (ts(t \<mapsto> x)) (cs(t := [Task_entry])) (F - {t}) u z"
    if "shape_ok ts cs F u z" "u \<noteq> t" for u z
    by (rule shape_ok_cong [OF that(1)]) (use t that in auto)
  show ?thesis
  proof (rule table_okI, goal_cases)
    case (17 u z)
    show ?case
    proof (cases "u = t")
      case True
      then have "z = x" using 17 by auto
      then show ?thesis using True x td by (intro row_okI) (auto simp: shape_ok_def)
    next
      case False
      with 17 have z: "ts u = Some z" "u \<notin> F" by auto
      have "joiner z \<noteq> t" if "joiner z \<noteq> nullptr"
        using row_okD(7,9) [OF D(17) [OF z]] t that by auto
      moreover have "waits (cs(t := [Task_entry])) u = waits cs u"
        using False by (simp add: fun_eq_iff)
      ultimately show ?thesis
        using D(17) [OF z] sh [of u z] False by (auto simp: row_ok_def)
    qed
  qed (use D t td x in \<open>auto split: if_splits\<close>)
qed

lemma table_ok_core:
  assumes T: "table_ok P ts cs R F d host H c" and t: "ts t = Some x" and c: "core x' = core x"
    and f: "t \<noteq> c \<Longrightarrow> no_preempt_flag x' = no_preempt_flag x"
  shows "table_ok P (ts(t \<mapsto> x')) cs R F d host H c"
proof -
  note D = table_okD [OF T]
  have sh: "shape_ok (ts(t \<mapsto> x')) cs F u z'"
    if "shape_ok ts cs F u z" "no_preempt_flag z' = no_preempt_flag z" for u z z'
    by (rule shape_ok_cong [OF that(1)]) (use t c that in \<open>auto simp: core_def\<close>)
  show ?thesis
  proof (rule table_okI, goal_cases)
    case (17 u z)
    then obtain z0 where z: "ts u = Some z0" "u \<notin> F" "core z = core z0"
        "u \<noteq> c \<Longrightarrow> no_preempt_flag z = no_preempt_flag z0"
      using t c f by (cases "u = t") auto
    have "u \<noteq> c \<Longrightarrow> shape_ok ts cs F u z0 \<Longrightarrow> shape_ok (ts(t \<mapsto> x')) cs F u z"
      using sh [of u z0 z] z(4) by simp
    moreover have "(\<exists>y. (ts(t \<mapsto> x')) a = Some y \<and> run_state y \<noteq> STOPPED)
        \<longleftrightarrow> (\<exists>y. ts a = Some y \<and> run_state y \<noteq> STOPPED)" for a
      using t c by (auto simp: core_def)
    ultimately show ?case
      using D(17) [OF z(1,2)] z(3) by (auto simp: row_ok_def core_def)
  qed (use D t c in \<open>auto simp: core_def split: if_splits\<close>)
qed

end
