(* ===== verification/Sched_Inv.thy ===== *)
theory Sched_Inv
  imports Sched_Table
begin

text \<open>
  The invariant of the scheduler between two calls of user code, and the proof that every
  call keeps it. \<open>sched_ok P H w\<close> says that one task runs and every other task is queued,
  waiting in \<open>join\<close>, parked by a waiter, stopped, or on the freelist, that the queues and locks are
  in order and that the task objects and their thread local storage lie on stacks of their own.
  \<open>P\<close> are the parked tasks, \<open>H\<close> the handles user code holds. The tasks that are created either all have thread local
  storage of their own (attribute \<open>alloc_tls\<close>) or none has, and they do not sleep. A task without
  storage runs on the storage in use when it is switched to, which is then the host task's.
\<close>

section \<open>Definitions\<close>

text \<open>The addresses of a task's stack.\<close>

definition region :: "task \<Rightarrow> addr set" where
  "region x = {a. unat (a - (stack_top x - total_stack_size x)) < unat (total_stack_size x)}"

text \<open>The control block a task runs on.\<close>

definition storage :: "gstate \<Rightarrow> task \<Rightarrow> addr" where
  "storage w x = after (if tls_ptr x = nullptr then tls_ptr (task_at w (host_task (node w))) else tls_ptr x)"

text \<open>
  Every task has a control block to run on. The object and the block of a created task lie on its
  stack, and nothing of another task does; only the host task has no stack.
\<close>

definition heap_ok :: "gstate \<Rightarrow> bool" where
  "heap_ok w \<longleftrightarrow>
     (\<exists>h. tasks w (host_task (node w)) = Some h \<and> tls_ptr h \<noteq> nullptr) \<and>
     (\<exists>own. \<forall>t x. tasks w t = Some x \<and> t \<noteq> host_task (node w) \<longrightarrow> has_tls x = own) \<and>
     (\<forall>t x. tasks w t = Some x \<longrightarrow>
        tcbs (tls w) (storage w x) \<noteq> None \<and> (stack_top x = nullptr \<longleftrightarrow> t = host_task (node w)) \<and>
        (stack_top x \<noteq> nullptr \<longrightarrow> t \<in> region x) \<and>
        (stack_top x \<noteq> nullptr \<and> tls_ptr x \<noteq> nullptr \<longrightarrow> after (tls_ptr x) \<in> region x)) \<and>
     (\<forall>t x u y. tasks w t = Some x \<and> tasks w u = Some y \<and> t \<noteq> u \<and> stack_top x \<noteq> nullptr \<longrightarrow>
        u \<notin> region x \<and> storage w y \<notin> region x)"

abbreviation rq_set :: "gstate \<Rightarrow> addr set" where
  "rq_set w \<equiv> set (runqueue (node_rq (node w)))"

abbreviation fl_set :: "gstate \<Rightarrow> addr set" where
  "fl_set w \<equiv> set (fl_list (freelist w))"

definition base_ok :: "gstate \<Rightarrow> bool" where
  "base_ok w \<longleftrightarrow>
     inited w \<and> end_handler_set w \<and> running (node w) \<and>
     rq_ok (vr_of w) (node_rq (node w)) \<and> distinct (runqueue (node_rq (node w))) \<and>
     sleepqueue (node_rq (node w)) = [] \<and> fl_ok w \<and> heap_ok w"

text \<open>The storage in use is that of task \<open>c\<close>, and names \<open>c\<close> and the node.\<close>

definition cur_ok :: "addr \<Rightarrow> gstate \<Rightarrow> bool" where
  "cur_ok c w \<longleftrightarrow>
     current_is c w \<and> current_node w = Root_node \<and>
     (\<exists>x. tasks w c = Some x \<and> fs (tls w) = storage w x)"

definition tab :: "addr set \<Rightarrow> addr set \<Rightarrow> addr \<Rightarrow> gstate \<Rightarrow> bool" where
  "tab P H c w \<longleftrightarrow>
     table_ok P (tasks w) (conts w) (rq_set w) (fl_set w) (deferred (node w)) (host_task (node w)) H c"

definition sched_ok :: "addr set \<Rightarrow> addr set \<Rightarrow> gstate \<Rightarrow> bool" where
  "sched_ok P H w \<longleftrightarrow>
     base_ok w \<and> \<not> spin_flag (node w) \<and>
     (\<exists>c x. cur_ok c w \<and> tab P H c w \<and> tasks w c = Some x \<and> run_state x = RUNNING
        \<and> \<not> no_preempt_flag x)"

text \<open>The tasks that waiters keep: waiting, not on the run queue, and not for a task to finish.\<close>

definition parked :: "gstate \<Rightarrow> addr set" where
  "parked w = {t. \<exists>x. tasks w t = Some x \<and> run_state x = WAITING \<and> t \<notin> rq_set w \<and> parks (conts w) t}"

text \<open>What stays the same of a task object for as long as it lives.\<close>

definition layout :: "task \<Rightarrow> addr \<times> size_t \<times> addr" where
  "layout x = (stack_top x, total_stack_size x, tls_ptr x)"

text \<open>
  The moment after a switch to \<open>n\<close>: no task runs, the storage is that of \<open>n\<close>, which has left
  the run queue.
\<close>

definition between :: "addr set \<Rightarrow> addr set \<Rightarrow> addr \<Rightarrow> gstate \<Rightarrow> bool" where
  "between P H n w \<longleftrightarrow>
     base_ok w \<and> cur_ok n w \<and> \<not> spin_flag (node w) \<and> n \<notin> rq_set w \<and>
     table_ok P (tasks w) (conts w) (insert n (rq_set w)) (fl_set w) (deferred (node w))
       (host_task (node w)) H nullptr"

text \<open>What the resumed user code gets: \<open>join\<close> delivers the return value of the joined task.\<close>

definition resumed_result :: "addr \<Rightarrow> gstate \<Rightarrow> result" where
  "resumed_result n w =
     (case conts w n of
        [_, _, _, In_join j want] \<Rightarrow>
          Handle_written nullptr (if want then Some (return_value (task_at w j)) else None)
      | _ \<Rightarrow> No_result)"

text \<open>What the deferred task of a node obeys, and what is left after it is given back.\<close>

definition deferred_ok :: "addr \<Rightarrow> gstate \<Rightarrow> bool" where
  "deferred_ok c w \<longleftrightarrow>
     (let d = deferred (node w)
      in d = nullptr \<or>
         d \<in> dom (tasks w) \<and> d \<noteq> c \<and> d \<notin> fl_set w \<and> d \<notin> rq_set w \<and> d \<noteq> host_task (node w))"

definition deferred_gone :: "(addr \<rightharpoonup> task) \<Rightarrow> addr set \<Rightarrow> addr \<Rightarrow> (addr \<rightharpoonup> task) \<Rightarrow> addr set \<Rightarrow> bool" where
  "deferred_gone ts F d ts' F' \<longleftrightarrow>
     (if d = nullptr then ts' = ts \<and> F' = F else given_back ts F d ts' F')"

text \<open>The running task after its virtual runtime is brought up to date.\<close>

abbreviation charged :: "clk \<Rightarrow> gstate \<Rightarrow> task \<Rightarrow> task" where
  "charged c w x \<equiv> x\<lparr>vruntime := vruntime x + ns_to_us (tick0 c - last_tick (node w))\<rparr>"

text \<open>The stopped tasks among \<open>H\<close> keep their objects, and with them their return values.\<close>

definition kept :: "addr set \<Rightarrow> gstate \<Rightarrow> gstate \<Rightarrow> bool" where
  "kept H w w' \<longleftrightarrow> (\<forall>u y. u \<in> H \<and> tasks w u = Some y \<and> run_state y = STOPPED \<longrightarrow> tasks w' u = Some y)"

text \<open>The control blocks that are left when the stack of \<open>x\<close> is unmapped.\<close>

abbreviation without_stack :: "task \<Rightarrow> gstate \<Rightarrow> addr \<rightharpoonup> tcbhead" where
  "without_stack x w \<equiv>
     (\<lambda>a. if unat (a - (stack_top x - total_stack_size x)) < unat (total_stack_size x) then None else tcbs (tls w) a)"

section \<open>Updates of task objects\<close>

lemma region_layout: "layout x' = layout x \<Longrightarrow> region x' = region x"
  by (simp add: layout_def region_def)

lemma heap_okD:
  assumes "heap_ok w" and "tasks w t = Some x"
  shows "tcbs (tls w) (storage w x) \<noteq> None" "stack_top x = nullptr \<longleftrightarrow> t = host_task (node w)"
    "stack_top x \<noteq> nullptr \<Longrightarrow> t \<in> region x"
    "stack_top x \<noteq> nullptr \<Longrightarrow> tls_ptr x \<noteq> nullptr \<Longrightarrow> after (tls_ptr x) \<in> region x"
    "tasks w u = Some y \<Longrightarrow> t \<noteq> u \<Longrightarrow> stack_top x \<noteq> nullptr \<Longrightarrow> u \<notin> region x \<and> storage w y \<notin> region x"
    "\<exists>h. tasks w (host_task (node w)) = Some h \<and> tls_ptr h \<noteq> nullptr"
    "tasks w u = Some y \<Longrightarrow> t \<noteq> host_task (node w) \<Longrightarrow> u \<noteq> host_task (node w) \<Longrightarrow> has_tls x = has_tls y"
  using assms unfolding heap_ok_def by blast+

lemma storage_cong:
  assumes "tasks w (host_task (node w)) = Some h" "tasks w' (host_task (node w)) = Some h'" "tls_ptr h' = tls_ptr h"
    and "host_task (node w') = host_task (node w)" and "tls_ptr x' = tls_ptr x"
  shows "storage w' x' = storage w x"
  using assms by (simp add: storage_def task_at_def)

text \<open>The heap of a state whose tasks are those of \<open>w\<close>, in the same places.\<close>

lemma heap_ok_sub:
  assumes h: "heap_ok w" and host: "host_task (node w') = host_task (node w)"
    and ts: "\<And>u z. tasks w' u = Some z \<Longrightarrow> \<exists>y. tasks w u = Some y \<and> layout z = layout y"
    and in': "tasks w' (host_task (node w)) \<noteq> None"
    and tcb: "\<And>u z y. tasks w' u = Some z \<Longrightarrow> tasks w u = Some y \<Longrightarrow> tcbs (tls w) (storage w y) \<noteq> None \<Longrightarrow>
       tcbs (tls w') (storage w y) \<noteq> None"
  shows "heap_ok w'"
proof -
  obtain h0 where h0: "tasks w (host_task (node w)) = Some h0" "tls_ptr h0 \<noteq> nullptr"
    using h by (auto simp: heap_ok_def)
  obtain h1 where h1: "tasks w' (host_task (node w)) = Some h1" using in' by blast
  have "tls_ptr h1 = tls_ptr h0" using ts [OF h1] h0(1) by (auto simp: layout_def)
  note h01 = h0(1) h1 this h0(2)
  have old: "\<exists>y. tasks w u = Some y \<and> stack_top z = stack_top y \<and> tls_ptr z = tls_ptr y \<and> region z = region y
      \<and> storage w' z = storage w y \<and> has_tls z = has_tls y" if z: "tasks w' u = Some z" for u z
  proof -
    obtain y where y: "tasks w u = Some y" "layout z = layout y" using ts [OF z] by blast
    then show ?thesis
      using region_layout [OF y(2)] storage_cong [OF h01(1-3) host, of z y] by (auto simp: layout_def has_tls_def)
  qed
  have "\<exists>own. \<forall>t x. tasks w' t = Some x \<and> t \<noteq> host_task (node w') \<longrightarrow> has_tls x = own"
    using h old host unfolding heap_ok_def by metis
  moreover have "tcbs (tls w') (storage w' z) \<noteq> None \<and> (stack_top z = nullptr \<longleftrightarrow> u = host_task (node w'))
      \<and> (stack_top z \<noteq> nullptr \<longrightarrow> u \<in> region z)
      \<and> (stack_top z \<noteq> nullptr \<and> tls_ptr z \<noteq> nullptr \<longrightarrow> after (tls_ptr z) \<in> region z)" if z: "tasks w' u = Some z" for u z
  proof -
    obtain y where y: "tasks w u = Some y" "stack_top z = stack_top y" "tls_ptr z = tls_ptr y" "region z = region y"
        "storage w' z = storage w y" using old [OF z] by blast
    show ?thesis using heap_okD(1-4) [OF h y(1)] tcb [OF z y(1)] y host by simp
  qed
  moreover have "v \<notin> region z \<and> storage w' y \<notin> region z"
    if z: "tasks w' u = Some z" "tasks w' v = Some y" "u \<noteq> v" "stack_top z \<noteq> nullptr" for u z v y
  proof -
    obtain z0 y0 where "tasks w u = Some z0" "stack_top z = stack_top z0" "region z = region z0"
        "tasks w v = Some y0" "storage w' y = storage w y0" using old [OF z(1)] old [OF z(2)] by blast
    then show ?thesis using heap_okD(5) [OF h, of u z0 v y0] z(3,4) by simp
  qed
  moreover have "\<exists>h. tasks w' (host_task (node w')) = Some h \<and> tls_ptr h \<noteq> nullptr" using h01 host by simp
  ultimately show ?thesis unfolding heap_ok_def by blast
qed

lemma heap_ok_upd:
  assumes h: "heap_ok w" and t: "tasks w t = Some x" and l: "layout x' = layout x"
    and w': "tasks w' = (tasks w)(t \<mapsto> x')" "host_task (node w') = host_task (node w)"
    and tcb: "\<And>a. tcbs (tls w) a \<noteq> None \<Longrightarrow> tcbs (tls w') a \<noteq> None"
  shows "heap_ok w'"
  by (rule heap_ok_sub [OF h w'(2)])
    (use t l w'(1) tcb heap_okD(6) [OF h t] in \<open>auto split: if_splits\<close>)

lemma fl_ok_upd:
  assumes "fl_ok w" and "tasks w t = Some x" and "layout x' = layout x"
    and "tasks w' = (tasks w)(t \<mapsto> x')" "freelist w' = freelist w"
  shows "fl_ok w'"
proof (rule fl_ok_cong [OF assms(1,5)])
  fix i assume "i \<in> set (fl_list (freelist w))"
  then obtain y where "tasks w i = Some y" using assms(1) by (auto simp: fl_ok_def Let_def)
  then show "\<exists>y. tasks w' i = Some y \<and>
      stack_size y = stack_size (task_at w i) \<and> has_tls y = has_tls (task_at w i)"
    using assms(2-4) by (cases "i = t") (auto simp: task_at_def layout_def stack_size_def has_tls_def)
qed

lemma vr_of_upd:
  assumes "t \<notin> set (runqueue q) \<or> vruntime x' = vruntime x" and "tasks w t = Some x"
    and "tasks w' = (tasks w)(t \<mapsto> x')" and "rq_ok (vr_of w) q"
  shows "rq_ok (vr_of w') q"
  by (rule rq_ok_vr_cong [OF assms(4)]) (use assms(1-3) in \<open>auto simp: vr_of_def\<close>)

lemma base_ok_cong:
  assumes "tasks w' = tasks w" "tcbs (tls w') = tcbs (tls w)" "freelist w' = freelist w"
    "node_rq (node w') = node_rq (node w)" "host_task (node w') = host_task (node w)"
    "running (node w') = running (node w)" "inited w' = inited w" "end_handler_set w' = end_handler_set w"
  shows "base_ok w' = base_ok w"
  unfolding base_ok_def heap_ok_def storage_def fl_ok_def vr_of_def [abs_def] task_at_def [abs_def] assms ..

lemma cur_ok_cong:
  assumes "tasks w' = tasks w" "tls w' = tls w" "g_current_sched_node w' = g_current_sched_node w"
    "host_task (node w') = host_task (node w)"
  shows "cur_ok c w' = cur_ok c w"
  unfolding cur_ok_def current_is_def current_node_def storage_def task_at_def assms ..

lemma cur_ok_upd:
  assumes cur: "cur_ok c w" and t: "tasks w t = Some x" "tls_ptr x' = tls_ptr x"
    and w': "tasks w' = (tasks w)(t \<mapsto> x')" "tls w' = tls w" "host_task (node w') = host_task (node w)"
      "g_current_sched_node w' = g_current_sched_node w"
  shows "cur_ok c w'"
proof -
  have st: "tls_ptr z' = tls_ptr z \<Longrightarrow> storage w' z' = storage w z" for z z'
    using t w' by (auto simp: storage_def task_at_def)
  obtain y where y: "tasks w c = Some y" "fs (tls w) = storage w y" using cur by (auto simp: cur_ok_def)
  have "\<exists>z. tasks w' c = Some z \<and> tls_ptr z = tls_ptr y" using y(1) t w'(1) by (cases "c = t") auto
  then obtain z where z: "tasks w' c = Some z" "tls_ptr z = tls_ptr y" by blast
  have "fs (tls w') = storage w' z" using y(2) st [OF z(2)] w'(2) by simp
  then show ?thesis using cur z(1) w' by (auto simp: cur_ok_def current_is_def current_node_def)
qed

lemma base_ok_rq:
  assumes b: "base_ok w" and q: "rq_ok (vr_of w) q" "distinct (runqueue q)" "sleepqueue q = []"
    and w': "tasks w' = tasks w" "tcbs (tls w') = tcbs (tls w)" "freelist w' = freelist w"
      "node_rq (node w') = q" "host_task (node w') = host_task (node w)"
      "running (node w') = running (node w)" "inited w' = inited w" "end_handler_set w' = end_handler_set w"
  shows "base_ok w'"
proof -
  have "heap_ok w' = heap_ok w" "fl_ok w' = fl_ok w" "vr_of w' = vr_of w"
    unfolding heap_ok_def storage_def fl_ok_def vr_of_def [abs_def] task_at_def [abs_def] w' by (rule refl)+
  then show ?thesis using b q w' by (simp add: base_ok_def)
qed

lemma base_ok_upd:
  assumes b: "base_ok w" and t: "tasks w t = Some x" "layout x' = layout x"
    and v: "t \<notin> rq_set w \<or> vruntime x' = vruntime x"
    and w': "tasks w' = (tasks w)(t \<mapsto> x')" "node_rq (node w') = node_rq (node w)"
      "host_task (node w') = host_task (node w)" "freelist w' = freelist w" "inited w' = inited w"
      "end_handler_set w' = end_handler_set w" "running (node w') = running (node w)"
    and tcb: "\<And>a. tcbs (tls w) a \<noteq> None \<Longrightarrow> tcbs (tls w') a \<noteq> None"
  shows "base_ok w'"
proof -
  have "heap_ok w'" using b heap_ok_upd [OF _ t w'(1,3) tcb] by (simp add: base_ok_def)
  moreover have "fl_ok w'" using b fl_ok_upd [OF _ t w'(1,4)] by (simp add: base_ok_def)
  moreover have "rq_ok (vr_of w') (node_rq (node w'))"
    using b vr_of_upd [OF v t(1) w'(1)] w'(2) by (simp add: base_ok_def)
  ultimately show ?thesis using b w' by (simp add: base_ok_def)
qed

section \<open>Giving tasks back\<close>

lemma host_no_drop: "tab P H c w \<Longrightarrow> host_task (node w) \<notin> fl_set w"
  by (auto simp: tab_def table_ok_def)

text \<open>Destroying a task takes its object and the control blocks on its stack.\<close>

lemma task_destroy_Ret:
  assumes h: "heap_ok w" and t: "tasks w t = Some x" "t \<noteq> host_task (node w)"
  shows "task_destroy e t w = Ret () (w\<lparr>tasks := (tasks w)(t := None),
     os_trace := os_trace w @ snd (free_stack (kernel e) (stack_top x - total_stack_size x) (total_stack_size x)),
     tls := (tls w)\<lparr>tcbs := without_stack x w\<rparr>\<rparr>)"
proof -
  note hx = heap_okD [OF h t(1)]
  have st: "stack_top x \<noteq> nullptr" using hx(2) t(2) by auto
  have tcbs_eq: "unmap_tcbs (stack_top x - total_stack_size x) (total_stack_size x)
      ((tls w)\<lparr>tcbs := (tcbs (tls w))(after (tls_ptr x) \<mapsto> z)\<rparr>) = (tls w)\<lparr>tcbs := without_stack x w\<rparr>"
    if "tls_ptr x \<noteq> nullptr" for z
  proof -
    have "(\<lambda>a. if unat (a - (stack_top x - total_stack_size x)) < unat (total_stack_size x) then None
        else ((tcbs (tls w))(after (tls_ptr x) \<mapsto> z)) a) = without_stack x w"
      using hx(4) [OF st that] by (auto simp: region_def)
    then show ?thesis unfolding unmap_tcbs_def tls_state.select_convs tls_state.update_convs
      by (simp cong: if_cong)
  qed
  show ?thesis
  proof (cases "tls_ptr x = nullptr")
    case True
    then show ?thesis using t st by (simp add: task_destroy_def task_dtor_def Let_def unmap_tcbs_def)
  next
    case False
    then obtain tcb where "tcbs (tls w) (after (tls_ptr x)) = Some tcb" using hx(1) by (auto simp: storage_def)
    then show ?thesis
      using t st False by (simp add: task_destroy_def task_dtor_def tls_dtor_def Let_def tcbs_eq)
  qed
qed

text \<open>Destroying a task that is on no queue leaves the storage of every other task alone.\<close>

lemma task_destroy_ok:
  assumes b: "base_ok w" and cur: "cur_ok c w" and t: "tasks w t = Some x"
    and tn: "t \<noteq> c" "t \<noteq> host_task (node w)" "t \<notin> fl_set w" "t \<notin> rq_set w"
  shows "\<exists>w'. task_destroy e t w = Ret () w' \<and> base_ok w' \<and> cur_ok c w' \<and> conts w' = conts w
    \<and> node w' = node w \<and> freelist w' = freelist w \<and> tasks w' = (tasks w)(t := None)"
proof -
  have h: "heap_ok w" using b by (simp add: base_ok_def)
  note hx = heap_okD [OF h t] and eq = task_destroy_Ret [OF h t tn(2), of e]
  have st: "stack_top x \<noteq> nullptr" using hx(2) tn by auto
  let ?w = "w\<lparr>tasks := (tasks w)(t := None),
     os_trace := os_trace w @ snd (free_stack (kernel e) (stack_top x - total_stack_size x) (total_stack_size x)),
     tls := (tls w)\<lparr>tcbs := without_stack x w\<rparr>\<rparr>"
  have keep: "without_stack x w (storage w y) = tcbs (tls w) (storage w y)"
    if "tasks w u = Some y" "u \<noteq> t" for u y
    using hx(5) [OF that(1)] that(2) st by (simp add: region_def)
  have "heap_ok ?w"
  proof (rule heap_ok_sub [OF h])
    fix u z y assume "tasks ?w u = Some z" "tasks w u = Some y" "tcbs (tls w) (storage w y) \<noteq> None"
    then show "tcbs (tls ?w) (storage w y) \<noteq> None" using keep [of u y] by (auto split: if_splits)
  qed (use tn heap_okD(6) [OF h t] in \<open>auto split: if_splits\<close>)
  moreover have "fl_ok ?w"
    by (rule fl_ok_cong [of w]) (use b tn in \<open>auto simp: base_ok_def fl_ok_def Let_def task_at_def\<close>)
  moreover have "rq_ok (vr_of ?w) (node_rq (node w))"
    by (rule rq_ok_vr_cong [of "vr_of w"]) (use b tn in \<open>auto simp: base_ok_def vr_of_def\<close>)
  ultimately have "base_ok ?w" using b by (simp add: base_ok_def)
  moreover have "cur_ok c ?w"
  proof -
    obtain xc where xc: "tasks w c = Some xc" "fs (tls w) = storage w xc" using cur by (auto simp: cur_ok_def)
    moreover have "storage ?w xc = storage w xc" using tn by (simp add: storage_def task_at_def)
    ultimately show ?thesis
      using cur tn keep [of c xc] by (simp add: cur_ok_def current_is_def current_node_def)
  qed
  ultimately show ?thesis using eq by auto
qed

lemma return_task_ok:
  assumes b: "base_ok w" and cur: "cur_ok c w" and t: "tasks w t = Some x" "t \<noteq> c" "t \<notin> fl_set w"
    and tn: "t \<noteq> nullptr" "t \<noteq> host_task (node w)" "t \<notin> rq_set w"
  shows "\<exists>w'. return_task e t w = Ret () w' \<and> base_ok w' \<and> cur_ok c w' \<and> node w' = node w
    \<and> conts w' = conts w \<and> given_back (tasks w) (fl_set w) t (tasks w') (fl_set w')"
proof -
  have fl: "fl_ok w" using b by (simp add: base_ok_def)
  show ?thesis
  proof (cases "length (fl_list (freelist w)) < fl_max_size (freelist w)")
    case True
    let ?l = "insert_before (\<lambda>i j. goes_before (task_at w i) (task_at w j)) t (fl_list (freelist w))"
    note r = fl_ok_return(1) [OF fl t(1,3) tn(1) True, of e] fl_ok_return(2) [OF fl t(1,3) tn(1) True]
    have "heap_ok (set_fl_list ?l w) = heap_ok w" "vr_of (set_fl_list ?l w) = vr_of w"
      unfolding heap_ok_def storage_def task_at_def vr_of_def [abs_def] by (simp_all add: set_fl_list_def)
    then have "base_ok (set_fl_list ?l w)"
      using b r(2) by (simp add: base_ok_def) (simp add: set_fl_list_def)
    moreover have "cur_ok c (set_fl_list ?l w)"
      using cur by (subst cur_ok_cong) (simp_all add: set_fl_list_def)
    ultimately show ?thesis
      using r(1) by (intro exI [of _ "set_fl_list ?l w"]) (simp add: set_fl_list_def given_back_def)
  next
    case False
    then show ?thesis
      using task_destroy_ok [OF b cur t(1,2) tn(2) t(3) tn(3), of e]
      by (auto simp: return_task_def given_back_def)
  qed
qed

lemma deferred_gone_other:
  "deferred_gone ts F d ts' F' \<Longrightarrow> (d \<noteq> nullptr \<Longrightarrow> u \<noteq> d) \<Longrightarrow> ts' u = ts u"
  by (auto simp: deferred_gone_def given_back_def split: if_splits)

lemma deferred_ok_table:
  assumes "table_ok P ts cs R F d host H c" "c \<noteq> nullptr" "d \<noteq> nullptr"
  shows "d \<in> dom ts" "d \<noteq> c" "d \<notin> F" "d \<notin> R" "d \<noteq> host"
proof -
  note D = table_okD [OF assms(1)]
  show "d \<in> dom ts" "d \<noteq> c" "d \<notin> F" "d \<notin> R" using D(7,8,13,14) assms(2,3) by auto
  obtain y where "ts d = Some y" using D(13) assms(3) by auto
  then show "d \<noteq> host" using D(15) row_okD(11) [OF D(17) [of d y]] D(8) by auto
qed

lemma table_deferred_gone:
  assumes T: "table_ok P ts cs R F d host H c" and g: "deferred_gone ts F d ts' F'"
  shows "table_ok P ts' cs R F' nullptr host H c"
proof (cases "d = nullptr")
  case False
  then show ?thesis
    using g table_given_back [OF table_return_deferred [OF T False]] table_okD(8) [OF T]
    by (simp add: deferred_gone_def)
qed (use g T in \<open>simp add: deferred_gone_def\<close>)

lemma return_deferred_ok:
  assumes b: "base_ok w" and cur: "cur_ok c w" and d: "deferred_ok c w"
  shows "\<exists>w'. return_deferred e w = Ret () w' \<and> base_ok w' \<and> cur_ok c w'
    \<and> node w' = (node w)\<lparr>deferred := nullptr\<rparr> \<and> conts w' = conts w
    \<and> deferred_gone (tasks w) (fl_set w) (deferred (node w)) (tasks w') (fl_set w')"
proof (cases "deferred (node w) = nullptr")
  case True
  then have "(node w)\<lparr>deferred := nullptr\<rparr> = node w" by simp
  with True show ?thesis using assms by (simp add: return_deferred_def deferred_gone_def)
next
  case False
  let ?d = "deferred (node w)"
  obtain x where "tasks w ?d = Some x" using d False by (auto simp: deferred_ok_def Let_def)
  from return_task_ok [OF b cur this, of e] d False
  obtain w' where w': "return_task e ?d w = Ret () w'" "base_ok w'" "cur_ok c w'" "node w' = node w"
    "conts w' = conts w" "given_back (tasks w) (fl_set w) ?d (tasks w') (fl_set w')"
    by (auto simp: deferred_ok_def Let_def)
  let ?w = "set_node (\<lambda>n. n\<lparr>deferred := nullptr\<rparr>) w'"
  have "base_ok ?w" "cur_ok c ?w"
    using w'(2,3) by (subst base_ok_cong cur_ok_cong; simp add: set_node_def)+
  then show ?thesis
    using w' False by (intro exI [of _ ?w]) (simp add: return_deferred_def set_node_def deferred_gone_def)
qed

section \<open>Choosing the next task\<close>

lemma get_next_task_ok:
  fixes w :: gstate and c :: addr and x :: task and cl :: clk
  assumes b: "base_ok w" and c: "c \<notin> rq_set w" "tasks w c = Some x" "c \<noteq> nullptr"
  defines "R1 \<equiv> if run_state x = RUNNING then insert c (rq_set w) else rq_set w"
  defines "d1 \<equiv> if run_state x = STOPPED \<and> detached x then c else deferred (node w)"
  defines "w1 \<equiv> w\<lparr>tasks := (tasks w)(c \<mapsto> charged cl w x)\<rparr>"
  assumes ne: "R1 \<noteq> {}"
  shows "\<exists>n q. get_next_task cl c w =
      Ret n (w1\<lparr>node := (node w)\<lparr>deferred := d1, node_rq := q, last_tick := tick1 cl\<rparr>\<rparr>)
    \<and> n \<in> R1 \<and> set (runqueue q) = R1 - {n} \<and> distinct (runqueue q) \<and> sleepqueue q = []
    \<and> rq_ok (vr_of w1) q \<and> (\<forall>u. u \<in> R1 \<longrightarrow> vr_of w1 n \<le> vr_of w1 u)"
proof -
  let ?q = "node_rq (node w)"
  let ?q1 = "if run_state x = RUNNING then rq_push (vr_of w1) c ?q else ?q"
  have ok: "rq_ok (vr_of w1) ?q"
    by (rule vr_of_upd [OF _ c(2)]) (use b c w1_def in \<open>auto simp: base_ok_def\<close>)
  then have ok1: "rq_ok (vr_of w1) ?q1" using c by (simp add: rq_ok_push)
  have q1: "set (runqueue ?q1) = R1" "distinct (runqueue ?q1)" "sleepqueue ?q1 = []"
    using b c by (auto simp: R1_def base_ok_def)
  then have "runqueue ?q1 \<noteq> []" using ne by auto
  then obtain n q where take: "rq_take (vr_of w1) ?q1 = Ret n q"
    using rq_take_nonempty [OF ok1] by blast
  then have pop: "rq_pop (vr_of w1) (wall0 cl) (wall1 cl) ?q1 = Ret n q"
    using rq_pop_no_sleepers [OF ok1 q1(3)] \<open>runqueue ?q1 \<noteq> []\<close> by simp
  note r = rq_take_Ret [OF ok1 take]
  have vr: "vr_of (w1\<lparr>node := m\<rparr>) = vr_of w1" for m
    by (simp add: vr_of_def fun_eq_iff)
  note defs = get_next_task_def lift_rq_def set_rq_def set_node_def d1_def Let_def
  have w1: "upd_task c (charged cl w) w = Ret () w1" "tasks w1 c = Some (charged cl w x)"
      "node w1 = node w"
    using c by (simp_all add: w1_def)
  have "get_next_task cl c w =
      Ret n (w1\<lparr>node := (node w)\<lparr>deferred := d1, node_rq := q, last_tick := tick1 cl\<rparr>\<rparr>)"
  proof (cases "run_state x = RUNNING")
    case True
    then show ?thesis using w1 pop by (simp add: defs vr)
  next
    case False
    then show ?thesis using w1 pop by (cases "run_state x = STOPPED \<and> detached x") (auto simp: defs vr)
  qed
  moreover have "n \<in> R1" "set (runqueue q) = R1 - {n}" "distinct (runqueue q)"
    using r(1) q1 by auto
  ultimately show ?thesis
    using r(2,4,6) q1 by (intro exI [of _ n] exI [of _ q]) simp
qed

section \<open>Resuming a task\<close>

lemma spin_flag_self [simp]: "\<not> spin_flag m \<Longrightarrow> m\<lparr>spin_flag := False\<rparr> = m"
  by (cases m) simp

lemma spin_lock_free [simp]:
  "\<not> spin_flag (node w) \<Longrightarrow> spin_lock w = Ret () (w\<lparr>node := (node w)\<lparr>spin_flag := True\<rparr>\<rparr>)"
  by (simp add: spin_lock_def spin_try_lock_def set_node_def)

lemma spin_unlock_Ret [simp]: "spin_unlock w = Ret () (w\<lparr>node := (node w)\<lparr>spin_flag := False\<rparr>\<rparr>)"
  by (simp add: spin_unlock_def set_node_def)

text \<open>The activations up to the end of the critical section, which every suspended task has.\<close>

lemma run_frames_yield:
  assumes "current_is n w" "tasks w n = Some x" "no_preempt_flag x" "\<not> spin_flag (node w)"
    and f: "f = In_sched_yield \<or> f = In_trap"
  defines "w1 \<equiv> w\<lparr>tasks := (tasks w)(n \<mapsto> x\<lparr>run_state := RUNNING, no_preempt_flag := False\<rparr>)\<rparr>"
  shows "run_frames e cl [In_switch_to n, In_node_yield, f] w = Ret No_result w1"
    and "run_frames e cl [In_switch_to n, In_node_yield, f, In_join j want] w = join_finish e cl j want w1"
  using assms(1-4) f by (auto simp: finish_switch_def preempt_unlock_def w1_def)

lemma resume_enter:
  assumes "current_is n w" "tasks w n = Some x" "conts w n = [Task_entry]" "\<not> no_preempt_flag x"
  shows "resume e cl w =
    Ret No_result (w\<lparr>tasks := (tasks w)(n \<mapsto> x\<lparr>run_state := RUNNING, no_preempt_flag := False\<rparr>)\<rparr>)"
proof -
  have "x\<lparr>run_state := RUNNING\<rparr> = x\<lparr>run_state := RUNNING, no_preempt_flag := False\<rparr>"
    using assms(4) by (cases x) simp
  from arg_cong [OF this, of "\<lambda>z. w\<lparr>tasks := (tasks w)(n \<mapsto> z)\<rparr>"] show ?thesis
    using assms by (simp add: resume_def enter_task_def)
qed

lemma between_run:
  assumes B: "between P H n w" and x: "tasks w n = Some x"
  defines "w1 \<equiv> w\<lparr>tasks := (tasks w)(n \<mapsto> x\<lparr>run_state := RUNNING, no_preempt_flag := False\<rparr>)\<rparr>"
  shows "base_ok w1" "cur_ok n w1"
proof -
  show "base_ok w1"
    by (rule base_ok_upd [of w n x]) (use B x in \<open>auto simp: between_def layout_def w1_def\<close>)
  show "cur_ok n w1"
    by (rule cur_ok_upd [of n w n x]) (use B x in \<open>auto simp: between_def w1_def\<close>)
qed

lemma sched_okI:
  assumes "base_ok w" "\<not> spin_flag (node w)" "cur_ok c w" "tab P H c w" "tasks w c = Some x"
    "run_state x = RUNNING" "\<not> no_preempt_flag x"
  shows "sched_ok P H w"
  using assms by (auto simp: sched_ok_def)

text \<open>A resumed task runs in a state that satisfies the invariant.\<close>

lemma resume_ok:
  assumes B: "between P H n w"
  shows "\<exists>w'. resume e cl w = Ret (resumed_result n w) w' \<and> sched_ok P H w' \<and> cur_ok n w'
    \<and> (\<forall>u. u \<in> insert n (rq_set w) \<longrightarrow> vr_of w' u = vr_of w u) \<and> kept H w w'
    \<and> conts w' = conts w \<and> rq_set w' = rq_set w
    \<and> (\<exists>x x'. tasks w n = Some x \<and> tasks w' n = Some x' \<and> entry x' = entry x \<and> joiner x' = joiner x \<and> tls_ptr x' = tls_ptr x)"
proof -
  obtain x where x: "tasks w n = Some x" using B by (auto simp: between_def cur_ok_def)
  have cur: "current_is n w" and spin: "\<not> spin_flag (node w)"
    and T: "table_ok P (tasks w) (conts w) (insert n (rq_set w)) (fl_set w) (deferred (node w))
       (host_task (node w)) H nullptr"
    and nR: "insert n (rq_set w) - {n} = rq_set w" and ini: "inited w"
    using B by (auto simp: between_def cur_ok_def base_ok_def)
  note D = table_okD [OF T]
  have nF: "n \<notin> fl_set w" "n \<noteq> deferred (node w)" "n \<noteq> nullptr" using D(1,7,9) x by auto
  note r = row_okD [OF D(17) [OF x nF(1)]]
  have shape: "shape_ok (tasks w) (conts w) (fl_set w) n x" and run: "run_state x \<noteq> STOPPED"
    using r(13,14) nF by auto
  let ?w1 = "w\<lparr>tasks := (tasks w)(n \<mapsto> x\<lparr>run_state := RUNNING, no_preempt_flag := False\<rparr>)\<rparr>"
  note w1 = between_run [OF B x]
  have plain: ?thesis if res: "resume e cl w = Ret No_result ?w1" and "\<And>j. \<not> waits (conts w) n j"
      and "resumed_result n w = No_result"
  proof -
    have "tab P H n ?w1"
      using table_take [OF T _ x that(2), where x' = "x\<lparr>run_state := RUNNING, no_preempt_flag := False\<rparr>"] nR
      by (simp add: tab_def)
    then have "sched_ok P H ?w1" by (intro sched_okI [OF w1(1) _ w1(2)]) (use spin in auto)
    then show ?thesis using that w1(2) x run by (auto simp: vr_of_def kept_def)
  qed
  from shape consider "conts w n = [Task_entry]" "\<not> no_preempt_flag x"
    | f where "no_preempt_flag x" "f = In_sched_yield \<or> f = In_trap" "conts w n = [In_switch_to n, In_node_yield, f]"
    | j want where "no_preempt_flag x" "conts w n = [In_switch_to n, In_node_yield, In_sched_yield, In_join j want]"
    | "no_preempt_flag x" "conts w n = [In_switch_to n, In_swap]"
    by (auto simp: shape_ok_def waits_def)
  then show ?thesis
  proof cases
    case 1
    then show ?thesis
      by (intro plain) (simp_all add: resume_enter [OF cur x] resumed_result_def)
  next
    case (2 f)
    then show ?thesis
      using run_frames_yield(1) [OF cur x 2(1) spin 2(2)] cur
      by (intro plain) (auto simp: resume_def resumed_result_def waits_def)
  next
    case (3 j want)
    have wt: "waits (conts w) n j" using 3(2) by (simp add: waits_def)
    obtain y where y: "tasks w j = Some y" "run_state y = STOPPED" "j \<notin> fl_set w" "j \<noteq> n" "joiner y = n"
      using table_join_stopped [OF T _ wt] by auto
    have jH: "j \<notin> H" using row_okD(4) [OF D(17) [OF y(1,3)]] y(5) nF(3) by auto
    have res: "resume e cl w = join_finish e cl j want ?w1"
      using run_frames_yield(2) [OF cur x 3(1) spin] 3(2) cur by (simp add: resume_def)
    have T1: "table_ok P (tasks ?w1) (conts ?w1) (rq_set ?w1) (insert j (fl_set ?w1)) (deferred (node ?w1))
        (host_task (node ?w1)) H n"
      using table_take_join [OF T _ x wt, where x' = "x\<lparr>run_state := RUNNING, no_preempt_flag := False\<rparr>"] nR
      by simp
    note D1 = table_okD [OF T1]
    have jd: "tasks ?w1 j = Some y" "j \<noteq> n" "j \<notin> fl_set ?w1" "j \<noteq> nullptr" "j \<noteq> host_task (node ?w1)"
        "j \<notin> rq_set ?w1"
      using y D(1) D1(9,11) by auto
    obtain w' where w': "return_task e j ?w1 = Ret () w'" "base_ok w'" "cur_ok n w'" "node w' = node ?w1"
      "conts w' = conts ?w1" "given_back (tasks ?w1) (fl_set ?w1) j (tasks w') (fl_set w')"
      using return_task_ok [OF w1 jd, of e] by blast
    have tb: "tab P H n w'"
      using table_given_back [OF T1 _ w'(6)] jd w'(4,5) by (simp add: tab_def)
    have "sched_ok P H w'"
      by (rule sched_okI [OF w'(2) _ w'(3) tb])
        (use w'(4) given_back_other [OF w'(6), of n] spin y in auto)
    moreover have "join_finish e cl j want ?w1 = Ret (resumed_result n w) w'"
      using y ini w'(1) 3(2)
      by (simp add: join_finish_def sched_context_get_def resumed_result_def task_at_def)
    moreover have "vr_of w' u = vr_of w u" if "u \<in> insert n (rq_set w)" for u
    proof -
      have "u \<noteq> j" using that jd(2,6) by auto
      then show ?thesis using given_back_other [OF w'(6), of u] x by (auto simp: vr_of_def)
    qed
    moreover have "kept H w w'"
      using given_back_other [OF w'(6)] jH x run by (fastforce simp: kept_def)
    moreover have "tasks w' n = tasks ?w1 n" using given_back_other [OF w'(6), of n] jd(2) by simp
    ultimately show ?thesis using res w'(3-5) x by simp
  next
    case 4
    then show ?thesis
      using cur x
      by (intro plain) (auto simp: resume_def finish_switch_def preempt_unlock_def resumed_result_def waits_def)
  qed
qed

section \<open>Yielding\<close>

lemma switched_tls_dom: "tcbs st a \<noteq> None \<Longrightarrow> tcbs (switched_tls n y st) a \<noteq> None"
  by (auto simp: switched_tls_def)

lemma switch_ok:
  assumes b: "base_ok w" and cur: "cur_ok c w" and c: "tasks w c = Some x"
    and n: "tasks w n = Some y" "n \<noteq> c"
  shows "\<exists>w'. switch_to_internal n (Some set_current_node) k w = Ret Switched w' \<and> base_ok w' \<and> cur_ok n w'
    \<and> tasks w' = (tasks w)(c \<mapsto> demoted x) \<and> conts w' = (conts w)(c := In_switch_to c # k)
    \<and> node w' = node w \<and> freelist w' = freelist w"
proof -
  have h: "heap_ok w" using b by (simp add: base_ok_def)
  note hn = heap_okD [OF h n(1)]
  let ?w2 = "w\<lparr>tasks := (tasks w)(c \<mapsto> demoted x), tls := switched_tls n y (tls w)\<rparr>"
  let ?w3 = "(set_current_node ?w2)\<lparr>conts := (conts w)(c := In_switch_to c # k)\<rparr>"
  have cw: "current_is c w" and fc: "fs (tls w) = storage w x" using cur c by (auto simp: cur_ok_def)
  have fn: "fs (tls w) = storage w y" if "tls_ptr y = nullptr"
  proof (cases "c = host_task (node w)")
    case True
    then have "tls_ptr x \<noteq> nullptr" using heap_okD(6) [OF h c] c by auto
    then show ?thesis using fc that True c by (simp add: storage_def task_at_def)
  next
    case False
    moreover have "n \<noteq> host_task (node w)" using hn(6) n(1) that by auto
    ultimately have "has_tls x = has_tls y" using heap_okD(7) [OF h c n(1)] by simp
    then have "tls_ptr x = nullptr" using that by (simp add: has_tls_def)
    then show ?thesis using fc that by (simp add: storage_def)
  qed
  have blk: "tls_ptr y \<noteq> nullptr \<longrightarrow> tcbs (tls w) (after (tls_ptr y)) \<noteq> None"
    using hn(1) by (auto simp: storage_def)
  have sw: "switch_to_internal n (Some set_current_node) k w = Ret Switched ?w3"
    using switch_to_internal_Ret [OF cw n(2) c n(1) blk, of "Some set_current_node" k]
    by (simp add: set_current_node_def)
  have lay: "layout (demoted x) = layout x" "vruntime (demoted x) = vruntime x"
    by (simp_all add: demoted_def layout_def)
  have "base_ok ?w3"
    by (rule base_ok_upd [OF b c lay(1)])
      (simp_all add: set_current_node_def lay switched_tls_dom)
  moreover have "cur_ok n ?w3"
  proof -
    have "storage ?w3 y = storage w y"
      using c by (auto simp: storage_def task_at_def set_current_node_def demoted_def)
    moreover have "fs (switched_tls n y (tls w)) = storage w y"
      using fn by (auto simp: switched_tls_def storage_def)
    moreover have "\<exists>tcb. tcbs (switched_tls n y (tls w)) (fs (switched_tls n y (tls w))) = Some tcb \<and> thread tcb = n"
      by (simp add: switched_tls_def)
    ultimately show ?thesis
      using n by (simp add: cur_ok_def current_is_def current_node_def set_current_node_def)
  qed
  ultimately show ?thesis
    using sw by (intro exI [of _ ?w3]) (simp add: set_current_node_def)
qed

text \<open>
  \<open>yield\<close> under the preemption lock: it hands back the deferred task, charges the running task,
  puts it where its state says and gives control to the task of least runtime.
\<close>

lemma node_yield_ok:
  fixes w :: gstate and c :: addr and x :: task and cl :: clk
  assumes b: "base_ok w" and cur: "cur_ok c w" and spin: "\<not> spin_flag (node w)"
    and c: "tasks w c = Some x" "c \<notin> rq_set w" "c \<noteq> nullptr" and d: "deferred_ok c w"
    and dom: "rq_set w \<subseteq> dom (tasks w)"
    and R1_def: "R1 = (if run_state x = RUNNING then insert c (rq_set w) else rq_set w)"
    and d1_def: "d1 = (if run_state x = STOPPED \<and> detached x then c else nullptr)"
    and ne: "R1 \<noteq> {}"
  shows "\<exists>n w' ts F. n \<in> R1 \<and> deferred_gone (tasks w) (fl_set w) (deferred (node w)) ts F
    \<and> node_yield e cl k w = Ret (if n = c then Returned else Switched) w'
    \<and> base_ok w' \<and> cur_ok n w' \<and> \<not> spin_flag (node w') \<and> rq_set w' = R1 - {n} \<and> fl_set w' = F
    \<and> deferred (node w') = d1 \<and> host_task (node w') = host_task (node w)
    \<and> tasks w' = ts(c \<mapsto> if n = c then charged cl w x else demoted (charged cl w x))
    \<and> conts w' = (if n = c then conts w else (conts w)(c := In_switch_to c # In_node_yield # k))
    \<and> (\<forall>u. u \<in> R1 \<longrightarrow> vr_of w' n \<le> vr_of w' u)"
proof -
  let ?w1 = "w\<lparr>node := (node w)\<lparr>spin_flag := True\<rparr>\<rparr>"
  have b1: "base_ok ?w1" and cur1: "cur_ok c ?w1"
    using b cur by (subst base_ok_cong cur_ok_cong; simp)+
  have d1: "deferred_ok c ?w1" using d by (simp add: deferred_ok_def)
  obtain w2 where w2: "return_deferred e ?w1 = Ret () w2" "base_ok w2" "cur_ok c w2"
    "node w2 = (node w)\<lparr>spin_flag := True, deferred := nullptr\<rparr>" "conts w2 = conts w"
    "deferred_gone (tasks w) (fl_set w) (deferred (node w)) (tasks w2) (fl_set w2)"
    using return_deferred_ok [OF b1 cur1 d1, of e] by auto
  have c2: "tasks w2 c = Some x"
    using c(1) d by (subst deferred_gone_other [OF w2(6)]) (auto simp: deferred_ok_def Let_def)
  have dom2: "rq_set w2 \<subseteq> dom (tasks w2)"
  proof
    fix u assume "u \<in> rq_set w2"
    then have u: "u \<in> rq_set w" using w2(4) by simp
    then have "tasks w2 u = tasks w u"
      using d by (intro deferred_gone_other [OF w2(6)]) (auto simp: deferred_ok_def Let_def)
    then show "u \<in> dom (tasks w2)" using u dom by (auto simp: dom_def)
  qed
  have R1: "R1 = (if run_state x = RUNNING then insert c (rq_set w2) else rq_set w2)"
    using w2(4) by (simp add: R1_def)
  let ?x = "charged cl w x"
  let ?wc = "w2\<lparr>tasks := (tasks w2)(c \<mapsto> ?x)\<rparr>"
  have lt: "last_tick (node w2) = last_tick (node w)" using w2(4) by simp
  have nd: "(node w2)\<lparr>deferred := (if run_state x = STOPPED \<and> detached x then c else deferred (node w2)),
      node_rq := q, last_tick := t\<rparr>
      = (node w)\<lparr>spin_flag := True, deferred := d1, node_rq := q, last_tick := t\<rparr>" for q t
    using w2(4) by (simp add: d1_def)
  have c2': "c \<notin> rq_set w2" using c(2) w2(4) by simp
  obtain n q where q: "get_next_task cl c w2
      = Ret n (?wc\<lparr>node := (node w)\<lparr>spin_flag := True, deferred := d1, node_rq := q, last_tick := tick1 cl\<rparr>\<rparr>)"
    "n \<in> R1" "set (runqueue q) = R1 - {n}" "distinct (runqueue q)" "sleepqueue q = []"
    "rq_ok (vr_of ?wc) q" "\<forall>u. u \<in> R1 \<longrightarrow> vr_of ?wc n \<le> vr_of ?wc u"
    using get_next_task_ok [OF w2(2) c2' c2 c(3) ne [unfolded R1], of cl] unfolding nd lt R1 [symmetric]
    by blast
  let ?w5 = "?wc\<lparr>node := (node w)\<lparr>spin_flag := False, deferred := d1, node_rq := q, last_tick := tick1 cl\<rparr>\<rparr>"
  have "base_ok ?wc"
    by (rule base_ok_upd [OF w2(2) c2]) (use c(2) w2(4) in \<open>auto simp: layout_def\<close>)
  then have b5: "base_ok ?w5"
    by (rule base_ok_rq [OF _ q(6,4,5)]) (use w2(4) in simp_all)
  have cur5: "cur_ok c ?w5"
    by (rule cur_ok_upd [OF w2(3) c2, where x' = ?x]) (simp_all add: w2(4))
  have run: "running (node w)" using b by (simp add: base_ok_def)
  have cw2: "task_current w2 = Ret c w2" using w2(3) by (simp add: cur_ok_def)
  have vr: "vr_of ?w5 = vr_of ?wc" by (simp add: vr_of_def fun_eq_iff)
  show ?thesis
  proof (cases "n = c")
    case True
    have "node_yield e cl k w = Ret Returned ?w5"
      using run spin w2(1) cw2 q(1) True by (simp add: node_yield_def)
    then show ?thesis
      using True q b5 cur5 vr w2(5,6) by (intro exI [of _ c] exI [of _ ?w5] exI [of _ "tasks w2"] exI [of _ "fl_set w2"]) auto
  next
    case False
    have "n \<in> rq_set w2" using q(2) R1 False by (auto split: if_splits)
    then obtain y where y: "tasks ?w5 n = Some y" using dom2 False by auto
    have c5: "tasks ?w5 c = Some ?x" by simp
    obtain w' where w': "switch_to_internal n (Some set_current_node) (In_node_yield # k) ?w5 = Ret Switched w'"
      "base_ok w'" "cur_ok n w'" "tasks w' = (tasks ?w5)(c \<mapsto> demoted ?x)"
      "conts w' = (conts ?w5)(c := In_switch_to c # In_node_yield # k)" "node w' = node ?w5" "freelist w' = freelist ?w5"
      using switch_ok [OF b5 cur5 c5 y False] by blast
    have "node_yield e cl k w = Ret Switched w'"
      using run spin w2(1) cw2 q(1) False w'(1) by (simp add: node_yield_def)
    moreover have "vr_of w' = vr_of ?wc" using w'(4) by (auto simp: vr_of_def demoted_def fun_eq_iff)
    ultimately show ?thesis
      using False q w' w2(5,6)
      by (intro exI [of _ n] exI [of _ w'] exI [of _ "tasks w2"] exI [of _ "fl_set w2"]) auto
  qed
qed

end
