(* ===== verification/Sched_Safe.thy ===== *)
theory Sched_Safe
  imports Sched_Inv
begin

text \<open>
  Every operation of the scheduler interface keeps the invariant of the theory
  \<open>Sched_Inv\<close>, and the operations that only move control around do not fail: the asserts of
  the sources hold, no lock is taken twice, and no freed task is followed.
\<close>

section \<open>Definitions\<close>

text \<open>
  What the kernel promises for a new stack: the mapping succeeds, is large enough for the
  task object and its control block, and holds nothing of a task that is alive.
\<close>

definition fresh_mapping :: "env \<Rightarrow> attr \<Rightarrow> gstate \<Rightarrow> bool" where
  "fresh_mapping e a w \<longleftrightarrow>
     (let tot = st_size (stack a) + guard_size a
      in st_addr (stack a) = nullptr \<and>
         (\<exists>base. mapped_at (kernel e) tot base \<and>
            (guard_size a \<noteq> 0 \<longrightarrow> os_mprotect (kernel e) base (guard_size a) = 0) \<and>
            base \<noteq> nullptr \<and> unat (sizeof_task e) + unat postfix_bytes < unat tot \<and> sizeof_task e \<noteq> 0 \<and>
            (\<forall>t x. tasks w t = Some x \<longrightarrow>
               \<not> unat (t - base) < unat tot \<and> \<not> unat (storage w x - base) < unat tot \<and>
               (\<forall>a. a \<in> region x \<longrightarrow> \<not> unat (a - base) < unat tot))))"

text \<open>
  The attributes ask for the kind of task that is in use: all created tasks have thread local
  storage of their own, or none has. \<open>spawn\<close> accepts either kind at any time; this restricts the
  programs the invariant is about.
\<close>

definition same_kind :: "attr \<Rightarrow> gstate \<Rightarrow> bool" where
  "same_kind a w \<longleftrightarrow>
     (\<forall>t x. tasks w t = Some x \<and> t \<noteq> host_task (node w) \<longrightarrow> has_tls x = alloc_tls a)"

text \<open>The state in which a task \<open>c\<close> that has to wait for \<open>t\<close> calls \<open>sched_node::yield\<close>.\<close>

definition join_state :: "addr \<Rightarrow> task \<Rightarrow> addr \<Rightarrow> task \<Rightarrow> gstate \<Rightarrow> gstate" where
  "join_state t y c x w =
     w\<lparr>tasks := (tasks w)(t \<mapsto> y\<lparr>joiner := c\<rparr>, c \<mapsto> x\<lparr>run_state := WAITING, no_preempt_flag := True\<rparr>)\<rparr>"

text \<open>Storage \<open>st'\<close> differs from \<open>st\<close> in one control block.\<close>

definition tls_touched :: "addr \<Rightarrow> tls_state \<Rightarrow> tls_state \<Rightarrow> bool" where
  "tls_touched t st st' \<longleftrightarrow>
     fs st' = fs st \<and> tcbs st' (after t) \<noteq> None \<and> (\<forall>a. a \<noteq> after t \<longrightarrow> tcbs st' a = tcbs st a)"

text \<open>
  The world with storage \<open>st\<close> and node pointers \<open>g\<close> differs from \<open>w\<close> in the block at \<open>p\<close> at most, and
  not at all when \<open>p\<close> is null.
\<close>

definition storage_touched :: "addr \<Rightarrow> gstate \<Rightarrow> tls_state \<Rightarrow> (addr \<Rightarrow> node_ptr) \<Rightarrow> bool" where
  "storage_touched p w st g \<longleftrightarrow>
     fs st = fs (tls w) \<and> (p \<noteq> nullptr \<longrightarrow> tcbs st (after p) \<noteq> None) \<and>
     (\<forall>a. (p \<noteq> nullptr \<longrightarrow> a \<noteq> after p) \<longrightarrow>
        tcbs st a = tcbs (tls w) a \<and> g a = g_current_sched_node w a)"

text \<open>Of the current and the queued tasks only \<open>c\<close> is charged, for the time since the last tick.\<close>

definition charged_only :: "addr \<Rightarrow> clk \<Rightarrow> gstate \<Rightarrow> gstate \<Rightarrow> bool" where
  "charged_only c cl w w' \<longleftrightarrow>
     vr_of w' c = vr_of w c + ns_to_us (tick0 cl - last_tick (node w)) \<and>
     (\<forall>u. u \<in> rq_set w \<longrightarrow> vr_of w' u = vr_of w u)"

section \<open>Entering and leaving the scheduler\<close>

lemma upd_cur_ok:
  assumes "base_ok w" "cur_ok c w" "tasks w c = Some x" "layout x' = layout x" "c \<notin> rq_set w"
  shows "base_ok (w\<lparr>tasks := (tasks w)(c \<mapsto> x')\<rparr>)" "cur_ok c (w\<lparr>tasks := (tasks w)(c \<mapsto> x')\<rparr>)"
  using assms base_ok_upd [OF assms(1,3,4), of "w\<lparr>tasks := (tasks w)(c \<mapsto> x')\<rparr>"]
    cur_ok_upd [OF assms(2,3), of x' "w\<lparr>tasks := (tasks w)(c \<mapsto> x')\<rparr>"]
  by (auto simp: layout_def)

lemma sched_ok_curD:
  assumes ok: "sched_ok P H w" and cur: "cur_ok c w" and c: "tasks w c = Some x"
  shows "base_ok w" "\<not> spin_flag (node w)" "tab P H c w"
    "run_state x = RUNNING" "\<not> no_preempt_flag x" "c \<notin> rq_set w" "c \<noteq> nullptr" "deferred_ok c w"
    "rq_set w \<subseteq> dom (tasks w)" "current_is c w" "current_node w = Root_node"
proof -
  obtain c' x' where x: "cur_ok c' w" "tab P H c' w" "tasks w c' = Some x'" "run_state x' = RUNNING"
      "\<not> no_preempt_flag x'" "base_ok w" "\<not> spin_flag (node w)"
    using ok by (auto simp: sched_ok_def)
  have "c' = c" using x(1) cur current_is_unique by (auto simp: cur_ok_def)
  with x(3) c have eq: "c' = c" "x' = x" by auto
  note x = x [unfolded eq]
  note D = table_okD [OF x(2) [unfolded tab_def]]
  show "base_ok w" "\<not> spin_flag (node w)" "tab P H c w" "run_state x = RUNNING" "\<not> no_preempt_flag x"
    using x by auto
  show "c \<notin> rq_set w" "rq_set w \<subseteq> dom (tasks w)" using D(2,5) by auto
  show c0: "c \<noteq> nullptr" using D(1) c by auto
  show "deferred_ok c w"
    using deferred_ok_table [OF x(2) [unfolded tab_def] c0] by (auto simp: deferred_ok_def Let_def)
  show "current_is c w" "current_node w = Root_node" using cur by (auto simp: cur_ok_def)
qed

lemma sched_ok_obtain:
  assumes "sched_ok P H w"
  obtains c x where "cur_ok c w" "tasks w c = Some x"
  using assms by (auto simp: sched_ok_def)

lemma preempt_lock_Ret:
  "current_is c w \<Longrightarrow> tasks w c = Some x \<Longrightarrow> \<not> no_preempt_flag x \<Longrightarrow>
     preempt_lock w = Ret () (w\<lparr>tasks := (tasks w)(c \<mapsto> x\<lparr>no_preempt_flag := True\<rparr>)\<rparr>)"
  by (simp add: preempt_lock_def)

lemma preempt_unlock_Ret:
  "current_is c w \<Longrightarrow> tasks w c = Some x \<Longrightarrow> no_preempt_flag x \<Longrightarrow>
     preempt_unlock w = Ret () (w\<lparr>tasks := (tasks w)(c \<mapsto> x\<lparr>no_preempt_flag := False\<rparr>)\<rparr>)"
  by (simp add: preempt_unlock_def)

text \<open>A handle that user code holds: its task is alive, not detached, and nobody waits for it.\<close>

lemma handle_task:
  assumes T: "tab P H c w" and t: "t \<in> H"
  obtains y where "tasks w t = Some y" "joiner y = nullptr" "\<not> detached y" "t \<noteq> nullptr" "t \<notin> fl_set w"
    "t \<noteq> host_task (node w)" "t \<noteq> deferred (node w)"
    "run_state y = STOPPED \<Longrightarrow> t \<noteq> c \<Longrightarrow> t \<notin> rq_set w"
proof -
  note D = table_okD [OF T [unfolded tab_def]]
  obtain y where y: "tasks w t = Some y" using D(4) t by auto
  have tn: "t \<noteq> nullptr" "t \<notin> fl_set w" "t \<noteq> host_task (node w)" using D(1,10,12) y t by auto
  note r = row_okD [OF D(17) [OF y tn(2)]]
  show thesis
    using that [OF y] r(1,4,12,13) tn t by blast
qed

text \<open>A change of tasks that are not stopped, and of the deferred one.\<close>

lemma kept_frame:
  assumes T: "tab P H c w" and c: "tasks w c = Some x" "run_state x \<noteq> STOPPED"
    and fr: "\<And>u y. u \<noteq> c \<Longrightarrow> u \<noteq> deferred (node w) \<Longrightarrow> tasks w u = Some y \<Longrightarrow> run_state y = STOPPED \<Longrightarrow> tasks w' u = Some y"
  shows "kept H w w'"
  unfolding kept_def
proof (intro allI impI, elim conjE)
  fix u y assume u: "u \<in> H" "tasks w u = Some y" "run_state y = STOPPED"
  have "u \<noteq> c" using u c by auto
  moreover have "u \<noteq> deferred (node w)" using handle_task [OF T u(1)] by metis
  ultimately show "tasks w' u = Some y" using fr u by blast
qed

lemma kept_trans: "kept H w w1 \<Longrightarrow> kept H w1 w2 \<Longrightarrow> kept H w w2"
  by (auto simp: kept_def)

text \<open>The critical section of \<open>yield\<close> and of the trap.\<close>

lemma yield_ok:
  assumes ok: "sched_ok P H w" and cur: "cur_ok c w" and c: "tasks w c = Some x"
    and f: "f = In_sched_yield \<or> f = In_trap"
  defines "w1 \<equiv> w\<lparr>tasks := (tasks w)(c \<mapsto> x\<lparr>no_preempt_flag := True\<rparr>)\<rparr>"
  shows "(\<exists>w'. guarded preempt_unlock (node_yield e cl [f] w1) = Ret Returned w' \<and> sched_ok P H w' \<and> cur_ok c w'
           \<and> kept H w w' \<and> charged_only c cl w w' \<and> insert c (rq_set w') = insert c (rq_set w)
           \<and> (\<forall>u. u \<in> insert c (rq_set w) \<longrightarrow> vr_of w' c \<le> vr_of w' u))
       \<or> (\<exists>n w'. guarded preempt_unlock (node_yield e cl [f] w1) = Ret Switched w' \<and> between P H n w'
           \<and> kept H w w' \<and> n \<in> rq_set w \<and> insert n (rq_set w') = insert c (rq_set w)
           \<and> charged_only c cl w w' \<and> (\<forall>u. u \<in> insert c (rq_set w) \<longrightarrow> vr_of w' n \<le> vr_of w' u))"
proof -
  let ?x1 = "x\<lparr>no_preempt_flag := True\<rparr>"
  let ?d = "deferred (node w)" and ?h = "host_task (node w)"
  note s = sched_ok_curD [OF ok cur c]
  have w1: "base_ok w1" "cur_ok c w1"
    using upd_cur_ok [OF s(1) cur c, of ?x1] s(6) by (simp_all add: w1_def layout_def)
  have n1: "node w1 = node w" "conts w1 = conts w" "freelist w1 = freelist w" by (simp_all add: w1_def)
  have p: "\<not> spin_flag (node w1)" "tasks w1 c = Some ?x1" "c \<notin> rq_set w1" "c \<noteq> nullptr" "deferred_ok c w1"
      "rq_set w1 \<subseteq> dom (tasks w1)"
    using s by (auto simp: w1_def deferred_ok_def Let_def)
  have T1: "table_ok P (tasks w1) (conts w) (rq_set w) (fl_set w) ?d ?h H c"
    using table_ok_core [OF s(3) [unfolded tab_def] c, of ?x1] by (simp add: w1_def core_def)
  have R1: "insert c (rq_set w) = (if run_state ?x1 = RUNNING then insert c (rq_set w1) else rq_set w1)"
      "nullptr = (if run_state ?x1 = STOPPED \<and> detached ?x1 then c else nullptr)" "insert c (rq_set w) \<noteq> {}"
    using s(4) by (simp_all add: n1)
  obtain n w' ts F where y: "n \<in> insert c (rq_set w)" "deferred_gone (tasks w1) (fl_set w) ?d ts F"
    "node_yield e cl [f] w1 = Ret (if n = c then Returned else Switched) w'"
    "base_ok w'" "cur_ok n w'" "\<not> spin_flag (node w')" "rq_set w' = insert c (rq_set w) - {n}" "fl_set w' = F"
    "deferred (node w') = nullptr" "host_task (node w') = ?h"
    "tasks w' = ts(c \<mapsto> if n = c then charged cl w ?x1 else demoted (charged cl w ?x1))"
    "conts w' = (if n = c then conts w else (conts w)(c := [In_switch_to c, In_node_yield, f]))"
    "\<forall>u. u \<in> insert c (rq_set w) \<longrightarrow> vr_of w' n \<le> vr_of w' u"
    using node_yield_ok [OF w1 p R1, of e cl "[f]"] unfolding n1 by blast
  have T2: "table_ok P ts (conts w) (rq_set w) F nullptr ?h H c"
    by (rule table_deferred_gone [OF T1 y(2)])
  have c2: "ts c = Some ?x1"
    using deferred_gone_other [OF y(2), of c] s(8) by (auto simp: deferred_ok_def w1_def Let_def)
  have kept: "kept H w w''" if "\<forall>u. u \<noteq> c \<longrightarrow> tasks w'' u = ts u" for w''
    by (rule kept_frame [OF s(3) c]) (use that s(4) deferred_gone_other [OF y(2)] in \<open>auto simp: w1_def\<close>)
  have ch: "charged_only c cl w w''"
    if fr: "\<forall>u. u \<noteq> c \<longrightarrow> tasks w'' u = ts u" and xc: "\<exists>x''. tasks w'' c = Some x'' \<and> vruntime x'' = vruntime (charged cl w x)" for w''
  proof -
    have "tasks w'' u = tasks w u" if u: "u \<in> rq_set w" for u
    proof -
      have "?d \<noteq> nullptr \<Longrightarrow> u \<noteq> ?d" using u s(8) by (auto simp: deferred_ok_def Let_def)
      moreover have "u \<noteq> c" using u s(6) by auto
      ultimately show ?thesis using deferred_gone_other [OF y(2), of u] fr by (simp add: w1_def)
    qed
    then show ?thesis using xc c by (auto simp: charged_only_def vr_of_def)
  qed
  show ?thesis
  proof (cases "n = c")
    case True
    let ?w' = "w'\<lparr>tasks := (tasks w')(c \<mapsto> (charged cl w ?x1)\<lparr>no_preempt_flag := False\<rparr>)\<rparr>"
    have "preempt_unlock w' = Ret () ?w'"
      using y True by (intro preempt_unlock_Ret) (auto simp: cur_ok_def)
    moreover have "base_ok ?w'" "cur_ok c ?w'"
      using upd_cur_ok [OF y(4), of c "charged cl w ?x1"] y True by (auto simp: layout_def)
    moreover have "tab P H c ?w'"
      using table_ok_core [OF T2 c2, of "(charged cl w ?x1)\<lparr>no_preempt_flag := False\<rparr>"] y True s(6)
      by (simp add: tab_def core_def)
    moreover have "kept H w ?w'" by (rule kept) (use y(11) in auto)
    moreover have "charged_only c cl w ?w'" by (rule ch) (use y(11) in auto)
    ultimately show ?thesis
      using y True s(4) by (auto intro!: sched_okI simp: vr_of_def)
  next
    case False
    have "table_ok P (tasks w') (conts w') (insert c (rq_set w)) F nullptr ?h H nullptr"
      using table_park_ready [OF T2 c2, of "demoted (charged cl w ?x1)" "[f]"] y False s(4) f
      by (simp add: demoted_def)
    then have "between P H n w'"
      using y False by (simp add: between_def insert_absorb)
    moreover have "kept H w w'" by (rule kept) (use y(11) in auto)
    moreover have "charged_only c cl w w'" by (rule ch) (use y(11) False in \<open>auto simp: demoted_def\<close>)
    ultimately show ?thesis using y False by auto
  qed
qed

section \<open>Waiting for a task\<close>

lemma deferred_gone_upd:
  "deferred_gone ts F d ts' F' \<Longrightarrow> (d \<noteq> nullptr \<Longrightarrow> c \<noteq> d) \<Longrightarrow> deferred_gone (ts(c \<mapsto> x)) F d (ts'(c \<mapsto> x)) F'"
  by (auto simp: deferred_gone_def intro: given_back_upd)

lemma join_waits:
  assumes ok: "sched_ok P H w" and cur: "cur_ok c w" and c: "tasks w c = Some x" and t: "t \<in> H" "t \<noteq> c"
    and y: "tasks w t = Some y" "run_state y \<noteq> STOPPED"
  defines "wk \<equiv> join_state t y c x w"
  shows "sched_join e cl (Some t) want k w =
      bind_outcome (guarded preempt_unlock (node_yield e cl (In_sched_yield # In_join t want # k) wk))
        (\<lambda>r w2. case r of Switched \<Rightarrow> Ret (Switched, No_result) w2
           | Returned \<Rightarrow> bind_outcome (join_finish e cl t want w2) (\<lambda>v w3. Ret (Returned, v) w3))"
    and "base_ok wk" "cur_ok c wk" "\<not> spin_flag (node wk)" "deferred_ok c wk" "node wk = node w" "joiner y = nullptr"
proof -
  note s = sched_ok_curD [OF ok cur c]
  obtain z where "tasks w t = Some z" "joiner z = nullptr" "t \<noteq> nullptr"
    using handle_task [OF s(3) t(1)] by metis
  with y have j: "joiner y = nullptr" "t \<noteq> nullptr" by auto
  show "sched_join e cl (Some t) want k w =
      bind_outcome (guarded preempt_unlock (node_yield e cl (In_sched_yield # In_join t want # k) wk))
        (\<lambda>r w2. case r of Switched \<Rightarrow> Ret (Switched, No_result) w2
           | Returned \<Rightarrow> bind_outcome (join_finish e cl t want w2) (\<lambda>v w3. Ret (Returned, v) w3))"
    using s c y t j
    by (simp add: sched_join_def join_begin_def preempt_lock_def preempt_unlock_def sched_yield_def
        preempt_node_def current_node_def wk_def join_state_def)
  let ?wa = "w\<lparr>tasks := (tasks w)(t \<mapsto> y\<lparr>joiner := c\<rparr>)\<rparr>"
  have "base_ok ?wa" "cur_ok c ?wa"
    using base_ok_upd [OF s(1) y(1), of "y\<lparr>joiner := c\<rparr>" ?wa] cur_ok_upd [OF cur y(1), of "y\<lparr>joiner := c\<rparr>" ?wa]
    by (simp_all add: layout_def)
  then show "base_ok wk" "cur_ok c wk"
    using upd_cur_ok [of ?wa c x "x\<lparr>run_state := WAITING, no_preempt_flag := True\<rparr>"] c t s(6)
    by (simp_all add: wk_def join_state_def layout_def)
  show "\<not> spin_flag (node wk)" "deferred_ok c wk" "node wk = node w"
    using s(2,8) by (auto simp: wk_def join_state_def deferred_ok_def Let_def)
  show "joiner y = nullptr" by (rule j)
qed

lemma join_wait_ok:
  assumes ok: "sched_ok P H w" and cur: "cur_ok c w" and t: "t \<in> H" "t \<noteq> c"
    and y: "tasks w t = Some y" "run_state y \<noteq> STOPPED" and ne: "rq_set w \<noteq> {}"
  shows "\<exists>n w'. sched_join e cl (Some t) want [] w = Ret (Switched, No_result) w' \<and> between P (H - {t}) n w'
     \<and> n \<in> rq_set w \<and> kept (H - {t}) w w' \<and> rq_set w' = rq_set w - {n}
     \<and> conts w' c = [In_switch_to c, In_node_yield, In_sched_yield, In_join t want]
     \<and> tasks w' t = Some (y\<lparr>joiner := c\<rparr>)"
proof -
  obtain x where c: "tasks w c = Some x" using cur by (auto simp: cur_ok_def)
  note s = sched_ok_curD [OF ok cur c]
  let ?d = "deferred (node w)" and ?h = "host_task (node w)"
  let ?k = "[In_sched_yield, In_join t want]"
  let ?x1 = "x\<lparr>run_state := WAITING, no_preempt_flag := True\<rparr>"
  define wk where "wk = join_state t y c x w"
  note jw = join_waits [OF ok cur c t y, folded wk_def]
  have n1: "node wk = node w" "conts wk = conts w" "freelist wk = freelist w"
    by (simp_all add: wk_def join_state_def)
  have p: "tasks wk c = Some ?x1" "c \<notin> rq_set wk" "c \<noteq> nullptr" "rq_set wk \<subseteq> dom (tasks wk)"
    using s by (auto simp: wk_def join_state_def)
  have R1: "rq_set w = (if run_state ?x1 = RUNNING then insert c (rq_set wk) else rq_set wk)"
      "nullptr = (if run_state ?x1 = STOPPED \<and> detached ?x1 then c else nullptr)" "rq_set w \<noteq> {}"
    using ne by (simp_all add: n1)
  obtain n w' ts F where r: "n \<in> rq_set w" "deferred_gone (tasks wk) (fl_set w) ?d ts F"
    "node_yield e cl ?k wk = Ret (if n = c then Returned else Switched) w'"
    "base_ok w'" "cur_ok n w'" "\<not> spin_flag (node w')" "rq_set w' = rq_set w - {n}" "fl_set w' = F"
    "deferred (node w') = nullptr" "host_task (node w') = ?h"
    "tasks w' = ts(c \<mapsto> if n = c then charged cl w ?x1 else demoted (charged cl w ?x1))"
    "conts w' = (if n = c then conts w else (conts w)(c := In_switch_to c # In_node_yield # ?k))"
    using node_yield_ok [OF jw(2-4) p(1-3) jw(5) p(4) R1, of e cl ?k] unfolding n1 by blast
  have nc: "n \<noteq> c" using r(1) s(6) by auto
  let ?x2 = "demoted (charged cl w ?x1)"
  have T1: "table_ok P ((tasks w)(c \<mapsto> ?x2, t \<mapsto> y\<lparr>joiner := c\<rparr>))
      ((conts w)(c := In_switch_to c # In_node_yield # ?k)) (rq_set w) (fl_set w) ?d ?h (H - {t}) nullptr"
    by (rule table_park_join [OF s(3) [unfolded tab_def] c y(1) t y(2) jw(7)])
      (use s(4) in \<open>simp_all add: demoted_def\<close>)
  have dg: "deferred_gone ((tasks w)(c \<mapsto> ?x2, t \<mapsto> y\<lparr>joiner := c\<rparr>)) (fl_set w) ?d (tasks w') F"
    using deferred_gone_upd [OF r(2), of c ?x2] s(8) nc r(11) t(2)
    by (auto simp: wk_def join_state_def deferred_ok_def Let_def fun_upd_twist)
  have "between P (H - {t}) n w'"
    using table_deferred_gone [OF T1 dg] r nc by (simp add: between_def insert_absorb)
  moreover have "kept H w w'"
    by (rule kept_frame [OF s(3) c])
      (use s(4) y deferred_gone_other [OF r(2)] r(11) in \<open>auto simp: wk_def join_state_def\<close>)
  moreover have "tasks w' t = Some (y\<lparr>joiner := c\<rparr>)"
  proof -
    have "t \<noteq> ?d" using handle_task [OF s(3) t(1)] by metis
    then have "ts t = tasks wk t" by (intro deferred_gone_other [OF r(2)])
    then show ?thesis using r(11) t(2) by (simp add: wk_def join_state_def)
  qed
  ultimately show ?thesis
    using jw(1) r(1,3,7,12) nc by (auto simp: kept_def)
qed

section \<open>Scheduling and stopping\<close>

lemma node_schedule_ok:
  assumes b: "base_ok w" and spin: "\<not> spin_flag (node w)" and g: "tasks w g = Some z" "g \<notin> rq_set w" "g \<noteq> nullptr"
  shows "\<exists>w' z'. node_schedule g w = Ret () w' \<and> base_ok w' \<and> \<not> spin_flag (node w')
    \<and> tasks w' = (tasks w)(g \<mapsto> z') \<and> layout z' = layout z \<and> core z' = core z
    \<and> no_preempt_flag z' = no_preempt_flag z \<and> return_value z' = return_value z
    \<and> rq_set w' = insert g (rq_set w) \<and> deferred (node w') = deferred (node w)
    \<and> host_task (node w') = host_task (node w) \<and> conts w' = conts w \<and> freelist w' = freelist w
    \<and> tls w' = tls w \<and> g_current_sched_node w' = g_current_sched_node w
    \<and> z' = z\<lparr>vruntime := if vruntime z = 0 then min_vruntime (node_rq (node w)) else vruntime z\<rparr>
    \<and> last_tick (node w') = last_tick (node w)"
proof -
  let ?z = "if vruntime z = 0 then z\<lparr>vruntime := min_vruntime (node_rq (node w))\<rparr> else z"
  let ?w1 = "w\<lparr>tasks := (tasks w)(g \<mapsto> ?z)\<rparr>"
  let ?q = "rq_push (vr_of ?w1) g (node_rq (node w))"
  let ?w2 = "?w1\<lparr>node := (node w)\<lparr>node_rq := ?q\<rparr>\<rparr>"
  have lay: "layout ?z = layout z" by (simp add: layout_def)
  have vr: "vr_of (w\<lparr>node := m, tasks := ts\<rparr>) = vr_of (w\<lparr>tasks := ts\<rparr>)" for m ts
    by (simp add: vr_of_def fun_eq_iff)
  have spin': "(node w)\<lparr>spin_flag := True, node_rq := ?q, spin_flag := False\<rparr> = (node w)\<lparr>node_rq := ?q\<rparr>"
    using spin by (cases "node w") simp
  have eq: "node_schedule g w = Ret () ?w2"
    using spin g(1) spin' by (simp add: node_schedule_def set_rq_def set_node_def vr del: if_split)
  have b1: "base_ok ?w1"
    by (rule base_ok_upd [OF b g(1) lay]) (use g(2) in auto)
  have ok1: "rq_ok (vr_of ?w1) (node_rq (node w))" using b1 by (simp add: base_ok_def)
  have "base_ok ?w2"
    by (rule base_ok_rq [OF b1 rq_ok_push [OF ok1 g(3)]]) (use b g in \<open>auto simp: base_ok_def\<close>)
  then show ?thesis
    using eq spin lay by (intro exI [of _ ?w2] exI [of _ ?z]) (auto simp: core_def)
qed

text \<open>The joiner of a task that exits, if there is one, becomes runnable.\<close>

lemma exit_wakes_joiner:
  fixes v :: addr
  assumes ok: "sched_ok P H w" and cur: "cur_ok c w" and c: "tasks w c = Some x"
  defines "xs \<equiv> x\<lparr>no_preempt_flag := True, return_value := v, run_state := STOPPED\<rparr>"
    and "xr \<equiv> x\<lparr>no_preempt_flag := True, return_value := v\<rparr>"
  defines "w1 \<equiv> w\<lparr>tasks := (tasks w)(c \<mapsto> xs)\<rparr>"
  shows "\<exists>wk ts0. (if joiner x \<noteq> nullptr then bind_outcome (preempt_node w1) (\<lambda>_ w3. node_schedule (joiner x) w3)
       else Ret () w1) = Ret () wk \<and> base_ok wk \<and> cur_ok c wk \<and> \<not> spin_flag (node wk)
     \<and> rq_set wk = (if joiner x \<noteq> nullptr then insert (joiner x) (rq_set w) else rq_set w)
     \<and> deferred (node wk) = deferred (node w) \<and> host_task (node wk) = host_task (node w) \<and> conts wk = conts w
     \<and> freelist wk = freelist w \<and> tasks wk = ts0(c \<mapsto> xs) \<and> ts0 c = Some xr \<and> dom ts0 = dom (tasks w)
     \<and> table_ok P ts0 (conts w) (rq_set w) (fl_set w) (deferred (node w)) (host_task (node w)) H c
     \<and> current_node wk = Root_node
     \<and> (\<forall>u z. u \<noteq> c \<longrightarrow> tasks w u = Some z \<longrightarrow> run_state z = STOPPED \<longrightarrow> ts0 u = Some z)"
proof -
  note s = sched_ok_curD [OF ok cur c]
  note T = s(3) [unfolded tab_def]
  note D = table_okD [OF T]
  note r = row_okD [OF D(17) [OF c D(6)]]
  have w1: "base_ok w1" "cur_ok c w1" "\<not> spin_flag (node w1)"
    using upd_cur_ok [OF s(1) cur c, of xs] s(2,6) by (simp_all add: w1_def xs_def layout_def)
  have T1: "table_ok P ((tasks w)(c \<mapsto> xr)) (conts w) (rq_set w) (fl_set w) (deferred (node w)) (host_task (node w)) H c"
    by (rule table_ok_core [OF T c]) (simp_all add: core_def xr_def)
  show ?thesis
  proof (cases "joiner x = nullptr")
    case True
    then show ?thesis
      using w1 T1 c s(11)
      by (intro exI [of _ w1] exI [of _ "(tasks w)(c \<mapsto> xr)"]) (auto simp: w1_def current_node_def)
  next
    case False
    let ?g = "joiner x"
    obtain z where z: "tasks w1 ?g = Some z" "?g \<noteq> c" "run_state z \<noteq> STOPPED"
      using r(5,9) False by (auto simp: w1_def)
    have g: "?g \<notin> rq_set w1" using r(10) False s(4) by (simp add: w1_def)
    obtain w2 z' where w2: "node_schedule ?g w1 = Ret () w2" "base_ok w2" "\<not> spin_flag (node w2)"
      "tasks w2 = (tasks w1)(?g \<mapsto> z')" "layout z' = layout z" "core z' = core z"
      "no_preempt_flag z' = no_preempt_flag z" "rq_set w2 = insert ?g (rq_set w1)"
      "deferred (node w2) = deferred (node w1)" "host_task (node w2) = host_task (node w1)"
      "conts w2 = conts w1" "freelist w2 = freelist w1" "tls w2 = tls w1"
      "g_current_sched_node w2 = g_current_sched_node w1"
      using node_schedule_ok [OF w1(1,3) z(1) g False] by blast
    have cur2: "cur_ok c w2"
      by (rule cur_ok_upd [OF w1(2) z(1) _ w2(4,13,10,14)]) (use w2(5) in \<open>simp add: layout_def\<close>)
    have "table_ok P ((tasks w)(c \<mapsto> xr, ?g \<mapsto> z')) (conts w) (rq_set w) (fl_set w) (deferred (node w)) (host_task (node w)) H c"
      by (rule table_ok_core [OF T1, of ?g z]) (use z w2(6,7) in \<open>auto simp: w1_def\<close>)
    moreover have "preempt_node w1 = Ret () w1" using s(11) by (simp add: preempt_node_def w1_def current_node_def)
    ultimately show ?thesis
      using w2 cur2 z c False s(11)
      by (intro exI [of _ w2] exI [of _ "(tasks w)(c \<mapsto> xr, ?g \<mapsto> z')"])
        (auto simp: w1_def current_node_def fun_upd_twist)
  qed
qed

text \<open>
  \<open>exit\<close>: the task stops with its return value, the task waiting for it becomes runnable, and
  control goes to another task.
\<close>

lemma exit_ok:
  assumes ok: "sched_ok P H w" and cur: "cur_ok c w" and c: "tasks w c = Some x" and ent: "entry x \<noteq> nullptr"
    and ne: "rq_set w \<noteq> {} \<or> joiner x \<noteq> nullptr"
  shows "\<exists>n w'. sched_exit e cl v k w = Ret Switched w' \<and> between P H n w' \<and> kept H w w'
     \<and> (n \<in> rq_set w \<or> n = joiner x)
     \<and> (\<forall>u. u \<noteq> c \<longrightarrow> conts w' u = conts w u)
     \<and> (\<exists>x'. tasks w' c = Some x' \<and> run_state x' = STOPPED \<and> return_value x' = v)"
proof -
  note s = sched_ok_curD [OF ok cur c]
  let ?d = "deferred (node w)" and ?h = "host_task (node w)"
  note T = s(3) [unfolded tab_def]
  note D = table_okD [OF T]
  note r = row_okD [OF D(17) [OF c D(6)]]
  let ?xs = "x\<lparr>no_preempt_flag := True, return_value := v, run_state := STOPPED\<rparr>"
  let ?xr = "x\<lparr>no_preempt_flag := True, return_value := v\<rparr>"
  let ?R = "if joiner x \<noteq> nullptr then insert (joiner x) (rq_set w) else rq_set w"
  define w1 where "w1 = w\<lparr>tasks := (tasks w)(c \<mapsto> ?xs)\<rparr>"
  obtain wk ts0 where k: "(if joiner x \<noteq> nullptr then bind_outcome (preempt_node w1) (\<lambda>_ w3. node_schedule (joiner x) w3)
       else Ret () w1) = Ret () wk" "base_ok wk" "cur_ok c wk" "\<not> spin_flag (node wk)" "rq_set wk = ?R"
      "deferred (node wk) = ?d" "host_task (node wk) = ?h" "conts wk = conts w" "freelist wk = freelist w"
      "tasks wk = ts0(c \<mapsto> ?xs)" "ts0 c = Some ?xr" "dom ts0 = dom (tasks w)"
      "table_ok P ts0 (conts w) (rq_set w) (fl_set w) ?d ?h H c" "current_node wk = Root_node"
      "\<forall>u z. u \<noteq> c \<longrightarrow> tasks w u = Some z \<longrightarrow> run_state z = STOPPED \<longrightarrow> ts0 u = Some z"
    using exit_wakes_joiner [OF ok cur c, of v] unfolding w1_def by blast
  have c1: "tasks w1 c = Some ?xs" by (simp add: w1_def)
  have pn: "preempt_node wk = Ret () wk" using k(14) by (simp add: preempt_node_def)
  have eq: "sched_exit e cl v k w = guarded preempt_unlock (node_yield e cl (In_exit # k) wk)"
    using s(10) c ent s(5) k(1) c1 pn
    by (simp add: sched_exit_def preempt_lock_Ret w1_def [symmetric] split del: if_split cong: if_cong)
  have p: "tasks wk c = Some ?xs" "c \<notin> rq_set wk" "c \<noteq> nullptr" "deferred_ok c wk" "rq_set wk \<subseteq> dom (tasks wk)"
    using s(6-9) k(5-12) r(5,6,9) D(11) c deferred_ok_table [OF T s(7)]
    by (auto simp: deferred_ok_def Let_def)
  have R1: "?R = (if run_state ?xs = RUNNING then insert c (rq_set wk) else rq_set wk)"
      "(if detached x then c else nullptr) = (if run_state ?xs = STOPPED \<and> detached ?xs then c else nullptr)" "?R \<noteq> {}"
    using ne by (auto simp: k(5))
  obtain n w' ts F where y: "n \<in> ?R" "deferred_gone (tasks wk) (fl_set wk) (deferred (node wk)) ts F"
    "node_yield e cl (In_exit # k) wk = Ret (if n = c then Returned else Switched) w'"
    "base_ok w'" "cur_ok n w'" "\<not> spin_flag (node w')" "rq_set w' = ?R - {n}" "fl_set w' = F"
    "deferred (node w') = (if detached x then c else nullptr)" "host_task (node w') = host_task (node wk)"
    "tasks w' = ts(c \<mapsto> if n = c then charged cl wk ?xs else demoted (charged cl wk ?xs))"
    "conts w' = (if n = c then conts wk else (conts wk)(c := In_switch_to c # In_node_yield # In_exit # k))"
    using node_yield_ok [OF k(2,3,4) p R1, of e cl "In_exit # k"] by blast
  have nc: "n \<noteq> c" using y(1) s(6) r(5) by (auto split: if_splits)
  let ?x2 = "demoted (charged cl wk ?xs)"
  have cd: "?d \<noteq> nullptr \<Longrightarrow> c \<noteq> ?d" using deferred_ok_table [OF T s(7)] by auto
  have dg: "deferred_gone ts0 (fl_set w) ?d (ts(c \<mapsto> ?xr)) F"
    using deferred_gone_upd [OF y(2), of c ?xr] cd k(6,9-11) by (simp add: fun_upd_idem)
  have T2: "table_ok P (ts(c \<mapsto> ?xr)) (conts w) (rq_set w) F nullptr ?h H c"
    by (rule table_deferred_gone [OF k(13) dg])
  have "table_ok P (ts(c \<mapsto> ?xr, c \<mapsto> ?x2)) ((conts w)(c := In_switch_to c # In_node_yield # In_exit # k))
      (if joiner ?xr \<noteq> nullptr then insert (joiner ?xr) (rq_set w) else rq_set w) F
      (if detached ?xr then c else nullptr) ?h H nullptr"
    by (rule table_park_stopped [OF T2]) (use s(4) ent in \<open>simp_all add: demoted_def\<close>)
  then have "between P H n w'"
    using y nc k(7,8) by (simp add: between_def insert_absorb split del: if_split cong: if_cong)
  moreover have "tasks w' c = Some ?x2" "run_state ?x2 = STOPPED" "return_value ?x2 = v"
    using y(11) nc by (simp_all add: demoted_def)
  moreover have "kept H w w'"
    by (rule kept_frame [OF s(3) c])
      (use s(4) deferred_gone_other [OF y(2)] y(11) k(6,10,15) in \<open>auto simp: fun_upd_def\<close>)
  ultimately show ?thesis
    using eq y(1,3,12) nc k(8) by (auto split: if_splits)
qed

section \<open>Giving up handles\<close>

text \<open>The handle of a stopped task is given up: the task is given back.\<close>

lemma return_handle_ok:
  assumes ok: "sched_ok P H w" and cur: "cur_ok c w" and t: "t \<in> H" "t \<noteq> c"
    and y: "tasks w t = Some y" "run_state y = STOPPED"
  shows "\<exists>w'. return_task e t w = Ret () w' \<and> sched_ok P (H - {t}) w' \<and> cur_ok c w'
    \<and> kept (H - {t}) w w'"
proof -
  obtain x where c: "tasks w c = Some x" using cur by (auto simp: cur_ok_def)
  note s = sched_ok_curD [OF ok cur c]
  obtain z where z: "tasks w t = Some z" "t \<noteq> nullptr" "t \<notin> fl_set w" "t \<noteq> host_task (node w)"
      "run_state z = STOPPED \<Longrightarrow> t \<noteq> c \<Longrightarrow> t \<notin> rq_set w"
    using handle_task [OF s(3) t(1)] by metis
  then have tn: "t \<notin> rq_set w" using y t by auto
  obtain w' where w': "return_task e t w = Ret () w'" "base_ok w'" "cur_ok c w'" "node w' = node w"
    "conts w' = conts w" "given_back (tasks w) (fl_set w) t (tasks w') (fl_set w')"
    using return_task_ok [OF s(1) cur y(1) t(2) z(3,2,4) tn, of e] by blast
  have "table_ok P (tasks w) (conts w) (rq_set w) (insert t (fl_set w)) (deferred (node w))
      (host_task (node w)) (H - {t}) c"
    by (rule table_return_handle [OF s(3) [unfolded tab_def] t(1) y t(2)])
  from table_given_back [OF this z(3) w'(6)] have tb: "tab P (H - {t}) c w'"
    using w'(4,5) by (simp add: tab_def)
  have "tasks w' c = Some x" using given_back_other [OF w'(6)] t(2) c by metis
  then have "sched_ok P (H - {t}) w'"
    using w'(4) s(2,4,5) by (intro sched_okI [OF w'(2) _ w'(3) tb]) auto
  moreover have "kept (H - {t}) w w'" using given_back_other [OF w'(6)] by (auto simp: kept_def)
  ultimately show ?thesis using w'(1,3) by auto
qed

lemma inited_ok: "sched_ok P H w \<Longrightarrow> sched_context_get cl w = Ret () w"
  by (auto simp: sched_ok_def base_ok_def sched_context_get_def)

text \<open>Locking and unlocking preemption again leaves nothing behind.\<close>

lemma unlocked_again:
  assumes "tasks w c = Some x" "\<not> no_preempt_flag x"
  shows "w\<lparr>tasks := (tasks w)(c \<mapsto> x\<lparr>no_preempt_flag := False\<rparr>)\<rparr> = (w :: gstate)"
proof -
  have "x\<lparr>no_preempt_flag := False\<rparr> = x" using assms(2) by (cases x) simp
  then show ?thesis using assms(1) by (simp add: fun_upd_idem)
qed

lemma join_stopped_ok:
  assumes ok: "sched_ok P H w" and cur: "cur_ok c w" and t: "t \<in> H" "t \<noteq> c"
    and y: "tasks w t = Some y" "run_state y = STOPPED"
  shows "\<exists>w'. sched_join e cl (Some t) want k w =
       Ret (Returned, Handle_written nullptr (if want then Some (return_value y) else None)) w'
     \<and> sched_ok P (H - {t}) w' \<and> cur_ok c w' \<and> kept (H - {t}) w w'"
proof -
  obtain x where c: "tasks w c = Some x" using cur by (auto simp: cur_ok_def)
  note s = sched_ok_curD [OF ok cur c]
  obtain z where z: "tasks w t = Some z" "t \<noteq> nullptr" "joiner z = nullptr"
    using handle_task [OF s(3) t(1)] by metis
  obtain w' where w': "return_task e t w = Ret () w'" "sched_ok P (H - {t}) w'" "cur_ok c w'"
      "kept (H - {t}) w w'"
    using return_handle_ok [OF ok cur t y] by blast
  have "sched_join e cl (Some t) want k w =
      Ret (Returned, Handle_written nullptr (if want then Some (return_value y) else None)) w'"
    using s(5,10) c t y z w'(1) unlocked_again [OF c s(5)] inited_ok [OF ok, of cl]
    by (auto simp: sched_join_def join_begin_def preempt_lock_def preempt_unlock_def join_finish_def)
  then show ?thesis using w' by auto
qed

lemma detach_ok:
  assumes ok: "sched_ok P H w" and cur: "cur_ok c w" and t: "t \<in> H"
  shows "\<exists>w'. sched_detach e cl (Some t) w = Ret (Handle_written nullptr None) w' \<and> sched_ok P (H - {t}) w'
     \<and> cur_ok c w' \<and> kept (H - {t}) w w'"
proof -
  obtain x where c: "tasks w c = Some x" using cur by (auto simp: cur_ok_def)
  note s = sched_ok_curD [OF ok cur c]
  obtain y where y: "tasks w t = Some y" "t \<noteq> nullptr"
    using handle_task [OF s(3) t] by metis
  show ?thesis
  proof (cases "run_state y = STOPPED")
    case True
    then have tc: "t \<noteq> c" using s(4) c y by auto
    obtain w' where w': "return_task e t w = Ret () w'" "sched_ok P (H - {t}) w'" "cur_ok c w'"
        "kept (H - {t}) w w'"
      using return_handle_ok [OF ok cur t tc y(1) True] by blast
    have "sched_detach e cl (Some t) w = Ret (Handle_written nullptr None) w'"
      using s(5,10) c tc y True w'(1) unlocked_again [OF c s(5)] inited_ok [OF ok, of cl]
      by (simp add: sched_detach_def preempt_lock_def preempt_unlock_def)
    then show ?thesis using w' by auto
  next
    case False
    let ?y = "y\<lparr>detached := True\<rparr>"
    let ?w = "w\<lparr>tasks := (tasks w)(t \<mapsto> ?y)\<rparr>"
    have "sched_detach e cl (Some t) w = Ret (Handle_written nullptr None) ?w"
    proof (cases "t = c")
      case True
      then have "y\<lparr>detached := True, no_preempt_flag := False\<rparr> = y\<lparr>detached := True\<rparr>"
        using s(5) c y by (cases y) simp
      from arg_cong [OF this, of "\<lambda>z. w\<lparr>tasks := (tasks w)(c \<mapsto> z)\<rparr>"] True show ?thesis
        using s(4,5,10) c y
        by (simp add: sched_detach_def preempt_lock_def preempt_unlock_def)
    next
      case tc: False
      have "?w\<lparr>tasks := (tasks ?w)(c \<mapsto> x\<lparr>no_preempt_flag := False\<rparr>)\<rparr> = ?w"
        by (rule unlocked_again) (use c tc s(5) in auto)
      then show ?thesis
        using s(5,10) c y False tc
        by (simp add: sched_detach_def preempt_lock_def preempt_unlock_def)
    qed
    moreover have "base_ok ?w"
      by (rule base_ok_upd [OF s(1) y(1), of ?y]) (simp_all add: layout_def)
    moreover have "cur_ok c ?w"
      by (rule cur_ok_upd [OF cur y(1), of ?y]) simp_all
    moreover have "tab P (H - {t}) c ?w"
      using table_detach [OF s(3) [unfolded tab_def] t y(1) False refl] by (simp add: tab_def)
    moreover have "\<exists>x'. tasks ?w c = Some x' \<and> run_state x' = RUNNING \<and> \<not> no_preempt_flag x'"
      using c y s(4,5) by (cases "t = c") auto
    moreover have "kept (H - {t}) w ?w" by (auto simp: kept_def)
    ultimately show ?thesis
      using s(2) sched_okI [of ?w c P "H - {t}"] by auto
  qed
qed

section \<open>Making tasks\<close>

lemma find_tls_images_Ret:
  "find_tls_images dl st = Ret r st' \<Longrightarrow> tcbs st' = tcbs st \<and> fs st' = fs st"
  by (auto simp: find_tls_images_def split: if_splits outcome.splits option.splits)

lemma prefix_bytes_Ret: "prefix_bytes dl st = Ret r st' \<Longrightarrow> tcbs st' = tcbs st \<and> fs st' = fs st"
  by (auto simp: prefix_bytes_def bind_outcome_Ret_iff split: option.splits dest: find_tls_images_Ret)

lemma tls_touched_dom: "tls_touched t st st' \<Longrightarrow> tcbs st a \<noteq> None \<Longrightarrow> tcbs st' a \<noteq> None"
  by (cases "a = after t") (auto simp: tls_touched_def)

lemma tls_ctor_Ret: "tls_ctor dl t st = Ret u st' \<Longrightarrow> tls_touched t st st'"
  by (auto simp: tls_ctor_def bind_outcome_Ret_iff Let_def case_prod_unfold tls_touched_def
      split: option.splits dest!: find_tls_images_Ret prefix_bytes_Ret)

lemma tls_reset_Ret:
  assumes r: "tls_reset dl t st = Ret r st'"
  shows "tls_touched t st st'"
proof -
  obtain tcb base where t: "tcbs st (after t) = Some tcb" "dtv_base (thread_vector tcb) = Some base"
    using r by (auto simp: tls_reset_def split: option.splits)
  obtain ims st1 where f: "find_tls_images dl st = Ret (Some ims) st1"
    using r t by (cases "find_tls_images dl st") (auto simp: tls_reset_def Let_def split: option.splits)
  show ?thesis
    using r t f find_tls_images_Ret [OF f]
    by (auto simp: tls_reset_def Let_def tls_touched_def split: outcome.splits)
qed

lemma task_reset_Ret:
  assumes "task_reset e t w = Ret u w'" and "tasks w t = Some x"
  shows "\<exists>st g. w' = w\<lparr>tls := st, g_current_sched_node := g, tasks := (tasks w)(t \<mapsto> reset_fields x)\<rparr>
    \<and> storage_touched (tls_ptr x) w st g"
proof (cases "tls_ptr x = nullptr")
  case True
  then show ?thesis
    using assms by (intro exI [of _ "tls w"] exI [of _ "g_current_sched_node w"])
      (auto simp: task_reset_def storage_touched_def)
next
  case False
  let ?g = "(g_current_sched_node w)(after (tls_ptr x) := Null_node)"
  obtain st where "w' = w\<lparr>tls := st, g_current_sched_node := ?g, tasks := (tasks w)(t \<mapsto> reset_fields x)\<rparr>"
      "tls_touched (tls_ptr x) (tls w) st"
    using assms False
    by (auto simp: task_reset_def bind_outcome_Ret_iff split: outcome.splits dest!: tls_reset_Ret)
  then show ?thesis
    using False by (intro exI [of _ st] exI [of _ ?g]) (simp add: storage_touched_def tls_touched_def)
qed

lemma task_ctor_Ret:
  fixes w :: gstate
  assumes r: "task_ctor e this stk stk_begin tot own w = Ret t w'"
  defines "p \<equiv> if own then stk_begin - postfix_bytes else nullptr"
  assumes p0: "own \<Longrightarrow> p \<noteq> nullptr"
  shows "t = this \<and> (\<exists>st sb g. w' = w\<lparr>tls := st, tasks := (tasks w)(this \<mapsto> fresh_task p stk sb tot),
       g_current_sched_node := g\<rparr> \<and> storage_touched p w st g)"
proof (cases own)
  case True
  then have "t = this \<and> (\<exists>st sb. w' = w\<lparr>tls := st, tasks := (tasks w)(this \<mapsto> fresh_task p stk sb tot),
       g_current_sched_node := (g_current_sched_node w)(after p := Null_node)\<rparr> \<and> tls_touched p (tls w) st)"
    using r
    by (auto simp: p_def task_ctor_def Let_def bind_outcome_Ret_iff set_thread_def tls_touched_def
        split: outcome.splits option.splits dest!: tls_ctor_Ret prefix_bytes_Ret)
  then show ?thesis using p0 [OF True] by (fastforce simp: storage_touched_def tls_touched_def)
next
  case False
  have "w'\<lparr>tls := tls w, tasks := tasks w', g_current_sched_node := g_current_sched_node w\<rparr> = w'"
    using r False by (auto simp: task_ctor_def)
  then show ?thesis
    using r False by (intro conjI exI [of _ "tls w"] exI [of _ "sixteen_byte_align stk_begin"]
        exI [of _ "g_current_sched_node w"]) (auto simp: task_ctor_def p_def storage_touched_def)
qed

text \<open>A task that is added or reset leaves the storage of the others and the running task alone.\<close>

lemma storage_touched_dom: "storage_touched p w st g \<Longrightarrow> tcbs (tls w) a \<noteq> None \<Longrightarrow> tcbs st a \<noteq> None"
  by (cases "a = after p") (auto simp: storage_touched_def)

lemma cur_ok_touched:
  assumes cur: "cur_ok c w" and c: "tasks w c = Some xc" and p: "p \<noteq> nullptr \<Longrightarrow> storage w xc \<noteq> after p"
    and t: "t \<noteq> c" "t \<noteq> host_task (node w)" "tasks w' = (tasks w)(t \<mapsto> x)" "node w' = node w"
    and st: "storage_touched p w (tls w') (g_current_sched_node w')"
  shows "cur_ok c w'"
proof -
  have fs: "fs (tls w) = storage w xc" using cur c by (simp add: cur_ok_def)
  then have same: "fs (tls w') = fs (tls w)" "tcbs (tls w') (fs (tls w)) = tcbs (tls w) (fs (tls w))"
      "g_current_sched_node w' (fs (tls w)) = g_current_sched_node w (fs (tls w))"
    using st p by (simp_all add: storage_touched_def)
  moreover have "storage w' xc = storage w xc" using t by (simp add: storage_def task_at_def)
  ultimately show ?thesis
    using cur c t fs by (simp add: cur_ok_def current_is_def current_node_def)
qed

lemma sorted_wrt_remove1: "sorted_wrt P xs \<Longrightarrow> sorted_wrt P (remove1 x xs)"
  by (induction xs) (auto dest: set_remove1_subset [THEN subsetD])

lemma fl_ok_remove: "fl_ok w \<Longrightarrow> fl_ok (set_fl_list (remove1 t (fl_list (freelist w))) w)"
  by (auto simp: fl_ok_def Let_def length_remove1 intro: sorted_wrt_remove1
      dest: set_remove1_subset [THEN subsetD])

text \<open>A task taken from the freelist and reset.\<close>

lemma reuse_ok:
  assumes b: "base_ok w" and cur: "cur_ok c w" and T: "tab P H c w" and t: "t \<in> fl_set w"
    and r: "task_reset e t (set_fl_list (remove1 t (fl_list (freelist w))) w) = Ret u w'"
  shows "\<exists>x. tasks w' = (tasks w)(t \<mapsto> reset_fields x) \<and> base_ok w' \<and> cur_ok c w'
    \<and> fl_set w' = fl_set w - {t} \<and> node w' = node w \<and> conts w' = conts w"
proof -
  let ?w1 = "set_fl_list (remove1 t (fl_list (freelist w))) w"
  note D = table_okD [OF T [unfolded tab_def]]
  obtain x where x: "tasks w t = Some x" using D(3) t by auto
  obtain xc where xc: "tasks w c = Some xc" using cur by (auto simp: cur_ok_def)
  have h: "heap_ok w" and fl: "fl_ok w" using b by (auto simp: base_ok_def)
  have tn: "t \<noteq> c" "t \<noteq> host_task (node w)" "t \<notin> rq_set w" using D(6,9,11) t by auto
  note hx = heap_okD [OF h x]
  have stk: "stack_top x \<noteq> nullptr" using hx(2) tn by auto
  have fs: "storage w xc \<noteq> after (tls_ptr x)" if "tls_ptr x \<noteq> nullptr"
    using hx(5) [OF xc tn(1) stk] hx(4) [OF stk that] by auto
  obtain st g where w': "w' = ?w1\<lparr>tls := st, g_current_sched_node := g, tasks := (tasks w)(t \<mapsto> reset_fields x)\<rparr>"
      "storage_touched (tls_ptr x) w st g"
    using task_reset_Ret [OF r, of x] x by (auto simp: set_fl_list_def storage_touched_def)
  have "heap_ok ?w1 = heap_ok w" "vr_of ?w1 = vr_of w"
    unfolding heap_ok_def storage_def task_at_def vr_of_def [abs_def] by (simp_all add: set_fl_list_def)
  then have b1: "base_ok ?w1"
    using b fl_ok_remove [OF fl, of t] by (simp add: base_ok_def) (simp add: set_fl_list_def)
  have lay: "layout (reset_fields x) = layout x" by (simp add: layout_def reset_fields_def)
  have "base_ok w'"
    by (rule base_ok_upd [OF b1 _ lay, of t])
      (use x tn w' storage_touched_dom [OF w'(2)] in \<open>simp_all add: set_fl_list_def\<close>)
  moreover have "cur_ok c w'"
    by (rule cur_ok_touched [OF cur xc fs tn(1,2), where x = "reset_fields x"])
      (use w' in \<open>simp_all add: set_fl_list_def\<close>)
  moreover have "distinct (fl_list (freelist w))" using fl by (simp add: fl_ok_def Let_def)
  ultimately show ?thesis
    using w'(1) by (intro exI [of _ x]) (simp add: set_fl_list_def set_remove1_eq)
qed

text \<open>A new task on a fresh mapping.\<close>

lemma heap_ok_new:
  assumes h: "heap_ok w" and new: "t \<notin> dom (tasks w)"
    and w': "tasks w' = (tasks w)(t \<mapsto> x)" "host_task (node w') = host_task (node w)"
      "\<And>a. tcbs (tls w) a \<noteq> None \<Longrightarrow> tcbs (tls w') a \<noteq> None"
      "tls_ptr x \<noteq> nullptr \<Longrightarrow> tcbs (tls w') (after (tls_ptr x)) \<noteq> None"
    and x: "stack_top x \<noteq> nullptr" "t \<in> region x" "tls_ptr x \<noteq> nullptr \<Longrightarrow> after (tls_ptr x) \<in> region x"
    and kind: "\<And>u y. tasks w u = Some y \<Longrightarrow> u \<noteq> host_task (node w) \<Longrightarrow> has_tls y = has_tls x"
    and fr: "\<And>u y. tasks w u = Some y \<Longrightarrow>
        u \<notin> region x \<and> storage w y \<notin> region x \<and> region x \<inter> region y = {}"
  shows "heap_ok w'"
proof -
  let ?h = "host_task (node w)"
  obtain hx where hx: "tasks w ?h = Some hx" "tls_ptr hx \<noteq> nullptr" using h by (auto simp: heap_ok_def)
  have th: "t \<noteq> ?h" using new hx(1) by auto
  have st: "storage w' y = storage w y" for y using w' th by (simp add: storage_def task_at_def)
  have stx: "storage w x = (if tls_ptr x = nullptr then storage w hx else after (tls_ptr x))"
    using hx by (simp add: storage_def task_at_def)
  have old: "u = t \<and> y = x \<or> u \<noteq> t \<and> tasks w u = Some y" if "tasks w' u = Some y" for u y
    using that w'(1) by (auto split: if_splits)
  have "tcbs (tls w') (storage w' y) \<noteq> None \<and> (stack_top y = nullptr \<longleftrightarrow> u = host_task (node w')) \<and>
      (stack_top y \<noteq> nullptr \<longrightarrow> u \<in> region y) \<and>
      (stack_top y \<noteq> nullptr \<and> tls_ptr y \<noteq> nullptr \<longrightarrow> after (tls_ptr y) \<in> region y)"
    if y: "tasks w' u = Some y" for u y
    using old [OF y]
  proof (elim disjE conjE)
    assume "u = t" "y = x"
    moreover have "tcbs (tls w') (storage w x) \<noteq> None"
      unfolding stx using w'(3,4) heap_okD(1) [OF h hx(1)] by simp
    ultimately show ?thesis using x w'(2) th st by simp
  next
    assume "tasks w u = Some y"
    from heap_okD(1-4) [OF h this] show ?thesis using w'(2,3) st by simp
  qed
  moreover have "v \<notin> region y \<and> storage w' z \<notin> region y"
    if yz: "tasks w' u = Some y" "tasks w' v = Some z" "u \<noteq> v" "stack_top y \<noteq> nullptr" for u y v z
  proof (cases "v = t")
    case True
    then have u: "tasks w u = Some y" "z = x" using old [OF yz(1)] old [OF yz(2)] yz(3) by auto
    have "u \<noteq> ?h" using heap_okD(2) [OF h u(1)] yz(4) by auto
    then have "storage w hx \<notin> region y" using heap_okD(5) [OF h u(1) hx(1)] yz(4) by simp
    then show ?thesis using True u(2) st stx fr [OF u(1)] x(2,3) by auto
  next
    case False
    then have v: "tasks w v = Some z" using old [OF yz(2)] by simp
    show ?thesis
      using old [OF yz(1)] fr [OF v] heap_okD(5) [OF h, of u y v z] v yz(3,4) st by (elim disjE) simp_all
  qed
  moreover have "\<exists>own. \<forall>u y. tasks w' u = Some y \<and> u \<noteq> host_task (node w') \<longrightarrow> has_tls y = own"
    using old kind w'(2) by metis
  moreover have "\<exists>hx. tasks w' (host_task (node w')) = Some hx \<and> tls_ptr hx \<noteq> nullptr"
    using hx w' th by simp
  ultimately show ?thesis unfolding heap_ok_def by blast
qed

text \<open>Where the object and the control block of a new task lie in its mapping.\<close>

lemma placement_offsets:
  fixes base tot siz :: "64 word"
  assumes bt: "unat base + unat tot < 2 ^ 64" "0 < unat base"
    and m: "unat siz + unat postfix_bytes < unat tot" "siz \<noteq> 0"
  defines "place \<equiv> base + tot - siz"
  shows "unat (place - base) < unat tot" "unat (after (place - postfix_bytes) - base) < unat tot"
    "place \<noteq> nullptr" "place - postfix_bytes \<noteq> nullptr" "base + tot \<noteq> nullptr"
proof -
  have offp: "place - base = tot - siz" by (simp add: place_def)
  have offt: "after (place - postfix_bytes) - base = tot - (siz + sizeof_tcbhead)"
    by (simp add: place_def after_def postfix_bytes_def)
  have szs: "unat (siz + sizeof_tcbhead) = unat siz + unat sizeof_tcbhead"
    using m(1) bt by (intro unat_add_no_wrap) (simp add: postfix_bytes_def sizeof_tls_def sizeof_tcbhead_def)
  have sz: "0 < unat siz" using m(2) by (simp add: unat_gt_0)
  show "unat (place - base) < unat tot"
    using m(1) sz unfolding offp by (subst unat_sub_le) auto
  have "unat sizeof_tcbhead < unat postfix_bytes" by (simp add: postfix_bytes_def sizeof_tls_def sizeof_tcbhead_def)
  then show "unat (after (place - postfix_bytes) - base) < unat tot"
    using m(1) sz szs unfolding offt by (subst unat_sub_le) auto
  have top: "unat (base + tot) \<noteq> 0" using bt by (simp add: unat_add_no_wrap)
  have pl: "unat place = unat base + unat tot - unat siz"
    using m(1) bt unfolding place_def by (subst unat_sub_le) (auto simp: unat_add_no_wrap)
  then have "unat place \<noteq> 0" using m(1) bt by auto
  moreover have "unat (place - postfix_bytes) \<noteq> 0" using m(1) bt pl by (subst unat_sub_le) auto
  ultimately show "place \<noteq> nullptr" "place - postfix_bytes \<noteq> nullptr" "base + tot \<noteq> nullptr"
    using top by (metis unat_0)+
qed

lemma create_ok:
  assumes b: "base_ok w" and cur: "cur_ok c w" and fm: "fresh_mapping e a w" and kind: "same_kind a w"
    and rqd: "rq_set w \<subseteq> dom (tasks w)" and r: "task_create e a w = Ret t w'"
  shows "\<exists>p stk sb tot. tasks w' = (tasks w)(t \<mapsto> fresh_task p stk sb tot) \<and> t \<notin> dom (tasks w) \<and> t \<noteq> nullptr
    \<and> base_ok w' \<and> cur_ok c w' \<and> freelist w' = freelist w \<and> node w' = node w \<and> conts w' = conts w"
proof -
  let ?tot = "st_size (stack a) + guard_size a"
  obtain base where m: "st_addr (stack a) = nullptr" "mapped_at (kernel e) ?tot base"
      "guard_size a \<noteq> 0 \<longrightarrow> os_mprotect (kernel e) base (guard_size a) = 0"
      "unat (sizeof_task e) + unat postfix_bytes < unat ?tot" "sizeof_task e \<noteq> 0"
    and fr: "\<And>u y. tasks w u = Some y \<Longrightarrow> \<not> unat (u - base) < unat ?tot \<and> \<not> unat (storage w y - base) < unat ?tot \<and>
               (\<forall>a. a \<in> region y \<longrightarrow> \<not> unat (a - base) < unat ?tot)"
    using fm unfolding fresh_mapping_def Let_def by blast
  let ?place = "base + ?tot - sizeof_task e"
  let ?q = "?place - postfix_bytes"
  let ?p = "if alloc_tls a then ?q else nullptr"
  have bt: "unat base + unat ?tot < 2 ^ 64" "0 < unat base"
    using m(2) by (auto simp: mapped_at_def word_less_nat_alt unat_gt_0)
  note off = placement_offsets [OF bt m(4,5)]
  obtain st sb g tr where w': "t = ?place" "w' = w\<lparr>os_trace := tr, tls := st,
       tasks := (tasks w)(?place \<mapsto> fresh_task ?p (base + ?tot) sb ?tot), g_current_sched_node := g\<rparr>"
     "storage_touched ?p w st g"
    using r off(4) task_create_alloc [OF m(1-3), of w]
    by (auto simp: Let_def storage_touched_def dest!: task_ctor_Ret)
  let ?x = "fresh_task ?p (base + ?tot) sb ?tot"
  have reg: "region ?x = {a. unat (a - base) < unat ?tot}" by (simp add: region_def)
  have new: "t \<notin> dom (tasks w)" using fr [of t] off(1) w'(1) by auto
  have h: "heap_ok w" using b by (simp add: base_ok_def)
  obtain xc where xc: "tasks w c = Some xc" using cur by (auto simp: cur_ok_def)
  have tn: "t \<noteq> c" "t \<noteq> host_task (node w)" using new xc h by (auto simp: heap_ok_def)
  have "heap_ok w'"
  proof (rule heap_ok_new [OF h new, of w' ?x])
    show "has_tls y = has_tls ?x" if "tasks w u = Some y" "u \<noteq> host_task (node w)" for u y
      using kind that off(4) by (auto simp: same_kind_def has_tls_def)
    show "u \<notin> region ?x \<and> storage w y \<notin> region ?x \<and> region ?x \<inter> region y = {}" if "tasks w u = Some y" for u y
      using fr [OF that] by (auto simp: reg)
  qed (use w' off storage_touched_dom [OF w'(3)] in \<open>auto simp: reg storage_touched_def split: if_splits\<close>)
  moreover have "fl_ok w'"
    by (rule fl_ok_cong [of w]) (use b w' new in \<open>auto simp: base_ok_def fl_ok_def Let_def task_at_def\<close>)
  moreover have "rq_ok (vr_of w') (node_rq (node w))"
    by (rule rq_ok_vr_cong [of "vr_of w"]) (use b w' rqd new in \<open>auto simp: base_ok_def vr_of_def\<close>)
  ultimately have "base_ok w'" using b w'(2) by (simp add: base_ok_def)
  moreover have "cur_ok c w'"
    by (rule cur_ok_touched [OF cur xc, of ?p t w' ?x])
      (use fr [OF xc] off(2) w' tn in \<open>auto split: if_splits\<close>)
  ultimately show ?thesis
    using w'(1,2) new off(3)
    by (intro exI [of _ ?p] exI [of _ "base + ?tot"] exI [of _ sb] exI [of _ ?tot]) simp
qed

text \<open>A task is made runnable at the end of a critical section of the task \<open>c\<close>.\<close>

lemma schedule_unlock_ok:
  assumes b: "base_ok w" and cur: "cur_ok c w" and c: "tasks w c = Some xc" "no_preempt_flag xc" "c \<notin> rq_set w"
    and sp: "\<not> spin_flag (node w)" and t: "tasks w t = Some x" "t \<noteq> c" "t \<notin> rq_set w" "t \<noteq> nullptr"
  shows "\<exists>w1 w' z. preempt_node w = Ret () w \<and> node_schedule t w = Ret () w1 \<and> preempt_unlock w1 = Ret () w'
     \<and> base_ok w' \<and> cur_ok c w' \<and> tasks w' = (tasks w)(t \<mapsto> z, c \<mapsto> xc\<lparr>no_preempt_flag := False\<rparr>)
     \<and> core z = core x \<and> no_preempt_flag z = no_preempt_flag x
     \<and> z = x\<lparr>vruntime := if vruntime x = 0 then min_vruntime (node_rq (node w)) else vruntime x\<rparr>
     \<and> \<not> spin_flag (node w') \<and> rq_set w' = insert t (rq_set w) \<and> deferred (node w') = deferred (node w)
     \<and> host_task (node w') = host_task (node w) \<and> conts w' = conts w \<and> freelist w' = freelist w
     \<and> last_tick (node w') = last_tick (node w)"
proof -
  obtain w4 z where w4: "node_schedule t w = Ret () w4" "base_ok w4" "\<not> spin_flag (node w4)"
    "tasks w4 = (tasks w)(t \<mapsto> z)" "layout z = layout x" "core z = core x" "no_preempt_flag z = no_preempt_flag x"
    "rq_set w4 = insert t (rq_set w)" "deferred (node w4) = deferred (node w)"
    "host_task (node w4) = host_task (node w)" "conts w4 = conts w" "freelist w4 = freelist w"
    "tls w4 = tls w" "g_current_sched_node w4 = g_current_sched_node w"
    "z = x\<lparr>vruntime := if vruntime x = 0 then min_vruntime (node_rq (node w)) else vruntime x\<rparr>"
    "last_tick (node w4) = last_tick (node w)"
    using node_schedule_ok [OF b sp t(1,3,4)] by blast
  let ?w5 = "w4\<lparr>tasks := (tasks w4)(c \<mapsto> xc\<lparr>no_preempt_flag := False\<rparr>)\<rparr>"
  have c4: "tasks w4 c = Some xc" using w4(4) t(2) c(1) by simp
  have cur4: "cur_ok c w4"
    by (rule cur_ok_upd [OF cur t(1) _ w4(4,13,10,14)]) (use w4(15) in simp)
  have "preempt_node w = Ret () w" using cur by (simp add: preempt_node_def cur_ok_def)
  moreover have "preempt_unlock w4 = Ret () ?w5"
    using preempt_unlock_Ret [of c w4, OF _ c4 c(2)] cur4 by (simp add: cur_ok_def)
  moreover have "base_ok ?w5" "cur_ok c ?w5"
    using upd_cur_ok [OF w4(2) cur4 c4, of "xc\<lparr>no_preempt_flag := False\<rparr>"] w4(8) t(2) c(3)
    by (simp_all add: layout_def)
  moreover have "tasks ?w5 = (tasks w)(t \<mapsto> z, c \<mapsto> xc\<lparr>no_preempt_flag := False\<rparr>)"
    using w4(4) by simp
  ultimately show ?thesis
    using w4 by (intro exI [of _ w4] exI [of _ ?w5] exI [of _ z]) simp
qed

text \<open>The same with the whole critical section, as in \<open>spawn\<close>.\<close>

lemma schedule_locked_ok:
  assumes b: "base_ok w" and cur: "cur_ok c w" and c: "tasks w c = Some xc" "\<not> no_preempt_flag xc" "c \<notin> rq_set w"
    and sp: "\<not> spin_flag (node w)" and t: "tasks w t = Some x" "t \<noteq> c" "t \<notin> rq_set w" "t \<noteq> nullptr"
  shows "\<exists>w' z. bind_outcome (preempt_lock w) (\<lambda>_ w5. with_dtor preempt_unlock
          (bind_outcome (preempt_node w5) (\<lambda>_ w6. bind_outcome (node_schedule t w6) (\<lambda>_ w7. Ret t w7)))) = Ret t w'
     \<and> base_ok w' \<and> cur_ok c w' \<and> tasks w' = (tasks w)(t \<mapsto> z, c \<mapsto> xc\<lparr>no_preempt_flag := False\<rparr>)
     \<and> core z = core x \<and> no_preempt_flag z = no_preempt_flag x
     \<and> z = x\<lparr>vruntime := if vruntime x = 0 then min_vruntime (node_rq (node w)) else vruntime x\<rparr>
     \<and> \<not> spin_flag (node w') \<and> rq_set w' = insert t (rq_set w) \<and> deferred (node w') = deferred (node w)
     \<and> host_task (node w') = host_task (node w) \<and> conts w' = conts w \<and> freelist w' = freelist w
     \<and> last_tick (node w') = last_tick (node w)"
proof -
  let ?xc = "xc\<lparr>no_preempt_flag := True\<rparr>"
  let ?w3 = "w\<lparr>tasks := (tasks w)(c \<mapsto> ?xc)\<rparr>"
  have b3: "base_ok ?w3" "cur_ok c ?w3"
    using upd_cur_ok [OF b cur c(1), of ?xc] c(3) by (simp_all add: layout_def)
  have lock: "preempt_lock w = Ret () ?w3"
    using cur c(1,2) by (intro preempt_lock_Ret) (auto simp: cur_ok_def)
  have t3: "tasks ?w3 c = Some ?xc" "no_preempt_flag ?xc" "c \<notin> rq_set ?w3" "\<not> spin_flag (node ?w3)"
    "tasks ?w3 t = Some x" "t \<notin> rq_set ?w3" using t sp c(3) by simp_all
  from schedule_unlock_ok [OF b3 t3(1-5) t(2) t3(6) t(4)] obtain w1 w' z where
    r: "preempt_node ?w3 = Ret () ?w3" "node_schedule t ?w3 = Ret () w1" "preempt_unlock w1 = Ret () w'"
    and w': "base_ok w'" "cur_ok c w'" "tasks w' = (tasks ?w3)(t \<mapsto> z, c \<mapsto> ?xc\<lparr>no_preempt_flag := False\<rparr>)"
      "core z = core x" "no_preempt_flag z = no_preempt_flag x"
      "z = x\<lparr>vruntime := if vruntime x = 0 then min_vruntime (node_rq (node ?w3)) else vruntime x\<rparr>"
      "\<not> spin_flag (node w')" "rq_set w' = insert t (rq_set ?w3)" "deferred (node w') = deferred (node ?w3)"
      "host_task (node w') = host_task (node ?w3)" "conts w' = conts ?w3" "freelist w' = freelist ?w3"
      "last_tick (node w') = last_tick (node ?w3)"
    by blast
  have "tasks w' = (tasks w)(t \<mapsto> z, c \<mapsto> xc\<lparr>no_preempt_flag := False\<rparr>)"
    using w'(3) t(2) by (auto simp: fun_eq_iff)
  with lock r w' show ?thesis by (intro exI [of _ w'] exI [of _ z]) simp
qed

lemma make_task_ok:
  assumes ok: "sched_ok P H w" and cur: "cur_ok c w" and fm: "fresh_mapping e a w" "same_kind a w"
    and r: "make_task e a w = Ret t w'"
  shows "\<exists>x. tasks w' = (tasks w)(t \<mapsto> x) \<and> (t \<notin> dom (tasks w) \<or> t \<in> fl_set w) \<and> t \<noteq> nullptr
    \<and> run_state x = STOPPED \<and> \<not> no_preempt_flag x \<and> joiner x = nullptr \<and> \<not> detached x \<and> vruntime x = 0
    \<and> base_ok w' \<and> cur_ok c w' \<and> fl_set w' = fl_set w - {t} \<and> node w' = node w \<and> conts w' = conts w"
proof -
  obtain x where c: "tasks w c = Some x" using cur by (auto simp: cur_ok_def)
  note s = sched_ok_curD [OF ok cur c]
  have fl: "set (fl_list (freelist w)) \<subseteq> dom (tasks w)" "nullptr \<notin> fl_set w"
    using s(1) by (auto simp: base_ok_def fl_ok_def Let_def)
  obtain u l where u: "find_task w a (fl_list (freelist w)) = Ret u l"
      "u \<noteq> nullptr \<Longrightarrow> u \<in> fl_set w \<and> l = remove1 u (fl_list (freelist w))"
      "u = nullptr \<Longrightarrow> l = fl_list (freelist w)"
    using find_task_Ret [OF fl(1), of a] fl(2) by (auto split: if_splits)
  show ?thesis
  proof (cases "u = nullptr")
    case True
    then have "task_create e a w = Ret t w'"
      using r u by (auto simp: make_task_def Let_def split: if_splits)
    from create_ok [OF s(1) cur fm s(9) this] obtain p stk sb tot where
      "tasks w' = (tasks w)(t \<mapsto> fresh_task p stk sb tot)" "t \<notin> dom (tasks w)" "t \<noteq> nullptr"
      "base_ok w'" "cur_ok c w'" "freelist w' = freelist w" "node w' = node w" "conts w' = conts w"
      by blast
    with fl show ?thesis by (intro exI [of _ "fresh_task p stk sb tot"]) auto
  next
    case False
    then have "t = u" "task_reset e t (set_fl_list (remove1 t (fl_list (freelist w))) w) = Ret () w'"
      using r u by (auto simp: make_task_def Let_def bind_outcome_Ret_iff split: if_splits)
    with reuse_ok [OF s(1) cur s(3), of t e "()" w'] u(2) [OF False] False obtain x where
      "tasks w' = (tasks w)(t \<mapsto> reset_fields x)" "base_ok w'" "cur_ok c w'"
      "fl_set w' = fl_set w - {t}" "node w' = node w" "conts w' = conts w"
      by blast
    with \<open>t = u\<close> u(2) [OF False] False show ?thesis
      by (intro exI [of _ "reset_fields x"]) (simp add: reset_fields_def)
  qed
qed

lemma spawn_ok:
  assumes ok: "sched_ok P H w" and cur: "cur_ok c w" and fm: "fresh_mapping e a w" "same_kind a w"
    and mk: "make_task e a w = Ret t w1" and ent: "ent \<noteq> nullptr"
  shows "\<exists>w' x. sched_spawn e cl a ent ar w = Ret t w' \<and> sched_ok P (insert t H) w' \<and> cur_ok c w' \<and> rq_set w' = insert t (rq_set w)
    \<and> tasks w' t = Some x \<and> entry x = ent \<and> arg x = ar \<and> (\<exists>y. tasks w1 t = Some y \<and> tls_ptr x = tls_ptr y) \<and> kept H w w'
    \<and> vruntime x = min_vruntime (node_rq (node w)) \<and> vr_of w' c = vr_of w c \<and> last_tick (node w') = last_tick (node w)"
proof -
  obtain xc where c: "tasks w c = Some xc" using cur by (auto simp: cur_ok_def)
  note s = sched_ok_curD [OF ok cur c]
  note D = table_okD [OF s(3) [unfolded tab_def]]
  obtain x where x: "tasks w1 = (tasks w)(t \<mapsto> x)" "t \<notin> dom (tasks w) \<or> t \<in> fl_set w" "t \<noteq> nullptr"
    "run_state x = STOPPED" "\<not> no_preempt_flag x" "joiner x = nullptr" "\<not> detached x"
    "base_ok w1" "cur_ok c w1" "fl_set w1 = fl_set w - {t}" "node w1 = node w" "conts w1 = conts w" "vruntime x = 0"
    using make_task_ok [OF ok cur fm mk] by blast
  have tc: "t \<noteq> c" using x(2) c D(6) by auto
  have tR: "t \<notin> rq_set w" using x(2) D(2,9) by auto
  let ?x = "x\<lparr>entry := ent, arg := ar, run_state := SUSPENDED\<rparr>"
  define w2 where "w2 = w1\<lparr>tasks := (tasks w1)(t \<mapsto> ?x), conts := (conts w1)(t := [Task_entry])\<rparr>"
  have b2: "base_ok w2"
    by (rule base_ok_upd [OF x(8), of t x ?x]) (simp_all add: x(1) layout_def w2_def)
  have cur2: "cur_ok c w2"
    by (rule cur_ok_upd [OF x(9), of t x ?x]) (simp_all add: x(1) w2_def)
  have c2: "tasks w2 c = Some xc" "tasks w2 t = Some ?x" "node w2 = node w"
    using c tc x by (simp_all add: w2_def)
  have "c \<notin> rq_set w2" "t \<notin> rq_set w2" "\<not> spin_flag (node w2)" using s(2,6) tR c2(3) by simp_all
  from schedule_locked_ok [OF b2 cur2 c2(1) s(5) this(1,3) c2(2) tc this(2) x(3), unfolded c2(3)]
  obtain w5 z where w5: "bind_outcome (preempt_lock w2) (\<lambda>_ w5. with_dtor preempt_unlock
          (bind_outcome (preempt_node w5) (\<lambda>_ w6. bind_outcome (node_schedule t w6) (\<lambda>_ w7. Ret t w7)))) = Ret t w5"
    "base_ok w5" "cur_ok c w5" "tasks w5 = (tasks w2)(t \<mapsto> z, c \<mapsto> xc\<lparr>no_preempt_flag := False\<rparr>)"
    "core z = core ?x" "no_preempt_flag z = no_preempt_flag ?x"
    "z = ?x\<lparr>vruntime := if vruntime ?x = 0 then min_vruntime (node_rq (node w)) else vruntime ?x\<rparr>"
    "\<not> spin_flag (node w5)" "rq_set w5 = insert t (rq_set w)" "deferred (node w5) = deferred (node w)"
    "host_task (node w5) = host_task (node w)" "conts w5 = conts w2" "freelist w5 = freelist w2"
    "last_tick (node w5) = last_tick (node w)"
    by blast
  have "task_start t (w1\<lparr>tasks := (tasks w1)(t \<mapsto> x\<lparr>entry := ent, arg := ar\<rparr>)\<rparr>) = Ret () w2"
    using x(4,9) tc by (auto simp: task_start_def cur_ok_def w2_def)
  then have spawn: "sched_spawn e cl a ent ar w = Ret t w5"
    using ent inited_ok [OF ok, of cl] mk w5(1) x(1) by (simp add: sched_spawn_def)
  have ts5: "tasks w5 = (tasks w)(t \<mapsto> z, c \<mapsto> xc\<lparr>no_preempt_flag := False\<rparr>)"
    using w5(4) x(1) tc by (auto simp: w2_def fun_eq_iff)
  have "table_ok P ((tasks w)(t \<mapsto> z)) ((conts w)(t := [Task_entry])) (insert t (rq_set w)) (fl_set w - {t})
      (deferred (node w)) (host_task (node w)) (insert t H) c"
    by (rule table_spawn [OF s(3) [unfolded tab_def] x(2,3)]) (use w5(5,6) x ent in \<open>auto simp: core_def\<close>)
  from table_ok_core [OF this, of c xc "xc\<lparr>no_preempt_flag := False\<rparr>"]
  have tab: "tab P (insert t H) c w5"
    using c tc w5(9-13) x(10-12) ts5 by (simp add: core_def tab_def w2_def)
  have "tasks w5 t = Some z" "entry z = ent" "arg z = ar" "vruntime z = min_vruntime (node_rq (node w))"
      "vr_of w5 c = vr_of w c" "\<exists>y. tasks w1 t = Some y \<and> tls_ptr z = tls_ptr y"
    using ts5 w5(7) tc x(1,13) c by (simp_all add: vr_of_def)
  moreover have "sched_ok P (insert t H) w5"
    using sched_okI [of w5 c P "insert t H" "xc\<lparr>no_preempt_flag := False\<rparr>"] w5(2,3,8) tab s(4) ts5 by simp
  moreover have "kept H w w5"
    using x(2) D(4,10) c s(4) ts5 by (auto simp: kept_def)
  ultimately show ?thesis using spawn w5(3,9,14) by blast
qed

lemma spawn_Ret:
  assumes ok: "sched_ok P H w" and cur: "cur_ok c w" and fm: "fresh_mapping e a w" "same_kind a w"
    and r: "sched_spawn e cl a ent ar w = Ret t w'"
  shows "sched_ok P (insert t H) w' \<and> kept H w w'"
proof -
  have ent: "ent \<noteq> nullptr" using r by (auto simp: sched_spawn_def split: if_splits)
  obtain w1 where mk: "make_task e a w = Ret t w1"
    using r ent inited_ok [OF ok, of cl]
    by (auto simp: sched_spawn_def bind_outcome_Ret_iff with_dtor_Ret_iff)
  from spawn_ok [OF ok cur fm mk ent, of cl ar] r show ?thesis by auto
qed

section \<open>Deadlock\<close>

text \<open>A task that gives up control when no task is runnable gets the exception of \<open>rq::pop\<close>.\<close>

lemma node_yield_deadlock:
  assumes b: "base_ok w" and cur: "cur_ok c w" and spin: "\<not> spin_flag (node w)"
    and c: "tasks w c = Some x" "run_state x \<noteq> RUNNING" and d: "deferred_ok c w" and R: "rq_set w = {}"
  shows "\<exists>w'. node_yield e cl k w = Throw (Runtime_error ''nothing to do. deadlock?'') w' \<and> cur_ok c w'
     \<and> (\<exists>x'. tasks w' c = Some x' \<and> no_preempt_flag x' = no_preempt_flag x \<and> run_state x' = run_state x)"
proof -
  let ?w1 = "w\<lparr>node := (node w)\<lparr>spin_flag := True\<rparr>\<rparr>"
  have b1: "base_ok ?w1" and cur1: "cur_ok c ?w1"
    using b cur by (subst base_ok_cong cur_ok_cong; simp)+
  have d1: "deferred_ok c ?w1" using d by (simp add: deferred_ok_def)
  obtain w2 where w2: "return_deferred e ?w1 = Ret () w2" "base_ok w2" "cur_ok c w2"
    "node w2 = (node w)\<lparr>spin_flag := True, deferred := nullptr\<rparr>"
    "deferred_gone (tasks w) (fl_set w) (deferred (node w)) (tasks w2) (fl_set w2)"
    using return_deferred_ok [OF b1 cur1 d1, of e] by auto
  have c2: "tasks w2 c = Some x"
    using c(1) d by (subst deferred_gone_other [OF w2(5)]) (auto simp: deferred_ok_def Let_def)
  have q: "runqueue (node_rq (node w2)) = []" "sleepqueue (node_rq (node w2)) = []"
    using w2(2,4) R by (auto simp: base_ok_def)
  have cw2: "task_current w2 = Ret c w2" using w2(3) by (simp add: cur_ok_def)
  have run: "running (node w)" using b by (simp add: base_ok_def)
  let ?x = "charged cl w2 x"
  let ?d = "if run_state x = STOPPED \<and> detached x then c else deferred (node w2)"
  let ?w3 = "w2\<lparr>tasks := (tasks w2)(c \<mapsto> ?x), node := (node w2)\<lparr>deferred := ?d\<rparr>\<rparr>"
  have pop: "rq_pop vr a a' (node_rq (node w2)) = Throw (Runtime_error ''nothing to do. deadlock?'') (node_rq (node w2))"
    for vr a a' using q by (simp add: rq_pop_def rq_wake_def)
  have "get_next_task cl c w2 = Throw (Runtime_error ''nothing to do. deadlock?'') ?w3"
    using c2 c(2) pop
    by (cases "run_state x = STOPPED \<and> detached x")
      (auto simp: get_next_task_def Let_def lift_rq_def set_rq_def set_node_def)
  then have "node_yield e cl k w = Throw (Runtime_error ''nothing to do. deadlock?'')
      (?w3\<lparr>node := (node ?w3)\<lparr>spin_flag := False\<rparr>\<rparr>)"
    using run spin w2(1) cw2 by (simp add: node_yield_def)
  moreover have "cur_ok c (?w3\<lparr>node := (node ?w3)\<lparr>spin_flag := False\<rparr>\<rparr>)"
    by (rule cur_ok_upd [OF w2(3) c2, of ?x]) simp_all
  ultimately show ?thesis using c2 by auto
qed

lemma unlock_Throw:
  assumes "cur_ok c w" "tasks w c = Some x" "no_preempt_flag x"
  shows "\<exists>w'. guarded preempt_unlock (Throw ex w) = Throw ex w' \<and> current_is c w'
    \<and> (\<exists>x'. tasks w' c = Some x' \<and> run_state x' = run_state x)"
  using assms by (auto simp: cur_ok_def preempt_unlock_def current_is_def)

lemma exit_deadlock:
  assumes ok: "sched_ok P H w" and cur: "cur_ok c w" and c: "tasks w c = Some x" "entry x \<noteq> nullptr"
    and ne: "rq_set w = {}" "joiner x = nullptr"
  shows "\<exists>w'. sched_exit e cl v k w = Throw (Runtime_error ''nothing to do. deadlock?'') w'"
proof -
  note s = sched_ok_curD [OF ok cur c(1)]
  let ?xs = "x\<lparr>no_preempt_flag := True, return_value := v, run_state := STOPPED\<rparr>"
  let ?w1 = "w\<lparr>tasks := (tasks w)(c \<mapsto> ?xs)\<rparr>"
  have w1: "base_ok ?w1" "cur_ok c ?w1"
    using upd_cur_ok [OF s(1) cur c(1), of ?xs] s(6) by (simp_all add: layout_def)
  have d: "deferred_ok c ?w1" using s(8) by (auto simp: deferred_ok_def Let_def)
  obtain w' x' where y: "node_yield e cl (In_exit # k) ?w1 = Throw (Runtime_error ''nothing to do. deadlock?'') w'"
      "cur_ok c w'" "tasks w' c = Some x'" "no_preempt_flag x'"
    using node_yield_deadlock [OF w1, of ?xs e cl "In_exit # k"] s(2) d ne(1) by auto
  have "preempt_node ?w1 = Ret () ?w1" using s(11) by (simp add: preempt_node_def current_node_def)
  then have "sched_exit e cl v k w = guarded preempt_unlock (node_yield e cl (In_exit # k) ?w1)"
    using s(5,10) c ne(2) by (simp add: sched_exit_def preempt_lock_Ret)
  then show ?thesis using unlock_Throw [OF y(2-4)] y(1) by metis
qed

lemma join_deadlock:
  assumes ok: "sched_ok P H w" and cur: "cur_ok c w" and t: "t \<in> H" "t \<noteq> c"
    and y: "tasks w t = Some y" "run_state y \<noteq> STOPPED" and ne: "rq_set w = {}"
  shows "\<exists>w'. sched_join e cl (Some t) want k w = Throw (Runtime_error ''nothing to do. deadlock?'') w'"
proof -
  obtain x where c: "tasks w c = Some x" using cur by (auto simp: cur_ok_def)
  note s = sched_ok_curD [OF ok cur c]
  let ?k = "In_sched_yield # In_join t want # k"
  define wk where "wk = join_state t y c x w"
  note jw = join_waits [OF ok cur c t y, folded wk_def]
  have "tasks wk c = Some (x\<lparr>run_state := WAITING, no_preempt_flag := True\<rparr>)" "rq_set wk = {}"
    using ne jw(6) by (simp_all add: wk_def join_state_def)
  then obtain w' x' where r: "node_yield e cl ?k wk = Throw (Runtime_error ''nothing to do. deadlock?'') w'"
      "cur_ok c w'" "tasks w' c = Some x'" "no_preempt_flag x'"
    using node_yield_deadlock [OF jw(2-4) _ _ jw(5), of _ e cl ?k] by fastforce
  obtain w'' where "guarded preempt_unlock (node_yield e cl ?k wk)
      = Throw (Runtime_error ''nothing to do. deadlock?'') w''"
    using unlock_Throw [OF r(2-4)] r(1) by metis
  then show ?thesis using jw(1) by simp
qed

end
