(* ===== verification/Sched_Park.thy ===== *)
theory Sched_Park
  imports Sched_Safe
begin

text \<open>
  Parking: a task waits on a waiter, is made runnable again, or hands control to the task that
  waits. The three calls keep the invariant of the scheduler; the parked tasks are those of the
  state, and no task is parked when none is left to run.
\<close>

section \<open>Parked tasks\<close>

text \<open>The set \<open>P\<close> of the invariant is what the state says.\<close>

lemma sched_ok_parked:
  assumes ok: "sched_ok P H w"
  shows "P = parked w"
proof -
  obtain c x where c: "cur_ok c w" "tasks w c = Some x" using sched_ok_obtain [OF ok] .
  note s = sched_ok_curD [OF ok c]
  note D = table_okD [OF s(3) [unfolded tab_def]]
  have "t \<in> parked w" if t: "t \<in> P" for t
  proof -
    obtain y where y: "tasks w t = Some y" "t \<notin> fl_set w" using D(18,19) t by auto
    with row_okD(17) [OF D(17) [OF y] t] show ?thesis by (auto simp: parked_def)
  qed
  moreover have "t \<in> P" if t: "t \<in> parked w" for t
  proof -
    obtain y where y: "tasks w t = Some y" "run_state y = WAITING" "t \<notin> rq_set w" "parks (conts w) t"
      using t by (auto simp: parked_def)
    have "t \<notin> fl_set w" "t \<noteq> c" using D(16) [OF y(1)] y(2) c(2) s(4) y(1) by auto
    from row_okD(15) [OF D(17) [OF y(1) this(1)] this(2)] y parks_not_waits show ?thesis by auto
  qed
  ultimately show ?thesis by blast
qed

section \<open>Waiting\<close>

lemma waiter_wait_eq:
  assumes ok: "sched_ok P H w" and cur: "cur_ok c w" and c: "tasks w c = Some x"
  defines "wk \<equiv> w\<lparr>tasks := (tasks w)(c \<mapsto> x\<lparr>run_state := WAITING, no_preempt_flag := True\<rparr>)\<rparr>"
  shows "waiter_wait e cl k w = guarded preempt_unlock (node_yield e cl (In_sched_yield # k) wk)"
    "base_ok wk" "cur_ok c wk" "\<not> spin_flag (node wk)" "deferred_ok c wk"
proof -
  note s = sched_ok_curD [OF ok cur c]
  have "preempt_node wk = Ret () wk" using s(11) by (simp add: wk_def preempt_node_def current_node_def)
  then show "waiter_wait e cl k w = guarded preempt_unlock (node_yield e cl (In_sched_yield # k) wk)"
    using s(5,10,11) c
    by (simp add: waiter_wait_def sched_yield_def preempt_lock_def current_node_def wk_def)
  show "base_ok wk" "cur_ok c wk"
    using upd_cur_ok [OF s(1) cur c, of "x\<lparr>run_state := WAITING, no_preempt_flag := True\<rparr>"] s(6)
    by (simp_all add: wk_def layout_def)
  show "\<not> spin_flag (node wk)" "deferred_ok c wk"
    using s(2,8) by (auto simp: wk_def deferred_ok_def Let_def)
qed

text \<open>A task that waits gives control to a task that can run.\<close>

lemma wait_ok:
  assumes ok: "sched_ok P H w" and cur: "cur_ok c w" and c: "tasks w c = Some x" and ne: "rq_set w \<noteq> {}"
  shows "\<exists>n w'. waiter_wait e cl [] w = Ret Switched w' \<and> between (insert c P) H n w'
     \<and> n \<in> rq_set w \<and> kept H w w' \<and> rq_set w' = rq_set w - {n}"
proof -
  note s = sched_ok_curD [OF ok cur c]
  let ?d = "deferred (node w)" and ?h = "host_task (node w)"
  let ?x1 = "x\<lparr>run_state := WAITING, no_preempt_flag := True\<rparr>"
  define wk where "wk = w\<lparr>tasks := (tasks w)(c \<mapsto> ?x1)\<rparr>"
  note ww = waiter_wait_eq [OF ok cur c, folded wk_def]
  have n1: "node wk = node w" "conts wk = conts w" "freelist wk = freelist w" by (simp_all add: wk_def)
  have p: "tasks wk c = Some ?x1" "c \<notin> rq_set wk" "c \<noteq> nullptr" "rq_set wk \<subseteq> dom (tasks wk)"
    using s by (auto simp: wk_def)
  have R1: "rq_set w = (if run_state ?x1 = RUNNING then insert c (rq_set wk) else rq_set wk)"
      "nullptr = (if run_state ?x1 = STOPPED \<and> detached ?x1 then c else nullptr)" "rq_set w \<noteq> {}"
    using ne by (simp_all add: n1)
  obtain n w' ts F where r: "n \<in> rq_set w" "deferred_gone (tasks wk) (fl_set w) ?d ts F"
    "node_yield e cl [In_sched_yield] wk = Ret (if n = c then Returned else Switched) w'"
    "base_ok w'" "cur_ok n w'" "\<not> spin_flag (node w')" "rq_set w' = rq_set w - {n}" "fl_set w' = F"
    "deferred (node w') = nullptr" "host_task (node w') = ?h"
    "tasks w' = ts(c \<mapsto> if n = c then charged cl w ?x1 else demoted (charged cl w ?x1))"
    "conts w' = (if n = c then conts w else (conts w)(c := [In_switch_to c, In_node_yield, In_sched_yield]))"
    using node_yield_ok [OF ww(2-4) p(1-3) ww(5) p(4) R1, of e cl "[In_sched_yield]"] unfolding n1 by blast
  have nc: "n \<noteq> c" using r(1) s(6) by auto
  let ?x2 = "demoted (charged cl w ?x1)" and ?k = "[In_switch_to c, In_node_yield, In_sched_yield]"
  have T1: "table_ok (insert c P) ((tasks w)(c \<mapsto> ?x2)) ((conts w)(c := ?k)) (rq_set w) (fl_set w) ?d ?h H nullptr"
    by (rule table_park_wait [OF s(3) [unfolded tab_def] c])
      (use s(4) in \<open>simp_all add: demoted_def parks_def\<close>)
  have dg: "deferred_gone ((tasks w)(c \<mapsto> ?x2)) (fl_set w) ?d (tasks w') F"
    using deferred_gone_upd [OF r(2), of c ?x2] s(8) nc r(11) by (auto simp: wk_def deferred_ok_def Let_def)
  have "between (insert c P) H n w'"
    using table_deferred_gone [OF T1 dg] r nc by (simp add: between_def insert_absorb)
  moreover have "kept H w w'"
    by (rule kept_frame [OF s(3) c])
      (use s(4) deferred_gone_other [OF r(2)] r(11) in \<open>auto simp: wk_def\<close>)
  ultimately show ?thesis using ww(1) r(1,3,7) nc by auto
qed

lemma wait_deadlock:
  assumes ok: "sched_ok P H w" and cur: "cur_ok c w" and c: "tasks w c = Some x" and ne: "rq_set w = {}"
  shows "\<exists>w' x'. waiter_wait e cl k w = Throw (Runtime_error ''nothing to do. deadlock?'') w' \<and> current_is c w'
    \<and> tasks w' c = Some x' \<and> run_state x' = WAITING"
proof -
  let ?x1 = "x\<lparr>run_state := WAITING, no_preempt_flag := True\<rparr>"
  define wk where "wk = w\<lparr>tasks := (tasks w)(c \<mapsto> ?x1)\<rparr>"
  note ww = waiter_wait_eq [OF ok cur c, folded wk_def]
  have "tasks wk c = Some ?x1" "rq_set wk = {}" using ne by (simp_all add: wk_def)
  then obtain w' x' where r: "node_yield e cl (In_sched_yield # k) wk = Throw (Runtime_error ''nothing to do. deadlock?'') w'"
      "cur_ok c w'" "tasks w' c = Some x'" "no_preempt_flag x'" "run_state x' = WAITING"
    using node_yield_deadlock [OF ww(2-4) _ _ ww(5), of _ e cl "In_sched_yield # k"] by fastforce
  show ?thesis using ww(1) unlock_Throw [OF r(2-4)] r(1,5) by metis
qed

section \<open>Waking\<close>

text \<open>A parked task, as the invariant describes it.\<close>

lemma parked_task:
  assumes T: "tab P H c w" and t: "t \<in> P"
  obtains y where "tasks w t = Some y" "run_state y = WAITING" "t \<noteq> c" "t \<notin> rq_set w" "t \<notin> fl_set w" "t \<noteq> nullptr"
    "t \<noteq> deferred (node w)" "parks (conts w) t"
proof -
  note D = table_okD [OF T [unfolded tab_def]]
  obtain y where y: "tasks w t = Some y" "t \<notin> fl_set w" using D(18,19) t by auto
  note r = row_okD(11,17) [OF D(17) [OF y]]
  show thesis by (rule that [OF y(1)]) (use r t y D(1) in auto)
qed

lemma wake_ok:
  assumes ok: "sched_ok P H w" and cur: "cur_ok c w" and t: "t \<in> P"
  shows "\<exists>w'. waiter_wake t w = Ret () w' \<and> sched_ok (P - {t}) H w' \<and> cur_ok c w'
     \<and> rq_set w' = insert t (rq_set w) \<and> kept H w w'"
proof -
  obtain x where c: "tasks w c = Some x" using cur by (auto simp: cur_ok_def)
  note s = sched_ok_curD [OF ok cur c]
  obtain y where y: "tasks w t = Some y" "run_state y = WAITING" "t \<noteq> c" "t \<notin> rq_set w" "t \<noteq> nullptr"
    using parked_task [OF s(3) t] by blast
  let ?x = "x\<lparr>no_preempt_flag := True\<rparr>" and ?y = "y\<lparr>run_state := SUSPENDED\<rparr>"
  define w1 where "w1 = w\<lparr>tasks := (tasks w)(c \<mapsto> ?x, t \<mapsto> ?y)\<rparr>"
  have b1: "base_ok (w\<lparr>tasks := (tasks w)(c \<mapsto> ?x)\<rparr>)" "cur_ok c (w\<lparr>tasks := (tasks w)(c \<mapsto> ?x)\<rparr>)"
    using upd_cur_ok [OF s(1) cur c, of ?x] s(6) by (simp_all add: layout_def)
  have b: "base_ok w1"
    by (rule base_ok_upd [OF b1(1), of t y ?y]) (use y in \<open>simp_all add: w1_def layout_def\<close>)
  have cur1: "cur_ok c w1"
    by (rule cur_ok_upd [OF b1(2), of t y ?y]) (use y in \<open>simp_all add: w1_def\<close>)
  have p: "tasks w1 c = Some ?x" "no_preempt_flag ?x" "c \<notin> rq_set w1" "\<not> spin_flag (node w1)"
    "tasks w1 t = Some ?y" "t \<notin> rq_set w1" "node w1 = node w" "conts w1 = conts w" "freelist w1 = freelist w"
    using y s(2,6) by (simp_all add: w1_def)
  from schedule_unlock_ok [OF b cur1 p(1-5) y(3) p(6) y(5)] obtain w2 w' z where
    r: "preempt_node w1 = Ret () w1" "node_schedule t w1 = Ret () w2" "preempt_unlock w2 = Ret () w'"
    and w': "base_ok w'" "cur_ok c w'" "tasks w' = (tasks w1)(t \<mapsto> z, c \<mapsto> ?x\<lparr>no_preempt_flag := False\<rparr>)"
      "\<exists>v. z = ?y\<lparr>vruntime := v\<rparr>" "no_preempt_flag z = no_preempt_flag ?y" "\<not> spin_flag (node w')"
      "rq_set w' = insert t (rq_set w)" "deferred (node w') = deferred (node w)"
      "host_task (node w') = host_task (node w)" "conts w' = conts w" "freelist w' = freelist w"
    unfolding p(7-9) by blast
  have wake: "waiter_wake t w = Ret () w'"
    using y s(5,10) c r by (simp add: waiter_wake_def preempt_lock_Ret w1_def)
  have "table_ok (P - {t}) ((tasks w)(t \<mapsto> z)) (conts w) (insert t (rq_set w)) (fl_set w)
      (deferred (node w)) (host_task (node w)) H c"
    by (rule table_wake [OF s(3) [unfolded tab_def] t y(1)]) (use w'(4,5) in auto)
  from table_ok_core [OF this, of c x "x\<lparr>no_preempt_flag := False\<rparr>"]
  have tab: "tab (P - {t}) H c w'"
    using c y(3) w'(3,7-11) by (simp add: core_def tab_def w1_def fun_upd_twist)
  have "sched_ok (P - {t}) H w'"
    using sched_okI [OF w'(1,6,2) tab, of "x\<lparr>no_preempt_flag := False\<rparr>"] w'(3) s(4) by simp
  moreover have "kept H w w'" using w'(3) y(1,2) c s(4) by (auto simp: kept_def w1_def)
  ultimately show ?thesis using wake w'(2,7) by blast
qed

section \<open>Handing over\<close>

text \<open>\<open>swap\<close> switches to the parked task, whatever is queued, and parks the current one.\<close>

lemma swap_ok:
  assumes ok: "sched_ok P H w" and cur: "cur_ok c w" and t: "t \<in> P"
  shows "\<exists>w'. waiter_swap cl t [] w = Ret Switched w' \<and> between (insert c (P - {t})) H t w'
     \<and> rq_set w' = rq_set w \<and> kept H w w'"
proof -
  obtain x where c: "tasks w c = Some x" using cur by (auto simp: cur_ok_def)
  note s = sched_ok_curD [OF ok cur c]
  obtain y where y: "tasks w t = Some y" "run_state y = WAITING" "t \<noteq> c" "t \<notin> rq_set w" "t \<noteq> nullptr"
    using parked_task [OF s(3) t] by blast
  let ?x = "x\<lparr>no_preempt_flag := True, run_state := WAITING\<rparr>"
  let ?x1 = "charged cl w ?x"
  define w1 where "w1 = w\<lparr>tasks := (tasks w)(c \<mapsto> ?x1), node := (node w)\<lparr>spin_flag := False, last_tick := tick0 cl\<rparr>\<rparr>"
  have b1: "base_ok (w\<lparr>tasks := (tasks w)(c \<mapsto> ?x1)\<rparr>)" "cur_ok c (w\<lparr>tasks := (tasks w)(c \<mapsto> ?x1)\<rparr>)"
    using upd_cur_ok [OF s(1) cur c, of ?x1] s(6) by (simp_all add: layout_def)
  have b: "base_ok w1" "cur_ok c w1"
    using b1 by (subst base_ok_cong cur_ok_cong; simp add: w1_def)+
  have p: "tasks w1 c = Some ?x1" "tasks w1 t = Some y" using y by (simp_all add: w1_def)
  obtain w' where w': "switch_to_internal t (Some set_current_node) [In_swap] w1 = Ret Switched w'"
    "base_ok w'" "cur_ok t w'" "tasks w' = (tasks w1)(c \<mapsto> demoted ?x1)"
    "conts w' = (conts w1)(c := [In_switch_to c, In_swap])" "node w' = node w1" "freelist w' = freelist w1"
    using switch_ok [OF b p y(3)] by blast
  have tc: "task_current (w\<lparr>tasks := A, node := m\<rparr>) = Ret c (w\<lparr>tasks := A, node := m\<rparr>)" for A m
    using s(10) by (intro task_current_Ret) (simp add: current_is_def)
  have "node_switch_to (tick0 cl) t [In_swap] (w\<lparr>tasks := (tasks w)(c \<mapsto> ?x)\<rparr>) = Ret Switched w'"
    using s(2) w'(1) by (simp add: node_switch_to_def set_node_def w1_def tc)
  moreover have "preempt_node (w\<lparr>tasks := (tasks w)(c \<mapsto> ?x)\<rparr>) = Ret () (w\<lparr>tasks := (tasks w)(c \<mapsto> ?x)\<rparr>)"
    using s(11) by (simp add: preempt_node_def current_node_def)
  ultimately have swap: "waiter_swap cl t [] w = Ret Switched w'"
    using s(5,10) c by (simp add: waiter_swap_def preempt_lock_Ret)
  have "table_ok (P - {t}) ((tasks w)(t \<mapsto> y)) (conts w) (insert t (rq_set w)) (fl_set w)
      (deferred (node w)) (host_task (node w)) H c"
    by (rule table_wake [OF s(3) [unfolded tab_def] t y(1)]) (use y(2) in simp_all)
  then have "table_ok (P - {t}) (tasks w) (conts w) (insert t (rq_set w)) (fl_set w)
      (deferred (node w)) (host_task (node w)) H c" using y(1) by (simp add: fun_upd_idem)
  from table_park_wait [OF this c, of "demoted ?x1" "[In_switch_to c, In_swap]"]
  have "table_ok (insert c (P - {t})) (tasks w') (conts w') (insert t (rq_set w)) (fl_set w)
      (deferred (node w)) (host_task (node w)) H nullptr"
    using s(4) w'(4,5) by (simp add: demoted_def parks_def w1_def)
  then have "between (insert c (P - {t})) H t w'"
    using w' y(4) by (simp add: between_def w1_def)
  moreover have "kept H w w'" using w'(4) c s(4) by (auto simp: kept_def w1_def)
  ultimately show ?thesis using swap w'(6) by (simp add: w1_def)
qed

end
