(* ===== verification/Sched_Reach.thy ===== *)
theory Sched_Reach
  imports Sched_Park
begin

text \<open>
  The states a program reaches through its calls. Every call keeps the invariant, from the
  first use of the library on.
\<close>

section \<open>Definitions\<close>

text \<open>
  Programs as sequences of calls. \<open>H\<close> are the handles user code holds: \<open>spawn\<close> creates one,
  \<open>join\<close> and \<open>detach\<close> use one up; no task joins itself and no task sleeps. Waiters wake the tasks they
  keep. Two premises of \<open>spawn\<close> restrict the program and not the code: the kernel maps new stacks
  apart from those in use (\<open>fresh_mapping\<close>), and all created tasks are of one kind (\<open>same_kind\<close>),
  which \<open>spawn\<close> does not check; what happens otherwise is in \<open>light_task_runs_on_foreign_stack\<close>.
  A call that throws is not a step.
\<close>

inductive sched_step :: "addr set \<times> gstate \<Rightarrow> addr set \<times> gstate \<Rightarrow> bool" where
  step_yield: "exec e cl Op_yield w = Ret r w' \<Longrightarrow> sched_step (H, w) (H, w')"
| step_tick: "exec e cl Op_tick w = Ret r w' \<Longrightarrow> sched_step (H, w) (H, w')"
| step_exit: "exec e cl (Op_exit v) w = Ret r w' \<Longrightarrow> sched_step (H, w) (H, w')"
| step_return: "exec e cl (Op_return v) w = Ret r w' \<Longrightarrow> sched_step (H, w) (H, w')"
| step_join: "exec e cl (Op_join (Some t) want) w = Ret r w' \<Longrightarrow> t \<in> H \<Longrightarrow> \<not> current_is t w
    \<Longrightarrow> sched_step (H, w) (H - {t}, w')"
| step_detach: "exec e cl (Op_detach (Some t)) w = Ret r w' \<Longrightarrow> t \<in> H
    \<Longrightarrow> sched_step (H, w) (H - {t}, w')"
| step_spawn: "exec e cl (Op_spawn a ent ar) w = Ret (New_handle t) w' \<Longrightarrow> fresh_mapping e a w
    \<Longrightarrow> same_kind a w \<Longrightarrow> sched_step (H, w) (insert t H, w')"
| step_wait: "exec e cl Op_wait w = Ret r w' \<Longrightarrow> sched_step (H, w) (H, w')"
| step_wake: "exec e cl (Op_wake t) w = Ret r w' \<Longrightarrow> t \<in> parked w \<Longrightarrow> sched_step (H, w) (H, w')"
| step_swap: "exec e cl (Op_swap t) w = Ret r w' \<Longrightarrow> t \<in> parked w \<Longrightarrow> sched_step (H, w) (H, w')"

inductive_cases sched_stepE: "sched_step s s'"

inductive sched_reach :: "addr set \<times> gstate \<Rightarrow> addr set \<times> gstate \<Rightarrow> bool" where
  reach_refl: "sched_reach s s"
| reach_step: "sched_reach s s' \<Longrightarrow> sched_step s' s'' \<Longrightarrow> sched_reach s s''"

text \<open>
  The program before its first use of the library: no tasks, and the kernel thread's own
  control block in use.
\<close>

definition pristine :: "gstate \<Rightarrow> bool" where
  "pristine w \<longleftrightarrow>
     \<not> inited w \<and> tasks w = Map.empty \<and> host_task (node w) \<noteq> nullptr \<and>
     tcbs (tls w) (fs (tls w)) \<noteq> None \<and> tls_current (tls w) \<noteq> nullptr"

abbreviation sched_inv :: "addr set \<Rightarrow> gstate \<Rightarrow> bool" where
  "sched_inv H w \<equiv> sched_ok (parked w) H w"

section \<open>Calls of user code\<close>

lemma exec_switched:
  assumes "run_op e cl p w = Ret (Switched, v) w1" and "between P H n w1"
  shows "\<exists>w'. exec e cl p w = Ret (resumed_result n w1) w' \<and> sched_ok P H w' \<and> cur_ok n w'
    \<and> (\<forall>u. u \<in> insert n (rq_set w1) \<longrightarrow> vr_of w' u = vr_of w1 u) \<and> kept H w1 w'
    \<and> conts w' = conts w1 \<and> rq_set w' = rq_set w1
    \<and> (\<exists>x x'. tasks w1 n = Some x \<and> tasks w' n = Some x' \<and> entry x' = entry x \<and> joiner x' = joiner x \<and> tls_ptr x' = tls_ptr x)"
  using assms resume_ok [OF assms(2), of e cl] by (simp add: exec_def)

lemma exec_yield_ok:
  assumes ok: "sched_ok P H w" and c: "cur_ok c w" and p: "p = Op_yield \<or> p = Op_tick"
  shows "\<exists>r w' n. exec e cl p w = Ret r w' \<and> sched_ok P H w' \<and> cur_ok n w' \<and> n \<in> insert c (rq_set w)
     \<and> kept H w w' \<and> charged_only c cl w w' \<and> insert n (rq_set w') = insert c (rq_set w)
     \<and> (\<forall>u. u \<in> insert c (rq_set w) \<longrightarrow> vr_of w' n \<le> vr_of w' u)"
proof -
  obtain x where x: "tasks w c = Some x" using c by (auto simp: cur_ok_def)
  note s = sched_ok_curD [OF ok c x]
  let ?f = "if p = Op_yield then In_sched_yield else In_trap"
  let ?w1 = "w\<lparr>tasks := (tasks w)(c \<mapsto> x\<lparr>no_preempt_flag := True\<rparr>)\<rparr>"
  have run: "run_op e cl p w = no_value (guarded preempt_unlock (node_yield e cl [?f] ?w1))"
    using p s(5,10,11) x
    by (auto simp: run_op_def sched_yield_def preempt_trap_def preempt_held_def preempt_lock_Ret
        preempt_node_def current_node_def)
  have "?f = In_sched_yield \<or> ?f = In_trap" by simp
  from yield_ok [OF ok c x this, of e cl] show ?thesis
  proof (elim disjE exE conjE, goal_cases)
    case (1 w')
    then show ?thesis using run by (auto simp: no_value_def exec_def)
  next
    case (2 n w1)
    then have "run_op e cl p w = Ret (Switched, No_result) w1" using run by (simp add: no_value_def)
    from exec_switched [OF this 2(2)] obtain w' where w': "exec e cl p w = Ret (resumed_result n w1) w'"
      "sched_ok P H w'" "cur_ok n w'" "\<forall>u. u \<in> insert n (rq_set w1) \<longrightarrow> vr_of w' u = vr_of w1 u" "kept H w1 w'"
      "rq_set w' = rq_set w1" by blast
    have "charged_only c cl w w'" using 2(5,6) w'(4) by (auto simp: charged_only_def)
    with kept_trans [OF 2(3) w'(5)] 2 w' show ?thesis by auto
  qed
qed

lemma exit_Ret:
  assumes ok: "sched_ok P H w" and cur: "cur_ok c w" and r: "sched_exit e cl v k w = Ret r w1"
  shows "\<exists>n. r = Switched \<and> between P H n w1 \<and> kept H w w1 \<and> (\<forall>u. u \<noteq> c \<longrightarrow> conts w1 u = conts w u)
    \<and> (\<exists>x'. tasks w1 c = Some x' \<and> run_state x' = STOPPED \<and> return_value x' = v)"
proof -
  obtain x where c: "tasks w c = Some x" using cur by (auto simp: cur_ok_def)
  have ent: "entry x \<noteq> nullptr"
    using r c cur by (auto simp: sched_exit_def cur_ok_def)
  then have "rq_set w \<noteq> {} \<or> joiner x \<noteq> nullptr"
    using exit_deadlock [OF ok cur c ent, of e cl v k] r by auto
  from exit_ok [OF ok cur c ent this, of e cl v k] r show ?thesis by auto
qed

lemma exec_exit_Ret:
  assumes ok: "sched_ok P H w" and cur: "cur_ok c w" and r: "exec e cl (Op_exit v) w = Ret r w'"
  shows "\<exists>n w1 x. sched_exit e cl v [] w = Ret Switched w1 \<and> r = resumed_result n w1 \<and> sched_ok P H w' \<and> cur_ok n w'
    \<and> tasks w1 c = Some x \<and> run_state x = STOPPED \<and> return_value x = v \<and> kept H w w'
    \<and> (\<forall>u. u \<noteq> c \<longrightarrow> conts w1 u = conts w u)"
proof -
  obtain q w1 where q: "sched_exit e cl v [] w = Ret q w1"
    using r by (auto simp: exec_def run_op_def no_value_def bind_outcome_Ret_iff)
  from exit_Ret [OF ok cur q] obtain n x where n: "q = Switched" "between P H n w1" "tasks w1 c = Some x"
      "run_state x = STOPPED" "return_value x = v" "kept H w w1" "\<forall>u. u \<noteq> c \<longrightarrow> conts w1 u = conts w u" by blast
  then have "run_op e cl (Op_exit v) w = Ret (Switched, No_result) w1" using q by (simp add: run_op_def no_value_def)
  from exec_switched [OF this n(2)] r q n kept_trans [OF n(6)] show ?thesis by auto
qed

lemma exec_return_ok:
  assumes ok: "sched_ok P H w" and r: "exec e cl (Op_return v) w = Ret r w'"
  shows "sched_ok P H w' \<and> kept H w w'"
proof -
  obtain c x where c: "cur_ok c w" "tasks w c = Some x" using sched_ok_obtain [OF ok] .
  note s = sched_ok_curD [OF ok c]
  let ?w1 = "w\<lparr>tasks := (tasks w)(c \<mapsto> x\<lparr>return_value := v\<rparr>)\<rparr>"
  have u: "base_ok ?w1" "cur_ok c ?w1"
    using upd_cur_ok [OF s(1) c, of "x\<lparr>return_value := v\<rparr>"] s(6) by (simp_all add: layout_def)
  have tb: "tab P H c ?w1"
    using table_ok_core [OF s(3) [unfolded tab_def] c(2), of "x\<lparr>return_value := v\<rparr>"]
    by (simp add: tab_def core_def)
  have ok1: "sched_ok P H ?w1"
    by (rule sched_okI [OF u(1) _ u(2) tb, of "x\<lparr>return_value := v\<rparr>"]) (use s(2,4,5) in auto)
  have "end_handler_set w" using s(1) by (simp add: base_ok_def)
  then have ro: "return_from_entry e cl v w = bind_outcome (sched_exit e cl v [In_stop] ?w1)
      (\<lambda>q w2. case q of Switched \<Rightarrow> Ret Switched w2
         | Returned \<Rightarrow> Throw (Runtime_error ''task end handler did not stop the task!'') w2)"
    using s(10) c(2) by (simp add: return_from_entry_def task_stop_def task_end_handler_def)
  obtain q w1 where q: "sched_exit e cl v [In_stop] ?w1 = Ret q w1"
    using r ro by (auto simp: exec_def run_op_def no_value_def bind_outcome_Ret_iff)
  from exit_Ret [OF ok1 u(2) q] obtain n where n: "q = Switched" "between P H n w1" "kept H ?w1 w1" by blast
  have "kept H w ?w1" using c(2) s(4) by (auto simp: kept_def)
  note k = kept_trans [OF this n(3)]
  have "run_op e cl (Op_return v) w = Ret (Switched, No_result) w1"
    using q ro n(1) by (simp add: run_op_def no_value_def)
  from exec_switched [OF this n(2)] r kept_trans [OF k] show ?thesis by auto
qed

lemma exec_join_ok:
  assumes ok: "sched_ok P H w" and t: "t \<in> H" "\<not> current_is t w" and r: "exec e cl (Op_join (Some t) want) w = Ret r w'"
  shows "sched_ok P (H - {t}) w' \<and> kept (H - {t}) w w'"
proof -
  obtain c x where c: "cur_ok c w" "tasks w c = Some x" using sched_ok_obtain [OF ok] .
  note s = sched_ok_curD [OF ok c]
  have tc: "t \<noteq> c" using t(2) s(10) by auto
  obtain y where y: "tasks w t = Some y" using handle_task [OF s(3) t(1)] by metis
  show ?thesis
  proof (cases "run_state y = STOPPED")
    case True
    from join_stopped_ok [OF ok c(1) t(1) tc y True, of e cl want "[]"] r
    show ?thesis by (auto simp: exec_def run_op_def)
  next
    case False
    have "rq_set w \<noteq> {}"
      using join_deadlock [OF ok c(1) t(1) tc y False, of e cl want "[]"] r
      by (auto simp: exec_def run_op_def)
    from join_wait_ok [OF ok c(1) t(1) tc y False this, of e cl want] obtain n w1 where
      n: "run_op e cl (Op_join (Some t) want) w = Ret (Switched, No_result) w1" "between P (H - {t}) n w1" "kept (H - {t}) w w1"
      by (auto simp: run_op_def)
    from exec_switched [OF this(1,2)] r kept_trans [OF this(3)] show ?thesis by auto
  qed
qed

lemma exec_wait_ok:
  assumes ok: "sched_ok P H w" and cur: "cur_ok c w" and r: "exec e cl Op_wait w = Ret r w'"
  shows "sched_ok (insert c P) H w' \<and> kept H w w' \<and> rq_set w \<noteq> {}"
proof -
  obtain x where c: "tasks w c = Some x" using cur by (auto simp: cur_ok_def)
  have ne: "rq_set w \<noteq> {}"
    using wait_deadlock [OF ok cur c, of e cl "[]"] r by (auto simp: exec_def run_op_def no_value_def)
  from wait_ok [OF ok cur c this, of e cl] obtain n w1 where
    n: "run_op e cl Op_wait w = Ret (Switched, No_result) w1" "between (insert c P) H n w1" "kept H w w1"
    by (auto simp: run_op_def no_value_def)
  from exec_switched [OF n(1,2)] r ne kept_trans [OF n(3)] show ?thesis by auto
qed

lemma exec_wake_ok:
  assumes ok: "sched_ok P H w" and cur: "cur_ok c w" and t: "t \<in> P"
  shows "\<exists>w'. exec e cl (Op_wake t) w = Ret No_result w' \<and> sched_ok (P - {t}) H w' \<and> cur_ok c w' \<and> kept H w w'
     \<and> rq_set w' = insert t (rq_set w)"
  using wake_ok [OF ok cur t] by (auto simp: exec_def run_op_def)

lemma exec_swap_ok:
  assumes ok: "sched_ok P H w" and cur: "cur_ok c w" and t: "t \<in> P"
  shows "\<exists>r w'. exec e cl (Op_swap t) w = Ret r w' \<and> sched_ok (insert c (P - {t})) H w' \<and> cur_ok t w' \<and> kept H w w'
     \<and> rq_set w' = rq_set w"
proof -
  from swap_ok [OF ok cur t, of cl] obtain w1 where
    n: "run_op e cl (Op_swap t) w = Ret (Switched, No_result) w1" "between (insert c (P - {t})) H t w1"
      "rq_set w1 = rq_set w" "kept H w w1"
    by (auto simp: run_op_def no_value_def)
  from exec_switched [OF n(1,2)] n(3) kept_trans [OF n(4)] show ?thesis by fastforce
qed

lemma sched_step_ok:
  assumes step: "sched_step (H, w) (H', w')" and ok: "sched_inv H w"
  shows "sched_inv H' w' \<and> kept (H \<inter> H') w w'"
proof -
  obtain c x where c: "cur_ok c w" "tasks w c = Some x" using sched_ok_obtain [OF ok] .
  have "\<exists>P. sched_ok P H' w' \<and> kept (H \<inter> H') w w'"
    using step
  proof (cases rule: sched_step.cases)
    case (step_yield e cl r)
    then show ?thesis using exec_yield_ok [OF ok c(1), of Op_yield e cl] by auto
  next
    case (step_tick e cl r)
    then show ?thesis using exec_yield_ok [OF ok c(1), of Op_tick e cl] by auto
  next
    case (step_exit e cl v r)
    then show ?thesis using exec_exit_Ret [OF ok c(1), of e cl v r w'] by auto
  next
    case (step_return e cl v r)
    then show ?thesis using exec_return_ok [OF ok, of e cl v r w'] by auto
  next
    case (step_join e cl t want r)
    then show ?thesis using exec_join_ok [OF ok, of t e cl want r w'] by (auto simp: Int_absorb1)
  next
    case (step_detach e cl t r)
    then show ?thesis
      using detach_ok [OF ok c(1), of t e cl] by (auto simp: exec_def run_op_def Int_absorb1)
  next
    case (step_spawn e cl a ent ar t)
    then have "sched_spawn e cl a ent ar w = Ret t w'"
      by (auto simp: exec_def run_op_def bind_outcome_Ret_iff)
    from spawn_Ret [OF ok c(1) _ _ this] step_spawn show ?thesis by (auto simp: Int_absorb2 subset_insertI)
  next
    case (step_wait e cl r)
    then show ?thesis using exec_wait_ok [OF ok c(1), of e cl r w'] by auto
  next
    case (step_wake e cl t r)
    then show ?thesis using exec_wake_ok [OF ok c(1), of t e cl] by auto
  next
    case (step_swap e cl t r)
    then show ?thesis using exec_swap_ok [OF ok c(1), of t e cl] by auto
  qed
  then show ?thesis using sched_ok_parked by blast
qed

lemma sched_reach_ok: "sched_reach s s' \<Longrightarrow> sched_inv (fst s) (snd s) \<Longrightarrow> sched_inv (fst s') (snd s')"
proof (induction rule: sched_reach.induct)
  case (reach_step s s' s'')
  then show ?case using sched_step_ok [of "fst s'" "snd s'" "fst s''" "snd s''"] by simp
qed

section \<open>First use\<close>

lemma boot_ok:
  assumes p: "pristine w" and r: "sched_context_get cl w = Ret () w'"
  shows "sched_inv {} w'"
proof -
  let ?h = "host_task (node w)"
  obtain tcb where tcb: "tcbs (tls w) (fs (tls w)) = Some tcb" using p by (auto simp: pristine_def)
  have fs: "after (tls_current (tls w)) = fs (tls w)" by (simp add: after_def tls_current_def)
  let ?x = "task_default\<lparr>tls_ptr := tls_current (tls w), run_state := RUNNING\<rparr>"
  have w': "tasks w' = [?h \<mapsto> ?x] \<and> fl_list (freelist w') = [] \<and> inited w' \<and> end_handler_set w'
     \<and> node_rq (node w') = empty_rq \<and> \<not> spin_flag (node w') \<and> running (node w') \<and> deferred (node w') = nullptr
     \<and> host_task (node w') = ?h
     \<and> fs (tls w') = fs (tls w) \<and> tcbs (tls w') = (tcbs (tls w))(fs (tls w) \<mapsto> tcb\<lparr>thread := ?h\<rparr>)
     \<and> g_current_sched_node w' (fs (tls w)) = Root_node"
    using r p tcb fs
    by (auto simp: sched_context_get_def pristine_def Let_def node_start_async_def set_node_def
        set_current_node_def wrap_current_def fresh_node_def enable_timer_preemption_def lift_alarm_def
        set_thread_def tls_current_def bind_outcome_Ret_iff split: outcome.splits if_splits)
  have st: "storage w' y = (if tls_ptr y = nullptr then fs (tls w) else after (tls_ptr y))" for y
    using w' fs by (simp add: storage_def task_at_def)
  have "heap_ok w'"
    using w' fs p by (auto simp: heap_ok_def st task_default_def pristine_def split: if_splits)
  moreover have "fl_ok w'" using w' by (simp add: fl_ok_def)
  ultimately have "base_ok w'"
    using w' by (simp add: base_ok_def rq_ok_def empty_rq_def)
  moreover have "cur_ok ?h w'"
    using w' fs p by (simp add: cur_ok_def current_is_def current_node_def st pristine_def)
  moreover have "tab {} {} ?h w'"
    using w' p
    by (auto simp: tab_def table_ok_def row_ok_def empty_rq_def task_default_def pristine_def split: if_splits)
  ultimately have "sched_ok {} {} w'"
    using w' by (intro sched_okI [of w' ?h]) (auto simp: task_default_def)
  then show ?thesis using sched_ok_parked [of "{}" "{}" w'] by simp
qed

end
