(* ===== verification/Sched_Props.thy ===== *)
theory Sched_Props
  imports Sched_Reach
begin

text \<open>
  The properties of the scheduler interface: what holds of every state a program can reach,
  that control is never lost, that \<open>join\<close> delivers what \<open>exit\<close> was given, the error results
  of the interface, and what goes wrong when a task sleeps or tasks with and without thread local
  storage of their own are mixed.
\<close>

section \<open>Definitions\<close>

text \<open>The states a program reaches from its first use of the library on.\<close>

definition reachable :: "addr set \<Rightarrow> gstate \<Rightarrow> bool" where
  "reachable H w \<longleftrightarrow>
     (\<exists>w0 cl w1. pristine w0 \<and> sched_context_get cl w0 = Ret () w1 \<and> sched_reach ({}, w1) (H, w))"

text \<open>A program that has not used the library yet, for the worked instances.\<close>

definition demo_gstate :: gstate where
  "demo_gstate =
     \<lparr>tls = demo_tls_state [demo_image], g_current_sched_node = (\<lambda>_. Null_node), tasks = Map.empty,
      conts = (\<lambda>_. []), os_trace = [], freelist = \<lparr>fl_list = [], fl_max_size = 0\<rparr>,
      node = fresh_node 0x100, inited = False, end_handler_set = False, g_alarm_armed = False,
      galarm = initial_alarm\<rparr>"

definition demo_clk :: clk where
  "demo_clk = \<lparr>tick0 = 0, tick1 = 0, wall_push = 0, wall0 = 0, wall1 = 0, boot_tick = 0, boot_rc = 0\<rparr>"

section \<open>Worked instances\<close>

lemma reachable_ok: "reachable H w \<Longrightarrow> sched_inv H w"
  using boot_ok sched_reach_ok by (fastforce simp: reachable_def)

lemma reachable_step: "reachable H w \<Longrightarrow> sched_step (H, w) (H', w') \<Longrightarrow> reachable H' w'"
  by (auto simp: reachable_def intro: reach_step)

lemma demo_pristine: "pristine demo_gstate"
  by (simp add: pristine_def demo_gstate_def fresh_node_def demo_tls_state_def tls_current_def sizeof_tls_def)

lemma demo_boot:
  obtains w x where "reachable {} w" "cur_ok 0x100 w" "tasks w = [0x100 \<mapsto> x]" "has (tls w)" "fl_list (freelist w) = []"
    "node_rq (node w) = empty_rq" "last_tick (node w) = 0" "vruntime x = 0" "tls_ptr x = 0x5000" "stack_top x = nullptr" "entry x = nullptr" "total_stack_size x = 0"
    "deferred (node w) = nullptr" "host_task (node w) = 0x100" "sched_context_get demo_clk demo_gstate = Ret () w"
proof -
  obtain w where w: "sched_context_get demo_clk demo_gstate = Ret () w" "tasks w = [0x100 \<mapsto> task_default\<lparr>tls_ptr := 0x5000, run_state := RUNNING\<rparr>]"
    "has (tls w)" "fl_list (freelist w) = []" "node_rq (node w) = empty_rq" "deferred (node w) = nullptr" "last_tick (node w) = 0"
    "host_task (node w) = 0x100"
    by (simp add: sched_context_get_def demo_gstate_def demo_clk_def Let_def node_start_async_def set_node_def
        set_current_node_def wrap_current_def fresh_node_def enable_timer_preemption_def lift_alarm_def
        set_thread_def tls_current_def demo_tls_state_def after_def sizeof_tls_def task_default_def
        set_interval_def set_interval_internal_def)
  have r: "reachable {} w" unfolding reachable_def using demo_pristine w(1) reach_refl by blast
  obtain c x where "cur_ok c w" "tasks w c = Some x" using sched_ok_obtain [OF reachable_ok [OF r]] .
  then have "cur_ok 0x100 w" using w(2) by (auto split: if_splits)
  with r w that show thesis by (simp add: task_default_def)
qed

lemma demo_mapping:
  assumes "tasks w = [0x100 \<mapsto> x]" "tls_ptr x = 0x5000" "total_stack_size x = 0" "host_task (node w) = 0x100"
    and a: "a = k_default_attr \<or> a = k_light_attr"
  shows "fresh_mapping (demo_env 0x700000000000) a w" "same_kind a w"
proof -
  have "unat postfix_bytes = 1697" by (simp add: postfix_bytes_def sizeof_tls_def sizeof_tcbhead_def)
  then show "fresh_mapping (demo_env 0x700000000000) a w"
    using assms
    by (auto simp: fresh_mapping_def Let_def mapped_at_def demo_env_def demo_os_def MAP_FAILED_def storage_def
        k_default_attr_def k_light_attr_def guard_size_def k_stack_min_def region_def after_def sizeof_tls_def
        split: if_splits)
  show "same_kind a w" using assms by (auto simp: same_kind_def split: if_splits)
qed

lemma demo_spawn_kind:
  assumes a: "a = k_default_attr \<or> a = k_light_attr"
  obtains t w y w0 where "reachable {t} w" "cur_ok 0x100 w" "rq_set w = {t}" "t \<noteq> 0x100" "tasks w t = Some y"
    "entry y = 0x4000" "run_state y \<noteq> STOPPED" "vr_of w t = 0" "vr_of w 0x100 = 0" "last_tick (node w) = 0"
    "sched_context_get demo_clk demo_gstate = Ret () w0" "fresh_mapping (demo_env 0x700000000000) a w0" "same_kind a w0"
    "sched_spawn (demo_env 0x700000000000) demo_clk a 0x4000 ar w0 = Ret t w" "has_tls y = alloc_tls a"
proof -
  let ?e = "demo_env 0x700000000000"
  obtain w x where w: "reachable {} w" "cur_ok 0x100 w" "tasks w = [0x100 \<mapsto> x]" "has (tls w)"
      "fl_list (freelist w) = []" "tls_ptr x = 0x5000" "total_stack_size x = 0" "node_rq (node w) = empty_rq"
      "last_tick (node w) = 0" "vruntime x = 0" "host_task (node w) = 0x100"
      "sched_context_get demo_clk demo_gstate = Ret () w"
    by (rule demo_boot) blast
  note fm = demo_mapping [OF w(3,6,7,11) a]
  have m: "mapped_at (kernel ?e) (st_size (stack a) + guard_size a) 0x700000000000"
    using a by (auto simp: mapped_at_def demo_env_def demo_os_def MAP_FAILED_def k_default_attr_def k_light_attr_def guard_size_def k_stack_min_def)
  obtain t w1 y1 where t: "task_create ?e a w = Ret t w1" and y1: "tasks w1 t = Some y1" "has_tls y1 = alloc_tls a"
    using task_create_placed [OF _ m, of w] w(4) a
    by (auto simp: demo_env_def demo_os_def k_default_attr_def k_light_attr_def guard_size_def k_stack_min_def
        has_tls_def fresh_task_def postfix_bytes_def sizeof_tls_def sizeof_tcbhead_def)
  then have mk: "make_task ?e a w = Ret t w1"
    using w(5) by (simp add: make_task_def)
  obtain w' y where w': "sched_spawn ?e demo_clk a 0x4000 ar w = Ret t w'" "cur_ok 0x100 w'" "rq_set w' = {t}"
      "sched_ok (parked w) {t} w'" "tasks w' t = Some y" "entry y = 0x4000" "vruntime y = 0" "vr_of w' 0x100 = vr_of w 0x100"
      "last_tick (node w') = 0" "\<exists>z. tasks w1 t = Some z \<and> tls_ptr y = tls_ptr z"
    using spawn_ok [OF reachable_ok [OF w(1)] w(2) fm mk, of "0x4000" demo_clk ar] w(8,9) by (fastforce simp: empty_rq_def)
  have tl: "has_tls y = alloc_tls a" using w'(10) y1 by (simp add: has_tls_def)
  have "sched_step ({}, w) ({t}, w')"
    using step_spawn [of ?e demo_clk a "0x4000" ar w t w' "{}"] w'(1) fm
    by (simp add: exec_def run_op_def)
  then have r: "reachable {t} w'" by (rule reachable_step [OF w(1)])
  obtain z where z: "tasks w' 0x100 = Some z" using w'(2) by (auto simp: cur_ok_def)
  note s = sched_ok_curD [OF w'(4,2) z]
  then have t: "t \<noteq> 0x100" using w'(3) by auto
  note D = table_okD [OF s(3) [unfolded tab_def]]
  have "run_state y \<noteq> STOPPED"
    using row_okD(11,13) [OF D(17) [OF w'(5)]] D(7,9) w'(3) t by auto
  moreover have "vr_of w' t = 0" "vr_of w' 0x100 = 0" using w'(5,7,8) w(3,10) by (auto simp: vr_of_def)
  ultimately show thesis using that [OF r w'(2,3) t w'(5,6)] w(12) fm w'(1,9) tl by blast
qed

lemma demo_spawn:
  obtains t w y where "reachable {t} w" "cur_ok 0x100 w" "rq_set w = {t}" "t \<noteq> 0x100" "tasks w t = Some y"
    "entry y = 0x4000" "run_state y \<noteq> STOPPED" "vr_of w t = 0" "vr_of w 0x100 = 0" "last_tick (node w) = 0" "has_tls y"
  by (rule demo_spawn_kind [of k_default_attr 0]) (simp, rule that, simp_all add: k_default_attr_def)

text \<open>The host waits for the task it spawned, which runs.\<close>

lemma demo_join:
  obtains t w y where "reachable {} w" "cur_ok t w" "rq_set w = {}" "t \<noteq> 0x100"
    "conts w 0x100 = [In_switch_to 0x100, In_node_yield, In_sched_yield, In_join t True]"
    "tasks w t = Some y" "entry y \<noteq> nullptr" "joiner y = 0x100" "has_tls y"
proof -
  obtain t w y where w: "reachable {t} w" "cur_ok 0x100 w" "rq_set w = {t}" "t \<noteq> 0x100" "tasks w t = Some y"
    "entry y = 0x4000" "run_state y \<noteq> STOPPED" "has_tls y" by (rule demo_spawn)
  have ok: "sched_inv {t} w" by (rule reachable_ok [OF w(1)])
  obtain n w1 where w1: "sched_join (demo_env 0) demo_clk (Some t) True [] w = Ret (Switched, No_result) w1"
    "between (parked w) ({t} - {t}) n w1" "n \<in> rq_set w" "rq_set w1 = rq_set w - {n}"
    "conts w1 0x100 = [In_switch_to 0x100, In_node_yield, In_sched_yield, In_join t True]"
    "tasks w1 t = Some (y\<lparr>joiner := 0x100\<rparr>)"
    using join_wait_ok [OF ok w(2) _ w(4,5,7), of "demo_env 0" demo_clk True] w(3) by auto
  have n: "n = t" using w1(3) w(3) by simp
  have "run_op (demo_env 0) demo_clk (Op_join (Some t) True) w = Ret (Switched, No_result) w1"
    using w1(1) by (simp add: run_op_def)
  from exec_switched [OF this w1(2)] obtain w' x where w': "exec (demo_env 0) demo_clk (Op_join (Some t) True) w = Ret (resumed_result n w1) w'"
    "cur_ok n w'" "conts w' = conts w1" "rq_set w' = rq_set w1" "tasks w' n = Some x" "entry x = entry y" "joiner x = 0x100" "has_tls x"
    using w1(6) n w(8) by (auto simp: has_tls_def)
  have "\<not> current_is t w" using w(2,4) current_is_unique by (auto simp: cur_ok_def)
  then have "sched_step ({t}, w) ({t} - {t}, w')" by (intro step_join [OF w'(1)]) auto
  then have "reachable {} w'" using reachable_step [OF w(1)] by simp
  with that w' w1 w n show thesis by auto
qed

text \<open>The spawned task runs after a long tick of the host, and exits.\<close>

lemma demo_stopped:
  obtains t w y where "reachable {t} w" "tasks w t = Some y" "run_state y = STOPPED" "return_value y = 42"
proof -
  let ?cl = "demo_clk\<lparr>tick0 := 1000000\<rparr>"
  obtain t w y where w: "reachable {t} w" "cur_ok 0x100 w" "rq_set w = {t}" "t \<noteq> 0x100" "tasks w t = Some y"
    "entry y = 0x4000" "vr_of w t = 0" "vr_of w 0x100 = 0" "last_tick (node w) = 0" by (rule demo_spawn)
  have ok: "sched_inv {t} w" by (rule reachable_ok [OF w(1)])
  obtain r w1 n where w1: "exec (demo_env 0) ?cl Op_yield w = Ret r w1" "cur_ok n w1" "n \<in> {0x100, t}"
      "charged_only 0x100 ?cl w w1" "vr_of w1 n \<le> vr_of w1 t" "insert n (rq_set w1) = {0x100, t}"
    using exec_yield_ok [OF ok w(2), of Op_yield "demo_env 0" ?cl] w(3) by auto
  have "vr_of w1 0x100 = 1000" "vr_of w1 t = 0"
    using w1(4) w(3,7-9) by (simp_all add: charged_only_def demo_clk_def ns_to_us_def)
  then have n: "n = t" using w1(3,5) by auto
  have r1: "reachable {t} w1" by (rule reachable_step [OF w(1) step_yield [OF w1(1)]])
  have ok1: "sched_inv {t} w1" by (rule reachable_ok [OF r1])
  obtain x where x: "tasks w1 t = Some x" using w1(2) n by (auto simp: cur_ok_def)
  note D = table_okD [OF sched_ok_curD(3) [OF ok1 w1(2) [unfolded n] x, unfolded tab_def]]
  have host: "t \<noteq> host_task (node w1)" using D(12) by auto
  then have ent: "entry x \<noteq> nullptr" using row_okD(16) [OF D(17) [OF x D(6)]] by auto
  have ne: "rq_set w1 \<noteq> {} \<or> joiner x \<noteq> nullptr" using w1(6) n w(4) by auto
  obtain w2 m where w2: "sched_exit (demo_env 0) ?cl 42 [] w1 = Ret Switched w2" "between (parked w1) {t} m w2"
    using exit_ok [OF ok1 w1(2) [unfolded n] x ent ne, of "demo_env 0" ?cl 42 "[]"] by auto
  then have "run_op (demo_env 0) ?cl (Op_exit 42) w1 = Ret (Switched, No_result) w2"
    by (simp add: run_op_def no_value_def)
  from exec_switched [OF this w2(2)] obtain r' w' where w': "exec (demo_env 0) ?cl (Op_exit 42) w1 = Ret r' w'"
      "kept {t} w2 w'" by blast
  from exec_exit_Ret [OF ok1 w1(2) [unfolded n] w'(1)] obtain y' where
    "tasks w2 t = Some y'" "run_state y' = STOPPED" "return_value y' = 42" using w2(1) by auto
  then have "tasks w' t = Some y'" "run_state y' = STOPPED" "return_value y' = 42" using w'(2) by (auto simp: kept_def)
  with that reachable_step [OF r1 step_exit [OF w'(1)]] show thesis by blast
qed

section \<open>Properties\<close>

text \<open>
  C1. No task is ever lost. In every reachable state exactly the current task is \<open>RUNNING\<close>; a
  \<open>SUSPENDED\<close> task is on the run queue; a \<open>WAITING\<close> task is on the run queue, waits in \<open>join\<close>
  for a task that has not stopped and that will wake it (it is that task's \<open>joiner\<close>), or is
  parked by a waiter; and a task on the run queue is neither running nor stopped, nor on the
  freelist.
\<close>

theorem no_task_is_lost:
  assumes "reachable H w" and "tasks w t = Some x" and "t \<notin> fl_set w"
  shows "(run_state x = RUNNING \<longleftrightarrow> current_is t w) \<and>
     (run_state x = SUSPENDED \<longrightarrow> t \<in> rq_set w) \<and>
     (run_state x = WAITING \<longrightarrow> t \<in> rq_set w \<or>
        (\<exists>j y. waits (conts w) t j \<and> tasks w j = Some y \<and> joiner y = t \<and> run_state y \<noteq> STOPPED) \<or> t \<in> parked w) \<and>
     (t \<in> rq_set w \<longrightarrow> run_state x = SUSPENDED \<or> run_state x = WAITING)"
proof -
  have ok: "sched_inv H w" by (rule reachable_ok [OF assms(1)])
  obtain c z where c: "cur_ok c w" "tasks w c = Some z" using sched_ok_obtain [OF ok] .
  note s = sched_ok_curD [OF ok c] and D = table_okD [OF sched_ok_curD(3) [OF ok c, unfolded tab_def]]
  note r = row_okD [OF D(17) [OF assms(2,3)]]
  show ?thesis
  proof (cases "t = c")
    case True
    then show ?thesis using s(4,6,10) c(2) assms(2) by auto
  next
    case False
    then have "\<not> current_is t w" using s(10) current_is_unique by blast
    moreover have "run_state x \<noteq> RUNNING" using r(14) False by auto
    moreover have "t \<in> rq_set w \<Longrightarrow> run_state x \<noteq> STOPPED" using r(11-13) False D(7) by auto
    moreover have "\<exists>j y. waits (conts w) t j \<and> tasks w j = Some y \<and> joiner y = t \<and> run_state y \<noteq> STOPPED"
      if "run_state x \<noteq> STOPPED" "t \<notin> rq_set w" "t \<notin> parked w"
    proof -
      from r(14,15) that False obtain j where j: "waits (conts w) t j" "shape_ok (tasks w) (conts w) (fl_set w) t x" by auto
      then obtain i y where y: "waits (conts w) t i" "tasks w i = Some y" "joiner y = t" "i \<notin> fl_set w"
        by (auto simp: shape_ok_def)
      have "t \<noteq> nullptr" using D(1) assms(2) by auto
      then have "run_state y \<noteq> STOPPED" using row_okD(10) [OF D(17) [OF y(2,4)]] y(3) that(2) by auto
      with y show ?thesis by blast
    qed
    ultimately show ?thesis using r(15,17) False by (cases "run_state x") auto
  qed
qed

theorem no_task_is_lost_witness:
  "\<exists>H w t x. reachable H w \<and> tasks w t = Some x \<and> t \<in> rq_set w
     \<and> (run_state x = SUSPENDED \<or> run_state x = WAITING) \<and> \<not> current_is t w"
proof -
  obtain t w where w: "reachable {t} w" "cur_ok 0x100 w" "t \<in> rq_set w" "t \<noteq> 0x100" using demo_spawn by blast
  have ok: "sched_inv {t} w" by (rule reachable_ok [OF w(1)])
  obtain z where "tasks w 0x100 = Some z" using w(2) by (auto simp: cur_ok_def)
  note D = table_okD [OF sched_ok_curD(3) [OF ok w(2) this, unfolded tab_def]]
  obtain x where x: "tasks w t = Some x" "t \<notin> fl_set w" using D(2,9) w(3) by auto
  from no_task_is_lost [OF w(1) x] w(1,3) x show ?thesis by (metis run_state_t.distinct(1,5))
qed

text \<open>
  C2. Yielding and being preempted never fail and are fair: in every reachable state \<open>yield\<close> and
  the timer's trap return, in a reachable state, to a task that was current or queued and whose
  virtual runtime is least among all of these, after the caller alone has been charged for the
  time since the last tick.
\<close>

theorem yield_is_fair:
  assumes "reachable H w" and "current_is c w" and "p = Op_yield \<or> p = Op_tick"
  shows "\<exists>r w' n. exec e cl p w = Ret r w' \<and> reachable H w' \<and> current_is n w'
     \<and> n \<in> insert c (rq_set w)
     \<and> vr_of w' c = vr_of w c + ns_to_us (tick0 cl - last_tick (node w))
     \<and> (\<forall>u. u \<in> rq_set w \<longrightarrow> vr_of w' u = vr_of w u)
     \<and> (\<forall>u. u \<in> insert c (rq_set w) \<longrightarrow> vr_of w' n \<le> vr_of w' u)"
proof -
  have ok: "sched_inv H w" by (rule reachable_ok [OF assms(1)])
  then obtain d z where "cur_ok d w" "tasks w d = Some z" using sched_ok_obtain by blast
  then have c: "cur_ok c w" using assms(2) current_is_unique by (auto simp: cur_ok_def)
  obtain r w' n where w': "exec e cl p w = Ret r w'" "cur_ok n w'" "n \<in> insert c (rq_set w)"
    "\<forall>u. u \<in> insert c (rq_set w) \<longrightarrow> vr_of w' n \<le> vr_of w' u" "charged_only c cl w w'"
    using exec_yield_ok [OF ok c assms(3), of e cl] by blast
  have "sched_step (H, w) (H, w')"
    using assms(3) w'(1) step_yield step_tick by blast
  from reachable_step [OF assms(1) this] w' show ?thesis by (auto simp: cur_ok_def charged_only_def)
qed

theorem yield_is_fair_witness:
  "\<exists>t w r w' n. t \<in> rq_set w \<and> exec (demo_env 0) demo_clk Op_yield w = Ret r w' \<and> reachable {t} w'
     \<and> current_is n w' \<and> vr_of w' n \<le> vr_of w' t"
proof -
  obtain t w where w: "reachable {t} w" "cur_ok 0x100 w" "t \<in> rq_set w" using demo_spawn by blast
  then have "current_is 0x100 w" by (simp add: cur_ok_def)
  from yield_is_fair [OF w(1) this, of Op_yield "demo_env 0" demo_clk] w(3) show ?thesis by blast
qed

text \<open>
  C3. A value given to \<open>exit\<close> reaches the task that waits for it: when the running task exits
  with \<open>v\<close>, has stopped before control moves on, and control goes to the task that is inside
  \<open>join\<close> of it, that \<open>join\<close> returns with the handle cleared and, if a value was asked for, \<open>v\<close>.
\<close>

theorem exit_value_reaches_joiner:
  assumes "reachable H w" and "current_is c w"
    and "conts w g = [In_switch_to g, In_node_yield, In_sched_yield, In_join c want]" and "g \<noteq> c"
    and "exec e cl (Op_exit v) w = Ret r w'" and "current_is g w'"
  shows "r = Handle_written nullptr (if want then Some v else None) \<and> reachable H w'"
proof -
  have ok: "sched_inv H w" by (rule reachable_ok [OF assms(1)])
  then obtain d z where "cur_ok d w" "tasks w d = Some z" using sched_ok_obtain by blast
  then have c: "cur_ok c w" using assms(2) current_is_unique by (auto simp: cur_ok_def)
  obtain n w1 x where x: "r = resumed_result n w1" "cur_ok n w'" "tasks w1 c = Some x" "return_value x = v"
    "\<forall>u. u \<noteq> c \<longrightarrow> conts w1 u = conts w u"
    using exec_exit_Ret [OF ok c assms(5)] by blast
  have "n = g" using x(2) assms(6) current_is_unique by (auto simp: cur_ok_def)
  then have "r = Handle_written nullptr (if want then Some v else None)"
    using x assms(3,4) by (simp add: resumed_result_def task_at_def)
  moreover have "sched_step (H, w) (H, w')" using step_exit [OF assms(5)] .
  ultimately show ?thesis using reachable_step [OF assms(1)] by blast
qed

theorem exit_value_reaches_joiner_witness:
  "\<exists>w w'. exec (demo_env 0) demo_clk (Op_exit 42) w = Ret (Handle_written nullptr (Some 42)) w' \<and> reachable {} w'"
proof -
  obtain t w y where w: "reachable {} w" "cur_ok t w" "rq_set w = {}" "t \<noteq> 0x100"
    "conts w 0x100 = [In_switch_to 0x100, In_node_yield, In_sched_yield, In_join t True]"
    "tasks w t = Some y" "entry y \<noteq> nullptr" "joiner y = 0x100"
    by (rule demo_join)
  have ok: "sched_inv {} w" by (rule reachable_ok [OF w(1)])
  obtain w1 where w1: "sched_exit (demo_env 0) demo_clk 42 [] w = Ret Switched w1" "between (parked w) {} 0x100 w1"
    using exit_ok [OF ok w(2,6,7), of "demo_env 0" demo_clk 42 "[]"] w(3,8) by auto
  then have "run_op (demo_env 0) demo_clk (Op_exit 42) w = Ret (Switched, No_result) w1"
    by (simp add: run_op_def no_value_def)
  from exec_switched [OF this w1(2)] obtain r w' where w': "exec (demo_env 0) demo_clk (Op_exit 42) w = Ret r w'"
    "cur_ok 0x100 w'" by blast
  have "current_is t w" "current_is 0x100 w'" using w(2) w'(2) by (auto simp: cur_ok_def)
  from exit_value_reaches_joiner [OF w(1) this(1) w(5) _ w'(1) this(2)] w(4) w'(1) show ?thesis by auto
qed

lemma reachable_cur:
  assumes "reachable H w" and "current_is c w"
  shows "sched_inv H w" "cur_ok c w"
proof -
  show ok: "sched_inv H w" by (rule reachable_ok [OF assms(1)])
  then obtain d z where "cur_ok d w" "tasks w d = Some z" using sched_ok_obtain by blast
  then show "cur_ok c w" using assms(2) current_is_unique by (auto simp: cur_ok_def)
qed

text \<open>
  C4. A stopped task whose handle is still held keeps its object, return value included, through
  every call of every task; and \<open>join\<close> of that handle then returns exactly that value, at once,
  with the handle cleared.
\<close>

theorem stopped_value_kept_until_join:
  assumes "reachable H w" and "t \<in> H" and "tasks w t = Some y" and "run_state y = STOPPED"
  shows "(\<forall>H' w'. sched_step (H, w) (H', w') \<longrightarrow> t \<in> H' \<longrightarrow> tasks w' t = Some y) \<and>
     (\<forall>e cl want. \<exists>w'. exec e cl (Op_join (Some t) want) w
          = Ret (Handle_written nullptr (if want then Some (return_value y) else None)) w'
        \<and> reachable (H - {t}) w')"
proof (intro conjI allI impI)
  have ok: "sched_inv H w" by (rule reachable_ok [OF assms(1)])
  show "tasks w' t = Some y" if "sched_step (H, w) (H', w')" "t \<in> H'" for H' w'
    using sched_step_ok [OF that(1) ok] that(2) assms(2-4) by (auto simp: kept_def)
  show "\<exists>w'. exec e cl (Op_join (Some t) want) w
          = Ret (Handle_written nullptr (if want then Some (return_value y) else None)) w'
        \<and> reachable (H - {t}) w'" for e cl want
  proof -
    obtain c x where c: "cur_ok c w" "tasks w c = Some x" using sched_ok_obtain [OF ok] .
    have tc: "t \<noteq> c" using sched_ok_curD(4) [OF ok c] assms(3,4) c(2) by auto
    obtain w' where w': "exec e cl (Op_join (Some t) want) w
          = Ret (Handle_written nullptr (if want then Some (return_value y) else None)) w'"
      using join_stopped_ok [OF ok c(1) assms(2) tc assms(3,4), of e cl want "[]"]
      by (auto simp: exec_def run_op_def)
    have "\<not> current_is t w" using c(1) tc current_is_unique by (auto simp: cur_ok_def)
    from reachable_step [OF assms(1) step_join [OF w' assms(2) this]] w' show ?thesis by blast
  qed
qed

theorem stopped_value_kept_until_join_witness:
  "\<exists>t w w'. exec (demo_env 0) demo_clk (Op_join (Some t) True) w = Ret (Handle_written nullptr (Some 42)) w'
     \<and> reachable {} w'"
proof -
  obtain t w y where w: "reachable {t} w" "tasks w t = Some y" "run_state y = STOPPED" "return_value y = 42"
    by (rule demo_stopped)
  have "t \<in> {t}" by simp
  from spec [OF spec [OF spec [OF conjunct2 [OF stopped_value_kept_until_join [OF w(1) this w(2,3)]],
      of "demo_env 0"], of demo_clk], of True] w(4) show ?thesis by auto
qed

text \<open>
  C5. Memory safety of tasks, in programs whose created tasks all have thread local storage of
  their own or all have none: in every state such a program reaches, the current, queued and
  handled tasks are live objects that are not on the freelist; the storage in use is that of the
  current task, and every live task has a control block to run on, its own, on its own stack, or
  the host's when it was created without; the object and control block of one task never lie on
  the stack of another, so neither running nor destroying a task touches another one's.
\<close>

theorem tasks_are_memory_safe:
  assumes "reachable H w"
  shows "rq_set w \<union> H \<union> fl_set w \<subseteq> dom (tasks w) \<and> (rq_set w \<union> H) \<inter> fl_set w = {}
    \<and> distinct (runqueue (node_rq (node w))) \<and> distinct (fl_list (freelist w))
    \<and> (\<exists>c x. current_is c w \<and> tasks w c = Some x \<and> c \<notin> fl_set w \<and> fs (tls w) = storage w x)
    \<and> (\<forall>t x. tasks w t = Some x \<longrightarrow> tcbs (tls w) (storage w x) \<noteq> None
         \<and> (stack_top x \<noteq> nullptr \<longrightarrow> t \<in> region x
              \<and> (tls_ptr x \<noteq> nullptr \<longrightarrow> storage w x \<in> region x)
              \<and> (\<forall>u y. tasks w u = Some y \<and> u \<noteq> t \<longrightarrow> u \<notin> region x \<and> storage w y \<notin> region x)))"
proof -
  have ok: "sched_inv H w" by (rule reachable_ok [OF assms(1)])
  obtain c x where c: "cur_ok c w" "tasks w c = Some x" using sched_ok_obtain [OF ok] .
  note s = sched_ok_curD [OF ok c] and D = table_okD [OF sched_ok_curD(3) [OF ok c, unfolded tab_def]]
  have h: "heap_ok w" "fl_ok w" "distinct (runqueue (node_rq (node w)))" using s(1) by (auto simp: base_ok_def)
  have "distinct (fl_list (freelist w))" using h(2) by (simp add: fl_ok_def Let_def)
  moreover have "\<exists>c x. current_is c w \<and> tasks w c = Some x \<and> c \<notin> fl_set w \<and> fs (tls w) = storage w x"
    using c s(10) D(6) by (auto simp: cur_ok_def)
  moreover have "tcbs (tls w) (storage w x) \<noteq> None \<and> (stack_top x \<noteq> nullptr \<longrightarrow> t \<in> region x
         \<and> (tls_ptr x \<noteq> nullptr \<longrightarrow> storage w x \<in> region x)
         \<and> (\<forall>u y. tasks w u = Some y \<and> u \<noteq> t \<longrightarrow> u \<notin> region x \<and> storage w y \<notin> region x))"
    if x: "tasks w t = Some x" for t x
  proof -
    have "tls_ptr x \<noteq> nullptr \<Longrightarrow> storage w x = after (tls_ptr x)" by (simp add: storage_def)
    with heap_okD(1,3-5) [OF h(1) x] show ?thesis by metis
  qed
  ultimately show ?thesis using h(3) D(2,3,4,9,10) by blast
qed

theorem tasks_are_memory_safe_witness:
  "\<exists>t w. reachable {t} w \<and> t \<in> dom (tasks w) \<and> t \<notin> fl_set w"
proof -
  obtain t w where w: "reachable {t} w" using demo_spawn by blast
  from tasks_are_memory_safe [OF w] w show ?thesis by blast
qed



text \<open>
  C16. Deadlock is reported, not entered: when the running task joins a task that has not stopped,
  it is suspended if another task can run; if none can, the call throws the run queue's
  \<open>runtime_error\<close> to the caller.
\<close>

theorem join_blocks_or_reports_deadlock:
  assumes "reachable H w" and "current_is c w" and "t \<in> H" and "t \<noteq> c"
    and "tasks w t = Some y" and "run_state y \<noteq> STOPPED"
  shows "if rq_set w = {}
     then \<exists>w'. exec e cl (Op_join (Some t) want) w = Throw (Runtime_error ''nothing to do. deadlock?'') w'
     else \<exists>r w' n. exec e cl (Op_join (Some t) want) w = Ret r w' \<and> reachable (H - {t}) w'
            \<and> current_is n w' \<and> n \<in> rq_set w \<and> waits (conts w') c t"
proof (cases "rq_set w = {}")
  case True
  note ok = reachable_cur [OF assms(1,2)]
  from join_deadlock [OF ok assms(3-6) True, of e cl want "[]"] True show ?thesis
    by (auto simp: exec_def run_op_def)
next
  case False
  note ok = reachable_cur [OF assms(1,2)]
  obtain n w1 where w1: "sched_join e cl (Some t) want [] w = Ret (Switched, No_result) w1"
    "between (parked w) (H - {t}) n w1" "n \<in> rq_set w" "waits (conts w1) c t"
    using join_wait_ok [OF ok assms(3-6) False, of e cl want] by (auto simp: waits_def)
  have run: "run_op e cl (Op_join (Some t) want) w = Ret (Switched, No_result) w1"
    using w1(1) by (simp add: run_op_def)
  obtain r w' where w': "exec e cl (Op_join (Some t) want) w = Ret r w'" "cur_ok n w'" "conts w' = conts w1"
    using exec_switched [OF run w1(2)] by blast
  have "\<not> current_is t w" using assms(2,4) current_is_unique by blast
  from reachable_step [OF assms(1) step_join [OF w'(1) assms(3) this]] w' w1(3,4) False show ?thesis
    by (auto simp: cur_ok_def)
qed

theorem join_blocks_or_reports_deadlock_witness:
  "\<exists>t w r w' n. exec (demo_env 0) demo_clk (Op_join (Some t) True) w = Ret r w' \<and> reachable {} w'
     \<and> current_is n w' \<and> waits (conts w') 0x100 t"
proof -
  obtain t w y where w: "reachable {t} w" "cur_ok 0x100 w" "rq_set w = {t}" "t \<noteq> 0x100" "tasks w t = Some y"
    "run_state y \<noteq> STOPPED" by (rule demo_spawn)
  then have "current_is 0x100 w" by (simp add: cur_ok_def)
  from join_blocks_or_reports_deadlock [OF w(1) this _ w(4,5,6), of "demo_env 0" demo_clk True] w(3)
  show ?thesis by fastforce
qed

text \<open>
  C17. The errors of the interface, in any state: \<open>spawn\<close> without an entry function, \<open>join\<close> and
  \<open>detach\<close> without a handle or with a cleared one throw \<open>domain_error\<close> and change nothing; the
  root task cannot exit; a second \<open>join\<close> of a task throws \<open>logic_error\<close>, leaving the state as it was.
\<close>

theorem api_errors:
  assumes r: "reachable H w"
  shows "exec e cl (Op_spawn a nullptr ar) w = Throw (Domain_error ''must supply entry function'') w \<and>
   (\<forall>h. h = None \<or> h = Some nullptr \<longrightarrow>
      exec e cl (Op_join h want) w
        = Throw (Domain_error ''|handle| must be specified and must be a valid thread'') w \<and>
      exec e cl (Op_detach h) w
        = Throw (Domain_error ''|handle| must be specified and must be a valid thread'') w) \<and>
   (current_is (host_task (node w)) w \<longrightarrow>
      exec e cl (Op_exit v) w = Throw (Runtime_error ''cannot exit from the root task!'') w) \<and>
   (\<forall>t y. \<not> current_is t w \<and> tasks w t = Some y \<and> joiner y \<noteq> nullptr \<longrightarrow>
      exec e cl (Op_join (Some t) want) w
        = Throw (Logic_error ''a thread can only be joined from one place'') w)"
proof (intro conjI allI impI)
  show "exec e cl (Op_spawn a nullptr ar) w = Throw (Domain_error ''must supply entry function'') w"
    by (simp add: exec_def run_op_def sched_spawn_def)
  show "exec e cl (Op_join h want) w
     = Throw (Domain_error ''|handle| must be specified and must be a valid thread'') w"
    and "exec e cl (Op_detach h) w
     = Throw (Domain_error ''|handle| must be specified and must be a valid thread'') w"
    if "h = None \<or> h = Some nullptr" for h
    using that by (auto simp: exec_def run_op_def sched_join_def sched_detach_def)
  show "exec e cl (Op_exit v) w = Throw (Runtime_error ''cannot exit from the root task!'') w"
    if c: "current_is (host_task (node w)) w"
  proof -
    note ok = reachable_cur [OF r c]
    obtain x where x: "tasks w (host_task (node w)) = Some x" using ok(2) by (auto simp: cur_ok_def)
    have "entry x = nullptr"
      using table_okD(15) [OF sched_ok_curD(3) [OF ok x, unfolded tab_def]] x by auto
    with c x show ?thesis by (simp add: exec_def run_op_def no_value_def sched_exit_def)
  qed
  show "exec e cl (Op_join (Some t) want) w = Throw (Logic_error ''a thread can only be joined from one place'') w"
    if t: "\<not> current_is t w \<and> tasks w t = Some y \<and> joiner y \<noteq> nullptr" for t y
  proof -
    have ok: "sched_inv H w" by (rule reachable_ok [OF r])
    obtain c x where c: "cur_ok c w" "tasks w c = Some x" using sched_ok_obtain [OF ok] .
    note s = sched_ok_curD [OF ok c]
    have tc: "t \<noteq> c" "t \<noteq> nullptr"
      using t s(10) table_okD(1) [OF s(3) [unfolded tab_def]] by auto
    then show ?thesis
      using s(5,10) c t unlocked_again [OF c(2) s(5)]
      by (simp add: exec_def run_op_def sched_join_def join_begin_def preempt_lock_def preempt_unlock_def)
  qed
qed

theorem api_errors_witness:
  "\<exists>w. exec (demo_env 0) demo_clk (Op_join None True) w
     = Throw (Domain_error ''|handle| must be specified and must be a valid thread'') w"
proof -
  obtain w where w: "reachable {} w" by (rule demo_boot) blast
  from api_errors [OF w, of "demo_env 0" demo_clk k_default_attr 0 True 0] show ?thesis by blast
qed

lemma current_is_node [simp]: "current_is c (w\<lparr>node := m\<rparr>) = current_is c w"
  by (simp add: current_is_def)

text \<open>The task that sleeps while nothing else can run gets the sleep queue's entry back at once.\<close>

lemma sleep_alone:
  assumes ok: "sched_inv H w" "cur_ok c w" and c: "tasks w c = Some x" and R: "runqueue (node_rq (node w)) = []"
    and d: "deferred (node w) = nullptr" and wk: "wall0 cl \<le> wall_push cl + dur"
  shows "\<exists>w' m x'. sched_sleep_for e cl dur k w = Ret Returned w' \<and> tasks w' = (tasks w)(c \<mapsto> x')
     \<and> run_state x' = WAITING \<and> \<not> no_preempt_flag x' \<and> layout x' = layout x
     \<and> w' = w\<lparr>tasks := tasks w', node := node w'\<rparr>
     \<and> node w' = (node w)\<lparr>node_rq := \<lparr>runqueue = [], sleepqueue = [], min_vruntime = m\<rparr>, last_tick := tick1 cl\<rparr>"
proof -
  note s = sched_ok_curD [OF ok c]
  have sq: "sleepqueue (node_rq (node w)) = []" using s(1) by (simp add: base_ok_def)
  let ?wake = "wall_push cl + dur"
  let ?x1 = "x\<lparr>no_preempt_flag := True, run_state := WAITING\<rparr>"
  let ?q = "\<lparr>runqueue = [], sleepqueue = [(?wake, c)], min_vruntime = min_vruntime (node_rq (node w))\<rparr>"
  have q: "(node_rq (node w))\<lparr>sleepqueue := [(?wake, c)]\<rparr> = ?q" using R by (cases "node_rq (node w)") simp
  let ?w1 = "w\<lparr>tasks := (tasks w)(c \<mapsto> x\<lparr>no_preempt_flag := True\<rparr>)\<rparr>"
  let ?w2 = "w\<lparr>tasks := (tasks w)(c \<mapsto> ?x1), node := (node w)\<lparr>node_rq := ?q\<rparr>\<rparr>"
  have nf: "(node w)\<lparr>spin_flag := True, node_rq := p, spin_flag := False\<rparr> = (node w)\<lparr>node_rq := p\<rparr>" for p
    using s(2) by (cases "node w") simp
  have yf: "node_yield_for e cl dur k' ?w1 = node_yield e cl k' ?w2" for k'
    using s(2,10) c sq
    by (simp add: node_yield_for_def set_rq_def set_node_def rq_sleep_push_def toq_push_def Let_def q nf)
  let ?x2 = "charged cl w ?x1"
  define m where "m = (if min_vruntime (node_rq (node w)) < vruntime ?x2 then vruntime ?x2 else min_vruntime (node_rq (node w)))"
  have c0: "c \<noteq> nullptr" by (rule s(7))
  have pop: "rq_pop vr (wall0 cl) (wall1 cl) ?q = Ret c \<lparr>runqueue = [], sleepqueue = [], min_vruntime = m\<rparr>"
    if "vr c = vruntime ?x2" for vr
    using c0 wk that by (simp add: rq_pop_def rq_wake_def toq_pop_def rq_push_def rq_take_def m_def)
  let ?n = "(node w)\<lparr>node_rq := \<lparr>runqueue = [], sleepqueue = [], min_vruntime = m\<rparr>, last_tick := tick1 cl\<rparr>"
  let ?w3 = "w\<lparr>tasks := (tasks w)(c \<mapsto> ?x2), node := ?n\<rparr>"
  have nf': "(node w)\<lparr>node_rq := p, spin_flag := True, node_rq := p', last_tick := t, spin_flag := False\<rparr>
      = (node w)\<lparr>node_rq := p', last_tick := t\<rparr>" for p p' t
    using s(2) by (cases "node w") simp
  have run: "running (node w)" using s(1) by (simp add: base_ok_def)
  have "node_yield e cl k' ?w2 = Ret Returned ?w3" for k'
    using s(2,10) c d run pop
    by (simp add: node_yield_def return_deferred_def get_next_task_def lift_rq_def set_rq_def set_node_def
        Let_def vr_of_def nf')
  then have "sched_sleep_for e cl dur k w =
      Ret Returned (w\<lparr>tasks := (tasks w)(c \<mapsto> ?x2\<lparr>no_preempt_flag := False\<rparr>), node := ?n\<rparr>)"
    using s(5,10,11) c yf
    by (simp add: sched_sleep_for_def preempt_lock_def preempt_unlock_def preempt_node_def current_node_def)
  then show ?thesis
    by (intro exI [of _ "w\<lparr>tasks := (tasks w)(c \<mapsto> ?x2\<lparr>no_preempt_flag := False\<rparr>), node := ?n\<rparr>"]
        exI [of _ m] exI [of _ "?x2\<lparr>no_preempt_flag := False\<rparr>"]) (simp add: layout_def)
qed

text \<open>
  C25. A task that sleeps while no other task can run is woken at once and then lost: \<open>sleep_for\<close>
  returns before the time is over, the task keeps running with the state \<open>WAITING\<close>, so that the
  next \<open>yield\<close> does not put it back on the run queue and fails with the deadlock error.
\<close>

theorem sleep_alone_loses_task:
  assumes r: "reachable H w" and c: "current_is c w" and R: "runqueue (node_rq (node w)) = []"
    and d: "deferred (node w) = nullptr" and wk: "wall0 cl \<le> wall_push cl + dur"
  shows "\<exists>w' x'. exec e cl (Op_sleep dur) w = Ret No_result w' \<and> current_is c w'
     \<and> tasks w' c = Some x' \<and> run_state x' = WAITING \<and> runqueue (node_rq (node w')) = []
     \<and> (\<forall>e' cl'. \<exists>w''. exec e' cl' Op_yield w' = Throw (Runtime_error ''nothing to do. deadlock?'') w'')"
proof -
  note ok = reachable_cur [OF r c]
  obtain x where x: "tasks w c = Some x" using ok(2) by (auto simp: cur_ok_def)
  note s = sched_ok_curD [OF ok x]
  obtain w' m x' where w': "sched_sleep_for e cl dur [] w = Ret Returned w'" "tasks w' = (tasks w)(c \<mapsto> x')"
    "run_state x' = WAITING" "\<not> no_preempt_flag x'" "layout x' = layout x"
    "w' = w\<lparr>tasks := tasks w', node := node w'\<rparr>"
    "node w' = (node w)\<lparr>node_rq := \<lparr>runqueue = [], sleepqueue = [], min_vruntime = m\<rparr>, last_tick := tick1 cl\<rparr>"
    using sleep_alone [OF ok x R d wk, of e "[]"] by blast
  have same: "tls w' = tls w" "freelist w' = freelist w" "inited w' = inited w" "end_handler_set w' = end_handler_set w"
    "g_current_sched_node w' = g_current_sched_node w"
    by (subst w'(6), simp)+
  let ?w1 = "w\<lparr>tasks := (tasks w)(c \<mapsto> x')\<rparr>"
  have "base_ok ?w1" using upd_cur_ok(1) [OF s(1) ok(2) x w'(5) s(6)] .
  then have b: "base_ok w'"
    by (rule base_ok_rq [of _ "\<lparr>runqueue = [], sleepqueue = [], min_vruntime = m\<rparr>"])
      (simp_all add: w'(2,7) same rq_ok_def)
  have cur: "cur_ok c w'"
    by (rule cur_ok_upd [OF ok(2) x _ w'(2)]) (use w'(5,7) same in \<open>simp_all add: layout_def\<close>)
  have "\<exists>w''. exec e' cl' Op_yield w' = Throw (Runtime_error ''nothing to do. deadlock?'') w''" for e' cl'
  proof -
    let ?x1 = "x'\<lparr>no_preempt_flag := True\<rparr>"
    let ?w2 = "w'\<lparr>tasks := (tasks w')(c \<mapsto> ?x1)\<rparr>"
    have b2: "base_ok ?w2" "cur_ok c ?w2"
      using upd_cur_ok [OF b cur, of x' ?x1] w'(2,7) by (simp_all add: layout_def)
    have "\<exists>w''. node_yield e' cl' [In_sched_yield] ?w2 = Throw (Runtime_error ''nothing to do. deadlock?'') w'' \<and> cur_ok c w''
       \<and> (\<exists>z. tasks w'' c = Some z \<and> no_preempt_flag z = no_preempt_flag ?x1 \<and> run_state z = run_state ?x1)"
      by (rule node_yield_deadlock [OF b2]) (use w'(3,7) s(2) d in \<open>auto simp: deferred_ok_def\<close>)
    then obtain w3 z where w3: "node_yield e' cl' [In_sched_yield] ?w2 = Throw (Runtime_error ''nothing to do. deadlock?'') w3"
        "cur_ok c w3" "tasks w3 c = Some z" "no_preempt_flag z" by auto
    have "sched_yield e' cl' [] w' = guarded preempt_unlock (node_yield e' cl' [In_sched_yield] ?w2)"
      using cur w'(2,4) by (auto simp: sched_yield_def cur_ok_def preempt_lock_def preempt_node_def current_node_def)
    then obtain w'' where "sched_yield e' cl' [] w' = Throw (Runtime_error ''nothing to do. deadlock?'') w''"
      using unlock_Throw [OF w3(2-4)] w3(1) by metis
    then show ?thesis by (simp add: exec_def run_op_def no_value_def)
  qed
  then show ?thesis
    using w' cur by (auto simp: exec_def run_op_def no_value_def cur_ok_def)
qed

theorem sleep_alone_loses_task_witness:
  "\<exists>w w' x'. exec (demo_env 0) demo_clk (Op_sleep 1000) w = Ret No_result w' \<and> tasks w' 0x100 = Some x'
     \<and> run_state x' = WAITING"
proof -
  obtain w where w: "reachable {} w" "cur_ok 0x100 w" "node_rq (node w) = empty_rq" "deferred (node w) = nullptr"
    by (rule demo_boot) blast
  then have "current_is 0x100 w" by (simp add: cur_ok_def)
  from sleep_alone_loses_task [OF w(1) this _ w(4), of demo_clk 1000 "demo_env 0"] w(3) show ?thesis
    by (auto simp: empty_rq_def demo_clk_def)
qed

end
