(* ===== verification/Steps.thy ===== *)
theory Steps
  imports Prelude
begin

text \<open>
  Step systems: the contracts under which the concurrent components are verified. Each
  component is a step relation over a state that holds the shared variables and the program
  location of every task; the steps of different tasks interleave freely.

  \<open>invariant_system\<close> is an inductive invariant of a step relation, \<open>refinement_system\<close> adds an
  abstract step relation that every step implements or leaves alone. The locales carry both
  to all reachable states.
\<close>

locale invariant_system =
  fixes start :: "'s \<Rightarrow> bool" and step :: "'s \<Rightarrow> 's \<Rightarrow> bool" and inv :: "'s \<Rightarrow> bool"
  assumes inv_start: "start s \<Longrightarrow> inv s"
    and inv_step: "inv s \<Longrightarrow> step s s' \<Longrightarrow> inv s'"
begin

lemma inv_steps: "step\<^sup>*\<^sup>* s s' \<Longrightarrow> inv s \<Longrightarrow> inv s'"
  by (induction rule: rtranclp_induct) (auto intro: inv_step)

lemma inv_reach: "start s \<Longrightarrow> step\<^sup>*\<^sup>* s s' \<Longrightarrow> inv s'"
  using inv_steps inv_start by blast

end

locale refinement_system = invariant_system start step inv
  for start :: "'s \<Rightarrow> bool" and step :: "'s \<Rightarrow> 's \<Rightarrow> bool" and inv :: "'s \<Rightarrow> bool" +
  fixes abs :: "'s \<Rightarrow> 'a" and spec_step :: "'a \<Rightarrow> 'a \<Rightarrow> bool"
  assumes sim: "inv s \<Longrightarrow> step s s' \<Longrightarrow> abs s' = abs s \<or> spec_step (abs s) (abs s')"
begin

lemma refines: "step\<^sup>*\<^sup>* s s' \<Longrightarrow> inv s \<Longrightarrow> spec_step\<^sup>*\<^sup>* (abs s) (abs s')"
proof (induction rule: rtranclp_induct)
  case (step s' s'')
  then have "inv s'" using inv_steps by blast
  from sim [OF this step.hyps(2)] step show ?case
    by (auto intro: rtranclp.rtrancl_into_rtrancl)
qed simp

lemma refines_reach: "start s \<Longrightarrow> step\<^sup>*\<^sup>* s s' \<Longrightarrow> spec_step\<^sup>*\<^sup>* (abs s) (abs s')"
  using refines inv_start by blast

end

end
