(* ===== verification/Waiter.thy ===== *)
theory Waiter
  imports Steps
begin

text \<open>
  The waiter (\<open>concur/internal/waiter.h\<close>, \<open>waiter.cc\<close>, \<open>waiter_impl.h\<close>): a cell that holds one
  parked task, shared by the two tasks at the ends of a channel. Its operations are given one
  access at a time, since the running task may be preempted between any two of them: a location
  is named after the access its task performs next, and each access below gets the locations its
  task goes on to.

  A task whose state is \<open>WAITING\<close> (\<open>waiting\<close>) does not run until it is unparked or switched to.
  Whether another task can run at all (\<open>idle\<close> when none can) depends on the whole program and may
  change at any time; a task that is about to wait then gets the exception of \<open>sched::yield()\<close>.
  The store of \<open>WAITING\<close> in \<open>park_if\<close> and the \<open>yield()\<close> behind it are one access: the alarm between the
  two suspends the task as \<open>yield()\<close> does, and that \<open>yield()\<close> is then one of a runnable task.
  The state of a waiting task is changed under the lock against preemption, in one access with
  its scheduling. \<open>self::yield()\<close> of a task that stays runnable changes nothing here. The abstract
  bounded queue that both kinds of channel implement is at the end of the definitions.
\<close>

section \<open>Definitions\<close>

datatype side = Reader | Writer

fun other :: "side \<Rightarrow> side" where
  "other Reader = Writer"
| "other Writer = Reader"

text \<open>The cell, the waiting tasks, the location of each task, and whether the run queue is empty.\<close>

record 'l parking =
  stalled :: "side option"
  waiting :: "side \<Rightarrow> bool"
  pc :: "side \<Rightarrow> 'l"
  idle :: bool

definition goto :: "side \<Rightarrow> 'l \<Rightarrow> ('l, 'z) parking_scheme \<Rightarrow> ('l, 'z) parking_scheme" where
  "goto s l b = b\<lparr>pc := (pc b)(s := l)\<rparr>"

text \<open>\<open>waiter::operator bool\<close>.\<close>

definition wake_test :: "side \<Rightarrow> 'l \<Rightarrow> 'l \<Rightarrow> ('l, 'z) parking_scheme \<Rightarrow> (unit, ('l, 'z) parking_scheme) outcome" where
  "wake_test s free found b = Ret () (goto s (if stalled b = None then free else found) b)"

text \<open>
  \<open>waiter::unpark\<close>: the cell is loaded, the parked task's state is tested, the cell is exchanged,
  and the parked task becomes runnable. \<open>fail\<close> is where the caller goes when it returns false.
\<close>

definition wake_load :: "side \<Rightarrow> 'l \<Rightarrow> (side \<Rightarrow> 'l) \<Rightarrow> ('l, 'z) parking_scheme \<Rightarrow> (unit, ('l, 'z) parking_scheme) outcome" where
  "wake_load s fail l b =
     (case stalled b of None \<Rightarrow> Ret () (goto s fail b) | Some p \<Rightarrow> Ret () (goto s (l p) b))"

definition wake_state :: "side \<Rightarrow> side \<Rightarrow> 'l \<Rightarrow> 'l \<Rightarrow> ('l, 'z) parking_scheme \<Rightarrow> (unit, ('l, 'z) parking_scheme) outcome" where
  "wake_state s p fail l b = Ret () (goto s (if waiting b p then l else fail) b)"

definition wake_cas :: "side \<Rightarrow> side \<Rightarrow> 'l \<Rightarrow> 'l \<Rightarrow> ('l, 'z) parking_scheme \<Rightarrow> (unit, ('l, 'z) parking_scheme) outcome" where
  "wake_cas s p fail l b =
     (if stalled b = Some p then Ret () (goto s l (b\<lparr>stalled := None\<rparr>)) else Ret () (goto s fail b))"

definition wake_sched :: "side \<Rightarrow> side \<Rightarrow> 'l \<Rightarrow> ('l, 'z) parking_scheme \<Rightarrow> (unit, ('l, 'z) parking_scheme) outcome" where
  "wake_sched s p l b =
     (if \<not> waiting b p then Crash Assert_failed
      else Ret () (goto s l (b\<lparr>waiting := (waiting b)(p := False)\<rparr>)))"

text \<open>
  \<open>waiter::park_if\<close>: the cell is exchanged for the caller, the thunk is called, and the cell is
  given back or the caller waits. \<open>taken\<close>, \<open>leave\<close> and \<open>l\<close> are where the caller goes when another
  task is parked, when the thunk returns false and when it returns true. When nothing else can run,
  \<open>sched::yield()\<close> throws: the caller leaves its call for \<open>out\<close>, and both its state and the cell stay
  as they were set.
\<close>

definition park_cas :: "side \<Rightarrow> 'l \<Rightarrow> 'l \<Rightarrow> ('l, 'z) parking_scheme \<Rightarrow> (unit, ('l, 'z) parking_scheme) outcome" where
  "park_cas s check taken b =
     (if stalled b = None then Ret () (goto s check (b\<lparr>stalled := Some s\<rparr>))
      else Ret () (goto s taken b))"

definition park_check :: "side \<Rightarrow> bool \<Rightarrow> 'l \<Rightarrow> 'l \<Rightarrow> ('l, 'z) parking_scheme \<Rightarrow> (unit, ('l, 'z) parking_scheme) outcome" where
  "park_check s thunk leave l b = Ret () (goto s (if thunk then l else leave) b)"

definition park_leave :: "side \<Rightarrow> 'l \<Rightarrow> ('l, 'z) parking_scheme \<Rightarrow> (unit, ('l, 'z) parking_scheme) outcome" where
  "park_leave s l b = Ret () (goto s l (b\<lparr>stalled := None\<rparr>))"

definition park_wait :: "side \<Rightarrow> 'l \<Rightarrow> 'l \<Rightarrow> ('l, 'z) parking_scheme \<Rightarrow> (unit, ('l, 'z) parking_scheme) outcome" where
  "park_wait s l out b =
     (if idle b
      then Throw (Runtime_error ''nothing to do. deadlock?'') (goto s out (b\<lparr>waiting := (waiting b)(s := True)\<rparr>))
      else Ret () (goto s l (b\<lparr>waiting := (waiting b)(s := True)\<rparr>)))"

text \<open>
  \<open>waiter::swap\<close> starts like \<open>unpark\<close>; then it puts the caller into the cell, and makes it wait
  while the task that was parked runs.
\<close>

definition swap_cas :: "side \<Rightarrow> side \<Rightarrow> 'l \<Rightarrow> 'l \<Rightarrow> ('l, 'z) parking_scheme \<Rightarrow> (unit, ('l, 'z) parking_scheme) outcome" where
  "swap_cas s p fail l b =
     (if stalled b = Some p then Ret () (goto s l (b\<lparr>stalled := Some s\<rparr>)) else Ret () (goto s fail b))"

definition swap_switch :: "side \<Rightarrow> side \<Rightarrow> 'l \<Rightarrow> ('l, 'z) parking_scheme \<Rightarrow> (unit, ('l, 'z) parking_scheme) outcome" where
  "swap_switch s p l b = Ret () (goto s l (b\<lparr>waiting := (waiting b)(s := True, p := False)\<rparr>))"

text \<open>The abstract bounded queue: values sent so far, the queue, values received so far.\<close>

inductive fifo_step :: "nat \<Rightarrow> 'a list \<times> 'a list \<times> 'a list \<Rightarrow> 'a list \<times> 'a list \<times> 'a list \<Rightarrow> bool" for cap where
  fifo_enq: "length q < cap \<Longrightarrow> fifo_step cap (i, q, out) (i @ [u], q @ [u], out)"
| fifo_deq: "fifo_step cap (i, x # q, out) (i, q, out @ [x])"

text \<open>
  The protocol of the cell, by the role that its location gives a task: \<open>Free\<close> is any location
  outside the waiter's operations, \<open>Resting\<close> one at which a task that waited goes on, \<open>Taking\<close> and
  \<open>Entering\<close> lie between the exchange of \<open>park_if\<close> and the wait, before and after the thunk, the
  next four hold the parked task that \<open>unpark\<close> or \<open>swap\<close> has loaded, and \<open>Left\<close> is the end of the
  calls of a task. A \<open>cell\<close> is what is left of a state when locations are reduced to roles;
  \<open>shut\<close> is the flag that the thunks test.
\<close>

datatype role = Free | Resting | Taking | Entering | Seen side | Found side | Scheduling side | Switching side | Left

record cell =
  holder :: "side option"
  asleep :: "side \<Rightarrow> bool"
  role :: "side \<Rightarrow> role"
  shut :: bool

definition cell_of :: "('l \<Rightarrow> role) \<Rightarrow> bool \<Rightarrow> ('l, 'z) parking_scheme \<Rightarrow> cell" where
  "cell_of rho cl b = \<lparr>holder = stalled b, asleep = waiting b, role = rho \<circ> pc b, shut = cl\<rparr>"

fun plain :: "role \<Rightarrow> bool" where
  "plain Free = True"
| "plain Resting = True"
| "plain _ = False"

fun loose :: "role \<Rightarrow> bool" where
  "loose Free = True"
| "loose Resting = True"
| "loose (Seen _) = True"
| "loose (Found _) = True"
| "loose _ = False"

fun waking :: "role \<Rightarrow> bool" where
  "waking (Scheduling _) = True"
| "waking (Switching _) = True"
| "waking _ = False"

fun holding :: "role \<Rightarrow> bool" where
  "holding Taking = True"
| "holding Entering = True"
| "holding (Switching _) = True"
| "holding _ = False"

fun target :: "role \<Rightarrow> side option" where
  "target (Seen p) = Some p"
| "target (Found p) = Some p"
| "target (Scheduling p) = Some p"
| "target (Switching p) = Some p"
| "target _ = None"

inductive cell_step :: "side \<Rightarrow> cell \<Rightarrow> cell \<Rightarrow> bool" for s c where
  cell_move: "\<not> asleep c s \<Longrightarrow> loose (role c s) \<Longrightarrow> plain r \<Longrightarrow> cell_step s c (c\<lparr>role := (role c)(s := r)\<rparr>)"
| cell_shut: "\<not> asleep c s \<Longrightarrow> loose (role c s) \<Longrightarrow> plain r \<Longrightarrow>
    cell_step s c (c\<lparr>role := (role c)(s := r), shut := True\<rparr>)"
| cell_see: "\<not> asleep c s \<Longrightarrow> loose (role c s) \<Longrightarrow> holder c = Some p \<Longrightarrow>
    cell_step s c (c\<lparr>role := (role c)(s := Seen p)\<rparr>)"
| cell_find: "\<not> asleep c s \<Longrightarrow> role c s = Seen p \<Longrightarrow> asleep c p \<Longrightarrow>
    cell_step s c (c\<lparr>role := (role c)(s := Found p)\<rparr>)"
| cell_unhold: "\<not> asleep c s \<Longrightarrow> role c s = Found p \<Longrightarrow> holder c = Some p \<Longrightarrow>
    cell_step s c (c\<lparr>holder := None, role := (role c)(s := Scheduling p)\<rparr>)"
| cell_replace: "\<not> asleep c s \<Longrightarrow> role c s = Found p \<Longrightarrow> holder c = Some p \<Longrightarrow>
    cell_step s c (c\<lparr>holder := Some s, role := (role c)(s := Switching p)\<rparr>)"
| cell_wake: "\<not> asleep c s \<Longrightarrow> role c s = Scheduling p \<Longrightarrow> plain r \<or> r = Left \<and> shut c \<Longrightarrow>
    cell_step s c (c\<lparr>asleep := (asleep c)(p := False), role := (role c)(s := r)\<rparr>)"
| cell_switch: "\<not> asleep c s \<Longrightarrow> role c s = Switching p \<Longrightarrow>
    cell_step s c (c\<lparr>asleep := (asleep c)(s := True, p := False), role := (role c)(s := Resting)\<rparr>)"
| cell_take: "\<not> asleep c s \<Longrightarrow> loose (role c s) \<Longrightarrow> holder c = None \<Longrightarrow>
    cell_step s c (c\<lparr>holder := Some s, role := (role c)(s := Taking)\<rparr>)"
| cell_check: "\<not> asleep c s \<Longrightarrow> role c s = Taking \<Longrightarrow> r = Taking \<or> r = Entering \<and> \<not> shut c \<Longrightarrow>
    cell_step s c (c\<lparr>role := (role c)(s := r)\<rparr>)"
| cell_give: "\<not> asleep c s \<Longrightarrow> role c s = Taking \<Longrightarrow> plain r \<Longrightarrow>
    cell_step s c (c\<lparr>holder := None, role := (role c)(s := r)\<rparr>)"
| cell_wait: "\<not> asleep c s \<Longrightarrow> role c s = Entering \<Longrightarrow>
    cell_step s c (c\<lparr>asleep := (asleep c)(s := True), role := (role c)(s := Resting)\<rparr>)"
| cell_leave: "\<not> asleep c s \<Longrightarrow> loose (role c s) \<Longrightarrow> holder c = None \<Longrightarrow> shut c \<Longrightarrow>
    cell_step s c (c\<lparr>role := (role c)(s := Left)\<rparr>)"

text \<open>
  Its invariant: who is in the cell, where a sleeping task goes on, that the task to be woken is
  the other one and sleeps, and that after a task has left the other neither sleeps nor will.
\<close>

definition cell_side :: "cell \<Rightarrow> side \<Rightarrow> bool" where
  "cell_side c s \<longleftrightarrow>
     (holder c = Some s \<longleftrightarrow> holding (role c s) \<or> asleep c s \<and> \<not> waking (role c (other s))) \<and>
     (asleep c s \<longrightarrow> role c s = Resting) \<and>
     (target (role c s) \<noteq> None \<longrightarrow> target (role c s) = Some (other s)) \<and>
     (waking (role c s) \<or> (\<exists>p. role c s = Found p) \<longrightarrow> asleep c (other s)) \<and>
     (role c s = Left \<longrightarrow> shut c \<and> \<not> asleep c (other s) \<and> role c (other s) \<noteq> Entering)"

definition cell_inv :: "cell \<Rightarrow> bool" where
  "cell_inv c \<longleftrightarrow> cell_side c Reader \<and> cell_side c Writer"

section \<open>Lemmas\<close>

lemma other_simps [simp]: "other s \<noteq> s" "s \<noteq> other s" "other (other s) = s"
  by (cases s; simp)+

lemma side_cases: "(x :: side) = s \<or> x = other s"
  by (cases x; cases s) auto

lemma both_sides: "P s \<Longrightarrow> P (other s) \<Longrightarrow> P Reader \<and> P Writer"
  by (cases s) auto

lemma goto_parking [simp]:
  "pc (goto s l b) = (pc b)(s := l)" "stalled (goto s l b) = stalled b" "waiting (goto s l b) = waiting b"
  "idle (goto s l b) = idle b"
  by (simp_all add: goto_def)

lemmas unpark_defs = wake_test_def wake_load_def wake_state_def wake_cas_def wake_sched_def
lemmas park_if_defs = park_cas_def park_check_def park_leave_def park_wait_def
lemmas swap_defs = swap_cas_def swap_switch_def

lemma fifo_steps: "(fifo_step cap)\<^sup>*\<^sup>* ([], [], []) (i, q, out) \<Longrightarrow> i = out @ q \<and> length q \<le> cap"
proof (induction "(i, q, out)" arbitrary: i q out rule: rtranclp_induct)
  case (step y)
  obtain i' q' out' where y: "y = (i', q', out')" by (cases y)
  then have "i' = out' @ q' \<and> length q' \<le> cap" using step.hyps(3) by blast
  with step.hyps(2) show ?case unfolding y by (auto elim!: fifo_step.cases)
qed simp

section \<open>The protocol of the cell\<close>

lemma cell_inv_iff: "cell_inv c \<longleftrightarrow> cell_side c s \<and> cell_side c (other s)"
  by (cases s) (auto simp: cell_inv_def)

lemma role_kinds:
  "loose r \<Longrightarrow> \<not> holding r \<and> \<not> waking r \<and> r \<noteq> Left \<and> r \<noteq> Entering"
  "plain r \<Longrightarrow> \<not> holding r \<and> \<not> waking r \<and> r \<noteq> Left \<and> r \<noteq> Entering \<and> target r = None \<and> r \<noteq> Found p"
  by (cases r; simp)+

text \<open>Every step of the protocol keeps the invariant.\<close>

lemma cell_inv_step:
  assumes "cell_inv c" and "cell_step s c c'"
  shows "cell_inv c'"
proof -
  have i: "cell_side c s" "cell_side c (other s)" using assms(1) by (simp_all add: cell_inv_iff [of _ s])
  have side: "p = s \<or> p = other s" for p by (rule side_cases)
  from assms(2) show ?thesis
  proof cases
    case (cell_move r)
    with i show ?thesis unfolding cell_inv_iff [of _ s] cell_side_def
      using role_kinds(1) [of "role c s"] role_kinds(2) [of r] by auto
  next
    case (cell_shut r)
    with i show ?thesis unfolding cell_inv_iff [of _ s] cell_side_def
      using role_kinds(1) [of "role c s"] role_kinds(2) [of r] by auto
  next
    case (cell_see p)
    with i show ?thesis unfolding cell_inv_iff [of _ s] cell_side_def
      using role_kinds(1) [of "role c s"] side [of p] by auto
  next
    case (cell_find p)
    with i show ?thesis unfolding cell_inv_iff [of _ s] cell_side_def by auto
  next
    case (cell_unhold p)
    with i show ?thesis unfolding cell_inv_iff [of _ s] cell_side_def by auto
  next
    case (cell_replace p)
    with i show ?thesis unfolding cell_inv_iff [of _ s] cell_side_def by auto
  next
    case (cell_wake p r)
    with i show ?thesis unfolding cell_inv_iff [of _ s] cell_side_def
      using role_kinds(2) [of r] by auto
  next
    case (cell_switch p)
    with i show ?thesis unfolding cell_inv_iff [of _ s] cell_side_def by auto
  next
    case cell_take
    with i show ?thesis unfolding cell_inv_iff [of _ s] cell_side_def
      using role_kinds(1) [of "role c s"] by auto
  next
    case (cell_check r)
    with i show ?thesis unfolding cell_inv_iff [of _ s] cell_side_def by auto
  next
    case (cell_give r)
    with i show ?thesis unfolding cell_inv_iff [of _ s] cell_side_def
      using role_kinds(2) [of r] by auto
  next
    case cell_wait
    with i show ?thesis unfolding cell_inv_iff [of _ s] cell_side_def by auto
  next
    case cell_leave
    with i show ?thesis unfolding cell_inv_iff [of _ s] cell_side_def
      using role_kinds(1) [of "role c s"] by auto
  qed
qed

text \<open>What the invariant says of a state of the protocol, for the clients.\<close>

lemma cell_invD:
  assumes "cell_inv c"
  shows "holder c = Some s \<longleftrightarrow> holding (role c s) \<or> asleep c s \<and> \<not> waking (role c (other s))"
    and "asleep c s \<Longrightarrow> role c s = Resting"
    and "target (role c s) = Some p \<Longrightarrow> p = other s"
    and "waking (role c s) \<or> role c s = Found p \<Longrightarrow> asleep c (other s)"
    and "role c s = Left \<Longrightarrow> shut c \<and> \<not> asleep c (other s) \<and> role c (other s) \<noteq> Entering"
proof -
  have "cell_side c s" using assms by (cases s) (simp_all add: cell_inv_def)
  then show "holder c = Some s \<longleftrightarrow> holding (role c s) \<or> asleep c s \<and> \<not> waking (role c (other s))"
    "asleep c s \<Longrightarrow> role c s = Resting" "target (role c s) = Some p \<Longrightarrow> p = other s"
    "waking (role c s) \<or> role c s = Found p \<Longrightarrow> asleep c (other s)"
    "role c s = Left \<Longrightarrow> shut c \<and> \<not> asleep c (other s) \<and> role c (other s) \<noteq> Entering"
    by (auto simp: cell_side_def)
qed

lemma cell_inv_asleep:
  assumes "cell_inv c"
  shows "\<not> (asleep c Reader \<and> asleep c Writer)"
  using cell_invD(1,2) [OF assms, of Reader] cell_invD(1,2) [OF assms, of Writer] by auto

lemma left_step: "cell_step s c c' \<Longrightarrow> role c x = Left \<Longrightarrow> role c' x = Left"
  by (induction rule: cell_step.induct) auto

section \<open>The accesses are steps of the protocol\<close>

lemma cell_of_simps [simp]:
  "holder (cell_of rho cl b) = stalled b" "asleep (cell_of rho cl b) = waiting b"
  "role (cell_of rho cl b) s = rho (pc b s)" "shut (cell_of rho cl b) = cl"
  by (simp_all add: cell_of_def)

lemma cell_of_goto [simp]:
  "cell_of rho cl (goto s l b) = (cell_of rho cl b)\<lparr>role := (role (cell_of rho cl b))(s := rho l)\<rparr>"
  by (simp add: cell_of_def fun_upd_comp)

lemma cell_of_update [simp]:
  "cell_of rho cl (b\<lparr>stalled := h\<rparr>) = (cell_of rho cl b)\<lparr>holder := h\<rparr>"
  "cell_of rho cl (b\<lparr>waiting := f\<rparr>) = (cell_of rho cl b)\<lparr>asleep := f\<rparr>"
  "cell_of rho cl (b\<lparr>idle := i\<rparr>) = cell_of rho cl b"
  by (simp_all add: cell_of_def)

lemma move_cell:
  assumes "\<not> waiting b s" "loose (rho (pc b s))" "plain (rho l)"
  shows "cell_step s (cell_of rho cl b) (cell_of rho cl (goto s l b))"
  using assms by (simp add: cell_move)

lemma park_cas_cell:
  assumes "park_cas s l m b = Ret () b'" "\<not> waiting b s" "loose (rho (pc b s))" "rho l = Taking" "plain (rho m)"
  shows "cell_step s (cell_of rho cl b) (cell_of rho cl b')"
  using assms by (auto simp: park_cas_def cell_take cell_move split: if_splits)

lemma park_check_cell:
  assumes "park_check s (\<not> cl) l m b = Ret () b'" "\<not> waiting b s" "rho (pc b s) = Taking" "rho l = Taking" "rho m = Entering"
  shows "cell_step s (cell_of rho cl b) (cell_of rho cl b')"
  using assms by (auto simp: park_check_def cell_check)

lemma park_leave_cell:
  assumes "park_leave s l b = Ret () b'" "\<not> waiting b s" "rho (pc b s) = Taking" "plain (rho l)"
  shows "cell_step s (cell_of rho cl b) (cell_of rho cl b')"
  using assms by (auto simp: park_leave_def cell_give)

lemma park_wait_cell:
  assumes "park_wait s l out b = Ret () b'" "\<not> waiting b s" "rho (pc b s) = Entering" "rho l = Resting"
  shows "cell_step s (cell_of rho cl b) (cell_of rho cl b')"
  using assms cell_wait [where c = "cell_of rho cl b" and s = s] by (auto simp: park_wait_def split: if_splits)

lemma wake_test_cell:
  assumes "wake_test s l m b = Ret () b'" "\<not> waiting b s" "loose (rho (pc b s))" "plain (rho m)"
    "plain (rho l) \<or> rho l = Left \<and> cl"
  shows "cell_step s (cell_of rho cl b) (cell_of rho cl b')"
  using assms by (auto simp: wake_test_def cell_move cell_leave split: if_splits)

lemma wake_load_cell:
  assumes "wake_load s l m b = Ret () b'" "\<not> waiting b s" "loose (rho (pc b s))" "plain (rho l)" "\<And>p. rho (m p) = Seen p"
  shows "cell_step s (cell_of rho cl b) (cell_of rho cl b')"
  using assms by (auto simp: wake_load_def cell_move cell_see split: option.splits)

lemma wake_state_cell:
  assumes "wake_state s p l m b = Ret () b'" "\<not> waiting b s" "rho (pc b s) = Seen p" "plain (rho l)" "rho m = Found p"
  shows "cell_step s (cell_of rho cl b) (cell_of rho cl b')"
  using assms by (auto simp: wake_state_def cell_move cell_find)

lemma wake_cas_cell:
  assumes "wake_cas s p l m b = Ret () b'" "\<not> waiting b s" "rho (pc b s) = Found p" "plain (rho l)" "rho m = Scheduling p"
  shows "cell_step s (cell_of rho cl b) (cell_of rho cl b')"
  using assms by (auto simp: wake_cas_def cell_move cell_unhold split: if_splits)

lemma wake_sched_cell:
  assumes "wake_sched s p l b = Ret () b'" "\<not> waiting b s" "rho (pc b s) = Scheduling p" "plain (rho l) \<or> rho l = Left \<and> cl"
  shows "cell_step s (cell_of rho cl b) (cell_of rho cl b')"
  using assms cell_wake [where c = "cell_of rho cl b" and s = s and p = p and r = "rho l"]
  by (auto simp: wake_sched_def split: if_splits)

lemma swap_cas_cell:
  assumes "swap_cas s p l m b = Ret () b'" "\<not> waiting b s" "rho (pc b s) = Found p" "plain (rho l)" "rho m = Switching p"
  shows "cell_step s (cell_of rho cl b) (cell_of rho cl b')"
  using assms by (auto simp: swap_cas_def cell_move cell_replace split: if_splits)

lemma swap_switch_cell:
  assumes "swap_switch s p l b = Ret () b'" "\<not> waiting b s" "rho (pc b s) = Switching p" "rho l = Resting"
  shows "cell_step s (cell_of rho cl b) (cell_of rho cl b')"
  using assms cell_switch [where c = "cell_of rho cl b" and s = s and p = p] by (auto simp: swap_switch_def)

lemmas access_cell = park_cas_cell park_check_cell park_leave_cell park_wait_cell wake_test_cell wake_load_cell
  wake_state_cell wake_cas_cell wake_sched_cell swap_cas_cell swap_switch_cell

text \<open>
  A client of the waiter is a step system whose steps are steps of the protocol. Its two tasks
  never both wait, and a side that has left never leaves the other one waiting.
\<close>

locale waiter_client = refinement_system start step inv cell "\<lambda>c c'. \<exists>s. cell_step s c c'"
  for start :: "'s \<Rightarrow> bool" and step :: "'s \<Rightarrow> 's \<Rightarrow> bool" and inv :: "'s \<Rightarrow> bool" and cell :: "'s \<Rightarrow> cell" +
  assumes cell_start: "start s \<Longrightarrow> cell_inv (cell s)"
begin

lemma cell_inv_steps: "(\<lambda>c c'. \<exists>s. cell_step s c c')\<^sup>*\<^sup>* c c' \<Longrightarrow> cell_inv c \<Longrightarrow> cell_inv c'"
  by (induction rule: rtranclp_induct) (auto intro: cell_inv_step)

lemma cell_reach: "start s \<Longrightarrow> step\<^sup>*\<^sup>* s s' \<Longrightarrow> cell_inv (cell s')"
  using refines_reach cell_inv_steps cell_start by blast

lemma never_both_wait: "start s \<Longrightarrow> step\<^sup>*\<^sup>* s s' \<Longrightarrow> \<not> (asleep (cell s') Reader \<and> asleep (cell s') Writer)"
  using cell_reach cell_inv_asleep by blast

lemma left_steps: "(\<lambda>c c'. \<exists>s. cell_step s c c')\<^sup>*\<^sup>* c c' \<Longrightarrow> role c x = Left \<Longrightarrow> role c' x = Left"
  by (induction rule: rtranclp_induct) (auto intro: left_step)

lemma left_releases:
  assumes "start s" and "step\<^sup>*\<^sup>* s s1" and "role (cell s1) x = Left" and "step\<^sup>*\<^sup>* s1 s2"
  shows "shut (cell s2) \<and> \<not> asleep (cell s2) (other x)"
proof -
  have "inv s1" using inv_reach assms(1,2) by blast
  then have "role (cell s2) x = Left" using refines [OF assms(4)] left_steps assms(3) by blast
  then show ?thesis using cell_reach [OF assms(1) rtranclp_trans [OF assms(2,4)]] cell_invD(5) by blast
qed

end

end
