(* ===== verification/Ring_Buffer.thy ===== *)
theory Ring_Buffer
  imports Waiter
begin

text \<open>
  The ring buffer behind buffered channels (\<open>concur/internal/ring_buffer.h\<close>,
  \<open>concur/internal/ring_buffer_impl.h\<close>), at the granularity of its atomic accesses: between any
  two of them the running task may be preempted and the other one run. One task reads and one
  writes, since the two ends of a channel are move-only; either may close its end. The state
  extends that of the waiter \<open>_stalled\<close>. A location of a task (\<open>rb_pc\<close>) is named after the access
  it performs next and holds the local variables. \<open>sent\<close> and \<open>got\<close> record the values whose
  \<open>write\<close> has stored \<open>_w\<close> and whose \<open>read\<close> has stored \<open>_r\<close>.
\<close>

section \<open>Definitions\<close>

text \<open>What a call does when its wake-up loop is over: it returns an optional, or the end is closed.\<close>

datatype 'a rb_after = Return "'a option" | Gone_after

datatype 'a rb_pc =
    Ready "'a option"
  | Gone
  | Read_r
  | Read_w u64
  | Read_test u64 u64
  | Read_cas u64
  | Read_check u64
  | Read_leave
  | Read_wait u64
  | Read_reload u64
  | Read_take u64
  | Read_store u64 'a
  | Write_closed 'a
  | Write_w 'a
  | Write_r 'a u64
  | Write_test 'a u64 u64
  | Write_cas 'a u64
  | Write_check 'a u64
  | Write_leave 'a
  | Write_wait 'a u64
  | Write_reload 'a u64
  | Write_put 'a u64
  | Write_store 'a u64
  | Close_store
  | Wake_test "'a rb_after"
  | Wake_load "'a rb_after"
  | Wake_state "'a rb_after" side
  | Wake_cas "'a rb_after" side
  | Wake_sched "'a rb_after" side

record 'a ring_buffer = "'a rb_pc parking" +
  buffer :: "nat \<Rightarrow> 'a option"
  rd :: u64
  wr :: u64
  closed :: bool
  sent :: "'a list"
  got :: "'a list"

text \<open>The constructor, with no call under way; \<open>_stalled\<close> is empty.\<close>

definition rb_init :: "'a ring_buffer" where
  "rb_init =
     \<lparr>stalled = None, waiting = (\<lambda>_. False), pc = (\<lambda>_. Ready None), idle = False,
      buffer = (\<lambda>_. None), rd = 0, wr = 0, closed = False, sent = [], got = []\<rparr>"

text \<open>The size is \<open>2^n\<close>; an index selects the slot \<open>loaded & _mask\<close>.\<close>

definition rb_size :: "nat \<Rightarrow> u64" where
  "rb_size n = 2 ^ n"

definition rb_mask :: "nat \<Rightarrow> u64" where
  "rb_mask n = rb_size n - 1"

definition rb_slot :: "nat \<Rightarrow> u64 \<Rightarrow> nat" where
  "rb_slot n i = unat (i AND rb_mask n)"

fun finish :: "'a rb_after \<Rightarrow> 'a rb_pc" where
  "finish (Return v) = Ready v"
| "finish Gone_after = Gone"

text \<open>\<open>ring_buffer::read\<close>, one access at a time.\<close>

fun read_step :: "nat \<Rightarrow> 'a rb_pc \<Rightarrow> 'a ring_buffer \<Rightarrow> (unit, 'a ring_buffer) outcome" where
  "read_step n Read_r b = Ret () (goto Reader (Read_w (rd b)) b)"
| "read_step n (Read_w r) b = Ret () (goto Reader (Read_test r (wr b)) b)"
| "read_step n (Read_test r w) b =
     Ret () (goto Reader (if w - r = 0 then Read_cas r else Read_take r) b)"
| "read_step n (Read_cas r) b = park_cas Reader (Read_check r) (Read_reload r) b"
| "read_step n (Read_check r) b = park_check Reader (\<not> closed b) Read_leave (Read_wait r) b"
| "read_step n Read_leave b = park_leave Reader (Ready None) b"
| "read_step n (Read_wait r) b = park_wait Reader (Read_reload r) (Ready None) b"
| "read_step n (Read_reload r) b = Ret () (goto Reader (Read_test r (wr b)) b)"
| "read_step n (Read_take r) b =
     (case buffer b (rb_slot n r) of
        None \<Rightarrow> Crash Uninit_read
      | Some x \<Rightarrow>
          Ret () (goto Reader (Read_store r x) (b\<lparr>buffer := (buffer b)(rb_slot n r := None)\<rparr>)))"
| "read_step n (Read_store r x) b =
     Ret () (goto Reader (Wake_test (Return (Some x))) (b\<lparr>rd := r + 1, got := got b @ [x]\<rparr>))"
| "read_step n l b = Ret () b"

text \<open>\<open>ring_buffer::write\<close>; a refused value is returned to the caller.\<close>

fun write_step :: "nat \<Rightarrow> 'a rb_pc \<Rightarrow> 'a ring_buffer \<Rightarrow> (unit, 'a ring_buffer) outcome" where
  "write_step n (Write_closed u) b =
     Ret () (goto Writer (if closed b then Ready (Some u) else Write_w u) b)"
| "write_step n (Write_w u) b = Ret () (goto Writer (Write_r u (wr b)) b)"
| "write_step n (Write_r u w) b = Ret () (goto Writer (Write_test u w (rd b)) b)"
| "write_step n (Write_test u w r) b =
     Ret () (goto Writer (if w - r = rb_size n then Write_cas u w else Write_put u w) b)"
| "write_step n (Write_cas u w) b = park_cas Writer (Write_check u w) (Write_reload u w) b"
| "write_step n (Write_check u w) b = park_check Writer (\<not> closed b) (Write_leave u) (Write_wait u w) b"
| "write_step n (Write_leave u) b = park_leave Writer (Ready (Some u)) b"
| "write_step n (Write_wait u w) b = park_wait Writer (Write_reload u w) (Ready None) b"
| "write_step n (Write_reload u w) b = Ret () (goto Writer (Write_test u w (rd b)) b)"
| "write_step n (Write_put u w) b =
     Ret () (goto Writer (Write_store u w) (b\<lparr>buffer := (buffer b)(rb_slot n w \<mapsto> u)\<rparr>))"
| "write_step n (Write_store u w) b =
     Ret () (goto Writer (Wake_test (Return None)) (b\<lparr>wr := w + 1, sent := sent b @ [u]\<rparr>))"
| "write_step n l b = Ret () b"

text \<open>
  \<open>ring_buffer::close\<close>, by either side, and the loop that ends every operation,
  \<open>while (_stalled && !_stalled.unpark()) gthread::self::yield()\<close>.
\<close>

fun close_step :: "side \<Rightarrow> 'a rb_pc \<Rightarrow> 'a ring_buffer \<Rightarrow> (unit, 'a ring_buffer) outcome" where
  "close_step s Close_store b = Ret () (goto s (Wake_test Gone_after) (b\<lparr>closed := True\<rparr>))"
| "close_step s (Wake_test k) b = wake_test s (finish k) (Wake_load k) b"
| "close_step s (Wake_load k) b = wake_load s (Wake_test k) (Wake_state k) b"
| "close_step s (Wake_state k p) b = wake_state s p (Wake_test k) (Wake_cas k p) b"
| "close_step s (Wake_cas k p) b = wake_cas s p (Wake_test k) (Wake_sched k p) b"
| "close_step s (Wake_sched k p) b = wake_sched s p (finish k) b"
| "close_step s l b = Ret () b"

definition in_close :: "'a rb_pc \<Rightarrow> bool" where
  "in_close l \<longleftrightarrow>
     (case l of Close_store \<Rightarrow> True | Wake_test _ \<Rightarrow> True | Wake_load _ \<Rightarrow> True | Wake_state _ _ \<Rightarrow> True
      | Wake_cas _ _ \<Rightarrow> True | Wake_sched _ _ \<Rightarrow> True | _ \<Rightarrow> False)"

text \<open>One access of the task of one side; a waiting task and a task outside a call do nothing.\<close>

definition rb_step :: "nat \<Rightarrow> side \<Rightarrow> 'a ring_buffer \<Rightarrow> (unit, 'a ring_buffer) outcome" where
  "rb_step n s b =
     (if waiting b s then Ret () b
      else if in_close (pc b s) then close_step s (pc b s) b
      else (case s of Reader \<Rightarrow> read_step n (pc b s) b | Writer \<Rightarrow> write_step n (pc b s) b))"

text \<open>
  The calls: a side that is outside a call and has not closed its end may start one. The steps of
  the system are those that return: an exception ends the program's use of the buffer.
\<close>

datatype 'a rb_call = Call_read | Call_write 'a | Call_close side

fun rb_begin :: "'a rb_call \<Rightarrow> 'a ring_buffer \<Rightarrow> 'a ring_buffer option" where
  "rb_begin Call_read b =
     (case pc b Reader of Ready _ \<Rightarrow> Some (goto Reader Read_r b) | _ \<Rightarrow> None)"
| "rb_begin (Call_write u) b =
     (case pc b Writer of Ready _ \<Rightarrow> Some (goto Writer (Write_closed u) b) | _ \<Rightarrow> None)"
| "rb_begin (Call_close s) b =
     (case pc b s of Ready _ \<Rightarrow> Some (goto s Close_store b) | _ \<Rightarrow> None)"

inductive rb_trans :: "nat \<Rightarrow> 'a ring_buffer \<Rightarrow> 'a ring_buffer \<Rightarrow> bool" for n where
  trans_call: "rb_begin c b = Some b' \<Longrightarrow> rb_trans n b b'"
| trans_step: "rb_step n s b = Ret () b' \<Longrightarrow> rb_trans n b b'"
| trans_idle: "rb_trans n b (b\<lparr>idle := i\<rparr>)"

text \<open>The abstract queue a state stands for.\<close>

definition rb_abs :: "'a ring_buffer \<Rightarrow> 'a list \<times> 'a list \<times> 'a list" where
  "rb_abs b = (sent b, drop (length (got b)) (sent b), got b)"

text \<open>
  The invariant. \<open>R\<close> and \<open>W\<close> are the numbers of values received and sent; the indices are
  these numbers modulo \<open>2^64\<close>. The reader's copy of \<open>_w\<close> and the writer's copy of \<open>_r\<close> may be
  old: they stand for numbers \<open>L\<close> that the counter has passed.
\<close>

fun reader_ok :: "nat \<Rightarrow> nat \<Rightarrow> 'a list \<Rightarrow> 'a rb_pc \<Rightarrow> bool" where
  "reader_ok R W xs (Read_w r) = (r = of_nat R)"
| "reader_ok R W xs (Read_test r w) = (r = of_nat R \<and> (\<exists>L. w = of_nat L \<and> R \<le> L \<and> L \<le> W))"
| "reader_ok R W xs (Read_cas r) = (r = of_nat R)"
| "reader_ok R W xs (Read_check r) = (r = of_nat R)"
| "reader_ok R W xs (Read_wait r) = (r = of_nat R)"
| "reader_ok R W xs (Read_reload r) = (r = of_nat R)"
| "reader_ok R W xs (Read_take r) = (r = of_nat R \<and> R < W)"
| "reader_ok R W xs (Read_store r x) = (r = of_nat R \<and> R < W \<and> x = xs ! R)"
| "reader_ok R W xs _ = True"

fun writer_ok :: "nat \<Rightarrow> nat \<Rightarrow> nat \<Rightarrow> 'a rb_pc \<Rightarrow> bool" where
  "writer_ok n R W (Write_r u w) = (w = of_nat W)"
| "writer_ok n R W (Write_test u w r) = (w = of_nat W \<and> (\<exists>L. r = of_nat L \<and> L \<le> R \<and> W \<le> L + 2 ^ n))"
| "writer_ok n R W (Write_cas u w) = (w = of_nat W)"
| "writer_ok n R W (Write_check u w) = (w = of_nat W)"
| "writer_ok n R W (Write_wait u w) = (w = of_nat W)"
| "writer_ok n R W (Write_reload u w) = (w = of_nat W)"
| "writer_ok n R W (Write_put u w) = (w = of_nat W \<and> W < R + 2 ^ n)"
| "writer_ok n R W (Write_store u w) = (w = of_nat W \<and> W < R + 2 ^ n)"
| "writer_ok n R W _ = True"

text \<open>
  What a slot holds: the value sent with its number while that is in the queue and not moved
  out yet, the value being written, or nothing.
\<close>

definition slots_ok :: "nat \<Rightarrow> 'a ring_buffer \<Rightarrow> bool" where
  "slots_ok n b \<longleftrightarrow>
     (\<forall>i. length (got b) \<le> i \<and> i < length (got b) + 2 ^ n \<longrightarrow>
        buffer b (i mod 2 ^ n) =
          (if i < length (sent b)
           then (if i = length (got b) \<and> (\<exists>r x. pc b Reader = Read_store r x) then None
                 else Some (sent b ! i))
           else if i = length (sent b)
           then (case pc b Writer of Write_store u _ \<Rightarrow> Some u | _ \<Rightarrow> None)
           else None))"

definition queue_ok :: "nat \<Rightarrow> 'a ring_buffer \<Rightarrow> bool" where
  "queue_ok n b \<longleftrightarrow>
     rd b = of_nat (length (got b)) \<and> wr b = of_nat (length (sent b)) \<and>
     length (got b) \<le> length (sent b) \<and> length (sent b) \<le> length (got b) + 2 ^ n \<and>
     got b = take (length (got b)) (sent b) \<and>
     reader_ok (length (got b)) (length (sent b)) (sent b) (pc b Reader) \<and>
     writer_ok n (length (got b)) (length (sent b)) (pc b Writer) \<and> slots_ok n b"

section \<open>Indices\<close>

lemma rb_slot_of_nat:
  assumes "n < 64"
  shows "rb_slot n (of_nat i) = i mod 2 ^ n"
proof -
  have d: "(2::nat) ^ n dvd 2 ^ 64" using assms by (intro le_imp_power_dvd) simp
  have "unat (take_bit n (of_nat i :: u64)) = take_bit n (unat (of_nat i :: u64))"
    by (rule unsigned_take_bit_eq)
  also have "\<dots> = i mod 2 ^ 64 mod 2 ^ n" by (simp add: unat_of_nat take_bit_eq_mod)
  also have "\<dots> = i mod 2 ^ n" by (rule mod_mod_cancel [OF d])
  finally show ?thesis
    by (simp add: rb_slot_def rb_mask_def rb_size_def take_bit_eq_mask mask_eq_exp_minus_1)
qed

lemma u64_of_nat_inj: "x < 2 ^ 64 \<Longrightarrow> m < 2 ^ 64 \<Longrightarrow> (of_nat x :: u64) = of_nat m \<longleftrightarrow> x = m"
  by (simp add: word_of_nat_eq_iff take_bit_eq_mod)

lemma u64_diff_eq_iff:
  assumes "a \<le> b" "b \<le> a + 2 ^ n" "n < 64" "m \<le> 2 ^ n"
  shows "(of_nat b :: u64) - of_nat a = of_nat m \<longleftrightarrow> b = a + m"
proof -
  have lt: "(2::nat) ^ n < 2 ^ 64" using assms(3) by (intro power_strict_increasing) simp_all
  then have "b - a < 2 ^ 64" "m < 2 ^ 64" using assms by linarith+
  then have "(of_nat (b - a) :: u64) = of_nat m \<longleftrightarrow> b - a = m" by (rule u64_of_nat_inj)
  moreover have "(of_nat b :: u64) - of_nat a = of_nat (b - a)" using assms(1) by (simp add: of_nat_diff)
  ultimately have "(of_nat b :: u64) - of_nat a = of_nat m \<longleftrightarrow> b - a = m" by simp
  then show ?thesis using assms(1) by linarith
qed

lemma mod_eq_window:
  fixes i j m :: nat
  assumes "i mod m = j mod m" "a \<le> i" "i < a + m" "a \<le> j" "j < a + m"
  shows "i = j"
proof -
  have *: "i = j" if "i mod m = j mod m" "i \<le> j" "j - i < m" for i j
  proof -
    have "m dvd j - i" using mod_eq_dvd_iff_nat [OF that(2), of m] that(1) by simp
    then show ?thesis using that by (auto dest: dvd_imp_le)
  qed
  show ?thesis
  proof (cases "i \<le> j")
    case True
    show ?thesis by (rule * [OF assms(1) True]) (use assms(2-5) True in linarith)
  next
    case False
    show ?thesis by (rule * [OF assms(1) [symmetric], symmetric]) (use assms(2-5) False in linarith)+
  qed
qed

section \<open>The queue\<close>

lemma goto_simps [simp]:
  "buffer (goto s l b) = buffer b" "rd (goto s l b) = rd b" "wr (goto s l b) = wr b"
  "closed (goto s l b) = closed b" "sent (goto s l b) = sent b" "got (goto s l b) = got b"
  by (simp_all add: goto_def)

lemma queue_okD:
  assumes "queue_ok n b"
  shows "rd b = of_nat (length (got b))" "wr b = of_nat (length (sent b))"
    "length (got b) \<le> length (sent b)" "length (sent b) \<le> length (got b) + 2 ^ n"
    "got b = take (length (got b)) (sent b)"
    "reader_ok (length (got b)) (length (sent b)) (sent b) (pc b Reader)"
    "writer_ok n (length (got b)) (length (sent b)) (pc b Writer)" "slots_ok n b"
  using assms by (simp_all add: queue_ok_def)

text \<open>A step that moves between locations and leaves the indices and slots alone.\<close>

lemma queue_ok_move:
  assumes "queue_ok n b" and "buffer b' = buffer b" "rd b' = rd b" "wr b' = wr b" "sent b' = sent b" "got b' = got b"
    and "reader_ok (length (got b)) (length (sent b)) (sent b) (pc b' Reader)"
    and "writer_ok n (length (got b)) (length (sent b)) (pc b' Writer)"
    and "(\<exists>r x. pc b' Reader = Read_store r x) \<longleftrightarrow> (\<exists>r x. pc b Reader = Read_store r x)"
    and "(case pc b' Writer of Write_store u _ \<Rightarrow> Some u | _ \<Rightarrow> None)
       = (case pc b Writer of Write_store u _ \<Rightarrow> Some u | _ \<Rightarrow> None)"
  shows "queue_ok n b'"
proof -
  have "slots_ok n b'" using queue_okD(8) [OF assms(1)] unfolding slots_ok_def assms(2-6,9,10) .
  with assms show ?thesis by (simp add: queue_ok_def)
qed

lemma queue_ok_start: "queue_ok n rb_init"
  by (simp add: queue_ok_def rb_init_def slots_ok_def)

lemma rb_begin_cases:
  assumes "rb_begin c b = Some b'"
  obtains s v l where "pc b s = Ready v" "b' = goto s l b"
    "l = Close_store \<or> s = Reader \<and> l = Read_r \<or> s = Writer \<and> (\<exists>u. l = Write_closed u)"
proof (cases c)
  case Call_read
  then show ?thesis using assms that [of Reader _ Read_r] by (cases "pc b Reader") simp_all
next
  case (Call_write u)
  then show ?thesis using assms that [of Writer _ "Write_closed u"] by (cases "pc b Writer") simp_all
next
  case (Call_close s)
  then show ?thesis using assms that [of s _ Close_store] by (cases "pc b s") simp_all
qed

lemma queue_ok_begin:
  assumes "queue_ok n b" and "rb_begin c b = Some b'"
  shows "queue_ok n b' \<and> rb_abs b' = rb_abs b"
proof -
  from assms(2) obtain s v l where b': "pc b s = Ready v" "b' = goto s l b"
    "l = Close_store \<or> s = Reader \<and> l = Read_r \<or> s = Writer \<and> (\<exists>u. l = Write_closed u)"
    by (rule rb_begin_cases)
  have "queue_ok n b'"
    by (rule queue_ok_move [OF assms(1)])
      (use b' queue_okD(6,7) [OF assms(1)] in \<open>cases s; auto\<close>)+
  then show ?thesis using b' by (simp add: rb_abs_def)
qed

text \<open>The test of the reader: a copy of \<open>_w\<close> that differs from \<open>_r\<close> shows a value in the queue.\<close>

lemma read_test_ok:
  assumes "queue_ok n b" "n < 64" "pc b Reader = Read_test r w"
  shows "queue_ok n (goto Reader (if w - r = 0 then Read_cas r else Read_take r) b)"
proof -
  note D = queue_okD [OF assms(1)]
  obtain L where L: "w = of_nat L" "length (got b) \<le> L" "L \<le> length (sent b)" "r = of_nat (length (got b))"
    using D(6) assms(3) by auto
  have "w - r = 0 \<longleftrightarrow> L = length (got b)"
    using u64_diff_eq_iff [of "length (got b)" L n 0] L D(4) assms(2) by simp
  then show ?thesis
    by (intro queue_ok_move [OF assms(1)]) (use L D assms(3) in auto)
qed

lemma write_test_ok:
  assumes "queue_ok n b" "n < 64" "pc b Writer = Write_test u w r"
  shows "queue_ok n (goto Writer (if w - r = rb_size n then Write_cas u w else Write_put u w) b)"
proof -
  note D = queue_okD [OF assms(1)]
  obtain L where L: "r = of_nat L" "L \<le> length (got b)" "length (sent b) \<le> L + 2 ^ n" "w = of_nat (length (sent b))"
    using D(7) assms(3) by auto
  have "w - r = rb_size n \<longleftrightarrow> length (sent b) = L + 2 ^ n"
    using u64_diff_eq_iff [of L "length (sent b)" n "2 ^ n"] L D(3) assms(2) by (simp add: rb_size_def)
  then show ?thesis
    by (intro queue_ok_move [OF assms(1)]) (use L D assms(3) in auto)
qed

lemma slots_okD:
  "slots_ok n b \<Longrightarrow> length (got b) \<le> i \<Longrightarrow> i < length (got b) + 2 ^ n \<Longrightarrow>
     buffer b (i mod 2 ^ n) =
       (if i < length (sent b)
        then (if i = length (got b) \<and> (\<exists>r x. pc b Reader = Read_store r x) then None else Some (sent b ! i))
        else if i = length (sent b) then (case pc b Writer of Write_store u _ \<Rightarrow> Some u | _ \<Rightarrow> None) else None)"
  by (simp add: slots_ok_def)

lemma read_take_ok:
  assumes "queue_ok n b" "n < 64" "pc b Reader = Read_take r"
  shows "\<exists>x. buffer b (rb_slot n r) = Some x
    \<and> queue_ok n (goto Reader (Read_store r x) (b\<lparr>buffer := (buffer b)(rb_slot n r := None)\<rparr>))"
proof -
  note D = queue_okD [OF assms(1)]
  let ?R = "length (got b)"
  have r: "r = of_nat ?R" "?R < length (sent b)" using D(6) assms(3) by auto
  have slot: "rb_slot n r = ?R mod 2 ^ n" using r(1) assms(2) by (simp add: rb_slot_of_nat)
  have x: "buffer b (?R mod 2 ^ n) = Some (sent b ! ?R)"
    using slots_okD [OF D(8), of ?R] r(2) assms(3) by auto
  let ?b = "goto Reader (Read_store r (sent b ! ?R)) (b\<lparr>buffer := (buffer b)(rb_slot n r := None)\<rparr>)"
  have "slots_ok n ?b"
    unfolding slots_ok_def
  proof (intro allI impI, goal_cases)
    case (1 i)
    then have "i mod 2 ^ n = ?R mod 2 ^ n \<longleftrightarrow> i = ?R"
      using mod_eq_window [of i "2 ^ n" ?R ?R] by auto
    then show ?case using slots_okD [OF D(8), of i] 1 slot assms(3) r(2) by auto
  qed
  then have "queue_ok n ?b" using D r by (simp add: queue_ok_def)
  then show ?thesis using x slot by auto
qed

lemma read_store_ok:
  assumes "queue_ok n b" "pc b Reader = Read_store r x"
  defines "b' \<equiv> goto Reader (Wake_test (Return (Some x))) (b\<lparr>rd := r + 1, got := got b @ [x]\<rparr>)"
  shows "queue_ok n b' \<and> fifo_step (2 ^ n) (rb_abs b) (rb_abs b')"
proof -
  note D = queue_okD [OF assms(1)]
  let ?R = "length (got b)"
  have r: "r = of_nat ?R" "?R < length (sent b)" "x = sent b ! ?R" using D(6) assms(2) by auto
  have "slots_ok n b'"
    unfolding slots_ok_def b'_def
  proof (intro allI impI, goal_cases)
    case (1 i)
    show ?case
    proof (cases "i < ?R + 2 ^ n")
      case True
      then show ?thesis using slots_okD [OF D(8), of i] 1 assms(2) by auto
    next
      case False
      then have i: "i = ?R + 2 ^ n" using 1 by auto
      have "buffer b (i mod 2 ^ n) = None"
        using slots_okD [OF D(8), of ?R] r(2) assms(2) by (simp add: i)
      moreover have "length (sent b) < i \<or> length (sent b) = i \<and> \<not> (\<exists>u w. pc b Writer = Write_store u w)"
        using D(4,7) i by (auto simp: le_less)
      ultimately show ?thesis by (auto split: rb_pc.splits)
    qed
  qed
  moreover have "got b @ [x] = take (Suc ?R) (sent b)"
    using D(5) r(2,3) by (simp add: take_Suc_conv_app_nth)
  moreover have "writer_ok n (Suc ?R) (length (sent b)) (pc b Writer)"
    using D(7) by (cases "pc b Writer") auto
  ultimately have "queue_ok n b'" using D r by (simp add: queue_ok_def b'_def)
  moreover have "drop ?R (sent b) = x # drop (Suc ?R) (sent b)" using r by (simp add: Cons_nth_drop_Suc)
  ultimately show ?thesis by (simp add: rb_abs_def b'_def fifo_deq)
qed

lemma write_put_ok:
  assumes "queue_ok n b" "n < 64" "pc b Writer = Write_put u w"
  shows "queue_ok n (goto Writer (Write_store u w) (b\<lparr>buffer := (buffer b)(rb_slot n w \<mapsto> u)\<rparr>))"
proof -
  note D = queue_okD [OF assms(1)]
  let ?R = "length (got b)" and ?W = "length (sent b)"
  have w: "w = of_nat ?W" "?W < ?R + 2 ^ n" using D(7) assms(3) by auto
  have slot: "rb_slot n w = ?W mod 2 ^ n" using w(1) assms(2) by (simp add: rb_slot_of_nat)
  let ?b = "goto Writer (Write_store u w) (b\<lparr>buffer := (buffer b)(rb_slot n w \<mapsto> u)\<rparr>)"
  have "slots_ok n ?b"
    unfolding slots_ok_def
  proof (intro allI impI, goal_cases)
    case (1 i)
    then have "i mod 2 ^ n = ?W mod 2 ^ n \<longleftrightarrow> i = ?W"
      using mod_eq_window [of i "2 ^ n" ?W ?R] D(3) w(2) by auto
    then show ?case using slots_okD [OF D(8), of i] 1 slot assms(3) by auto
  qed
  then show ?thesis using D w by (simp add: queue_ok_def)
qed

lemma write_store_ok:
  assumes "queue_ok n b" "pc b Writer = Write_store u w"
  defines "b' \<equiv> goto Writer (Wake_test (Return None)) (b\<lparr>wr := w + 1, sent := sent b @ [u]\<rparr>)"
  shows "queue_ok n b' \<and> fifo_step (2 ^ n) (rb_abs b) (rb_abs b')"
proof -
  note D = queue_okD [OF assms(1)]
  let ?R = "length (got b)" and ?W = "length (sent b)"
  have w: "w = of_nat ?W" "?W < ?R + 2 ^ n" using D(7) assms(2) by auto
  have "slots_ok n b'"
    unfolding slots_ok_def b'_def
  proof (intro allI impI, goal_cases)
    case (1 i)
    have "\<exists>r x. pc b Reader = Read_store r x \<Longrightarrow> ?R < ?W" using D(6) by auto
    then show ?case using slots_okD [OF D(8), of i] 1 assms(2) by (auto simp: nth_append)
  qed
  moreover have "reader_ok ?R (Suc ?W) (sent b @ [u]) (pc b Reader)"
    using D(6) by (cases "pc b Reader") (auto simp: nth_append intro: le_SucI)
  ultimately have "queue_ok n b'" using D w by (simp add: queue_ok_def b'_def)
  moreover have "length (drop ?R (sent b)) < 2 ^ n" using w D(3) by simp
  then have "fifo_step (2 ^ n) (rb_abs b) (rb_abs b')"
    using D(3) unfolding rb_abs_def b'_def by (simp add: fifo_enq)
  ultimately show ?thesis by simp
qed

text \<open>Every access keeps the queue, and stores of an index are the steps of the abstract queue.\<close>

lemmas rb_access_defs = unpark_defs park_if_defs

lemma read_step_ok:
  assumes q: "queue_ok n b" and n: "n < 64" and r: "read_step n (pc b Reader) b = Ret () b'"
  shows "queue_ok n b' \<and> (rb_abs b' = rb_abs b \<or> fifo_step (2 ^ n) (rb_abs b) (rb_abs b'))"
proof -
  note D = queue_okD [OF q]
  have moved: ?thesis
    if "buffer b' = buffer b" "rd b' = rd b" "wr b' = wr b" "sent b' = sent b" "got b' = got b"
      "reader_ok (length (got b)) (length (sent b)) (sent b) (pc b' Reader)" "pc b' Writer = pc b Writer"
      "\<nexists>r x. pc b' Reader = Read_store r x" "\<nexists>r x. pc b Reader = Read_store r x"
    using queue_ok_move [OF q that(1-6)] D(7) that by (simp add: rb_abs_def)
  show ?thesis
  proof (cases "pc b Reader")
    case (Read_test a w)
    then show ?thesis using r read_test_ok [OF q n Read_test] by (auto simp: rb_abs_def)
  next
    case (Read_take a)
    then show ?thesis using r read_take_ok [OF q n Read_take] by (auto simp: rb_abs_def)
  next
    case (Read_store a x)
    then show ?thesis using r read_store_ok [OF q Read_store] by auto
  qed (rule moved; use r D in \<open>auto simp: rb_access_defs split: if_splits\<close>)+
qed

lemma write_step_ok:
  assumes q: "queue_ok n b" and n: "n < 64" and r: "write_step n (pc b Writer) b = Ret () b'"
  shows "queue_ok n b' \<and> (rb_abs b' = rb_abs b \<or> fifo_step (2 ^ n) (rb_abs b) (rb_abs b'))"
proof -
  note D = queue_okD [OF q]
  have moved: ?thesis
    if "buffer b' = buffer b" "rd b' = rd b" "wr b' = wr b" "sent b' = sent b" "got b' = got b"
      "writer_ok n (length (got b)) (length (sent b)) (pc b' Writer)" "pc b' Reader = pc b Reader"
      "\<nexists>r x. pc b' Writer = Write_store r x" "\<nexists>r x. pc b Writer = Write_store r x"
  proof -
    have "(case l of Write_store u _ \<Rightarrow> Some u | _ \<Rightarrow> None) = None"
      if "\<nexists>u w. l = Write_store u w" for l :: "'a rb_pc"
      using that by (cases l) auto
    then show ?thesis using queue_ok_move [OF q that(1-5), unfolded that(7)] D(6) that by (simp add: rb_abs_def)
  qed
  show ?thesis
  proof (cases "pc b Writer")
    case (Write_test u w a)
    then show ?thesis using r write_test_ok [OF q n Write_test] by (auto simp: rb_abs_def)
  next
    case (Write_put u w)
    then show ?thesis using r write_put_ok [OF q n Write_put] by (auto simp: rb_abs_def)
  next
    case (Write_store u w)
    then show ?thesis using r write_store_ok [OF q Write_store] by auto
  qed (rule moved; use r D in \<open>auto simp: rb_access_defs split: if_splits\<close>)+
qed

lemma close_step_queue:
  assumes q: "queue_ok n b" and c: "in_close (pc b s)" and r: "close_step s (pc b s) b = Ret () b'"
  shows "queue_ok n b' \<and> rb_abs b' = rb_abs b"
proof -
  note D = queue_okD [OF q]
  have fin: "reader_ok R W xs (finish k)" "writer_ok n R W (finish k)" "finish k \<noteq> Read_store r x"
    "finish k \<noteq> Write_store u w" for R W xs r x u w and k :: "'a rb_after"
    by (cases k; simp)+
  have none: "(case l of Write_store u _ \<Rightarrow> Some u | _ \<Rightarrow> None) = None" if "\<nexists>u w. l = Write_store u w" for l :: "'a rb_pc"
    using that by (cases l) auto
  have same: "buffer b' = buffer b \<and> rd b' = rd b \<and> wr b' = wr b \<and> sent b' = sent b \<and> got b' = got b
      \<and> pc b' (other s) = pc b (other s)"
    using c r by (cases "pc b s") (auto simp: in_close_def rb_access_defs split: if_splits option.splits)
  have new: "reader_ok (length (got b)) (length (sent b)) (sent b) (pc b' s)
      \<and> writer_ok n (length (got b)) (length (sent b)) (pc b' s)
      \<and> (\<nexists>a x. pc b' s = Read_store a x) \<and> (\<nexists>u w. pc b' s = Write_store u w)"
    using c r by (cases "pc b s") (auto simp: in_close_def rb_access_defs fin split: if_splits option.splits)
  have old: "(\<nexists>a x. pc b s = Read_store a x) \<and> (\<nexists>u w. pc b s = Write_store u w)"
    using c by (cases "pc b s") (auto simp: in_close_def)
  have "queue_ok n b'"
    by (rule queue_ok_move [OF q]) (cases s; use same new old none D(6,7) in simp)+
  then show ?thesis using same by (simp add: rb_abs_def)
qed

lemma queue_ok_step:
  assumes "queue_ok n b" and "n < 64" and "rb_step n s b = Ret () b'"
  shows "queue_ok n b' \<and> (rb_abs b' = rb_abs b \<or> fifo_step (2 ^ n) (rb_abs b) (rb_abs b'))"
  using assms read_step_ok [OF assms(1,2)] write_step_ok [OF assms(1,2)] close_step_queue [OF assms(1)]
  by (cases s) (auto simp: rb_step_def split: if_splits)

end
