(* ===== verification/Ring_Buffer_Props.thy ===== *)
theory Ring_Buffer_Props
  imports Ring_Buffer
begin

text \<open>
  The ring buffer as a step system: the cell of the parked task, the invariant of all
  interleavings of a reader and a writer, and the properties of the buffer. It is a bounded
  first-in first-out queue and closing releases the other side; but a task that is about to
  park misses a wake-up, and a closed buffer may report its end before it is empty.
\<close>

section \<open>Definitions\<close>

text \<open>The roles of the locations in the protocol of \<open>_stalled\<close>, and what a wake-up loop does next.\<close>

fun rb_role :: "'a rb_pc \<Rightarrow> role" where
  "rb_role Gone = Left"
| "rb_role (Read_check _) = Taking"
| "rb_role Read_leave = Taking"
| "rb_role (Read_wait _) = Entering"
| "rb_role (Read_reload _) = Resting"
| "rb_role (Write_check _ _) = Taking"
| "rb_role (Write_leave _) = Taking"
| "rb_role (Write_wait _ _) = Entering"
| "rb_role (Write_reload _ _) = Resting"
| "rb_role (Wake_state _ p) = Seen p"
| "rb_role (Wake_cas _ p) = Found p"
| "rb_role (Wake_sched _ p) = Scheduling p"
| "rb_role _ = Free"

fun after_of :: "'a rb_pc \<Rightarrow> 'a rb_after option" where
  "after_of (Wake_test k) = Some k"
| "after_of (Wake_load k) = Some k"
| "after_of (Wake_state k _) = Some k"
| "after_of (Wake_cas k _) = Some k"
| "after_of (Wake_sched k _) = Some k"
| "after_of _ = None"

definition rb_cell :: "'a ring_buffer \<Rightarrow> cell" where
  "rb_cell b = cell_of rb_role (closed b) b"

definition close_ok :: "'a ring_buffer \<Rightarrow> bool" where
  "close_ok b \<longleftrightarrow> (\<forall>s. after_of (pc b s) = Some Gone_after \<longrightarrow> closed b)"

definition rb_ok :: "nat \<Rightarrow> 'a ring_buffer \<Rightarrow> bool" where
  "rb_ok n b \<longleftrightarrow> queue_ok n b \<and> close_ok b \<and> cell_inv (rb_cell b)"

text \<open>A schedule: calls that are started, accesses of the two sides and changes of the rest of the program, in order.\<close>

datatype 'a rb_event = Start "'a rb_call" | Access side | Alone bool

fun rb_run :: "nat \<Rightarrow> 'a rb_event list \<Rightarrow> 'a ring_buffer \<Rightarrow> 'a ring_buffer option" where
  "rb_run n [] b = Some b"
| "rb_run n (Start c # es) b = (case rb_begin c b of None \<Rightarrow> None | Some b' \<Rightarrow> rb_run n es b')"
| "rb_run n (Access s # es) b = (case rb_step n s b of Ret _ b' \<Rightarrow> rb_run n es b' | _ \<Rightarrow> None)"
| "rb_run n (Alone i # es) b = rb_run n es (b\<lparr>idle := i\<rparr>)"

definition accesses :: "side \<Rightarrow> 'a rb_event list \<Rightarrow> nat" where
  "accesses s es = length (filter (\<lambda>e. e = Access s) es)"

text \<open>A write that finds room and nobody parked, as a schedule.\<close>

definition write_now :: "'a \<Rightarrow> 'a rb_event list" where
  "write_now u = Start (Call_write u) # replicate 7 (Access Writer)"

text \<open>
  A reader finds the buffer of size one empty, is preempted before it parks while the writer
  writes \<open>x\<close>, parks, and the writer starts another write.
\<close>

definition lost_wakeup :: "'a \<Rightarrow> 'a \<Rightarrow> 'a rb_event list" where
  "lost_wakeup x y =
     Start Call_read # replicate 3 (Access Reader) @ write_now x @ replicate 3 (Access Reader)
       @ Start (Call_write y) # replicate 4 (Access Writer)"

text \<open>A reader finds the buffer empty, and before it parks the writer writes \<open>x\<close> and closes.\<close>

definition early_end :: "'a \<Rightarrow> 'a rb_event list" where
  "early_end x =
     Start Call_read # replicate 3 (Access Reader) @ write_now x @ Start (Call_close Writer)
       # replicate 2 (Access Writer) @ replicate 2 (Access Reader)"

text \<open>The states after the first schedule: the reader waits, the writer goes round its loop.\<close>

definition stuck :: "'a \<Rightarrow> 'a \<Rightarrow> 'a ring_buffer \<Rightarrow> bool" where
  "stuck x y b \<longleftrightarrow>
     waiting b Reader \<and> \<not> waiting b Writer \<and> stalled b = Some Reader \<and> \<not> closed b \<and>
     pc b Reader = Read_reload 0 \<and> pc b Writer \<in> {Write_test y 1 0, Write_cas y 1, Write_reload y 1} \<and>
     rd b = 0 \<and> wr b = 1 \<and> sent b = [x] \<and> got b = []"

text \<open>The locations of a read that has seen a value in the queue, or is about to, and the accesses it has left.\<close>

definition will_take :: "'a ring_buffer \<Rightarrow> bool" where
  "will_take b \<longleftrightarrow>
     \<not> waiting b Reader \<and>
     (case pc b Reader of
        Read_r \<Rightarrow> True
      | Read_w _ \<Rightarrow> True
      | Read_test r w \<Rightarrow> w - r \<noteq> 0
      | Read_take _ \<Rightarrow> True
      | Read_store _ _ \<Rightarrow> True
      | _ \<Rightarrow> False)"

fun to_take :: "'a rb_pc \<Rightarrow> nat" where
  "to_take Read_r = 5"
| "to_take (Read_w _) = 4"
| "to_take (Read_test _ _) = 3"
| "to_take (Read_take _) = 2"
| "to_take (Read_store _ _) = 1"
| "to_take _ = 0"

section \<open>The cell of the parked task\<close>

lemma cell_of_buffer [simp]:
  "cell_of rho cl (b\<lparr>buffer := x\<rparr>) = cell_of rho cl b" "cell_of rho cl (b\<lparr>rd := i\<rparr>) = cell_of rho cl b"
  "cell_of rho cl (b\<lparr>wr := i\<rparr>) = cell_of rho cl b" "cell_of rho cl (b\<lparr>sent := xs\<rparr>) = cell_of rho cl b"
  "cell_of rho cl (b\<lparr>got := xs\<rparr>) = cell_of rho cl b" "cell_of rho cl (b\<lparr>closed := c\<rparr>) = cell_of rho cl b"
  by (simp_all add: cell_of_def)

lemma finish_role: "plain (rb_role (finish k)) \<or> rb_role (finish k) = Left \<and> k = Gone_after" "after_of (finish k) = None"
  by (cases k; simp)+

text \<open>Outside the waiter's operations and the store of \<open>_closed\<close> an access moves between free locations.\<close>

lemma move_rb_cell:
  assumes "\<not> waiting b s" "loose (rb_role (pc b s))" "plain (rb_role l)" "rb_cell b' = cell_of rb_role (closed b) (goto s l b)"
  shows "cell_step s (rb_cell b) (rb_cell b')"
  using move_cell [OF assms(1-3)] assms(4) by (simp add: rb_cell_def)

lemma read_step_cell:
  assumes w: "\<not> waiting b Reader" and r: "read_step n (pc b Reader) b = Ret () b'" and c: "\<not> in_close (pc b Reader)"
  shows "rb_cell b' = rb_cell b \<or> cell_step Reader (rb_cell b) (rb_cell b')"
proof -
  note cell = access_cell [where rho = rb_role and cl = "closed b" and b' = b', OF _ w]
  note move = move_rb_cell [OF w, where b' = b']
  have cl: "closed b' = closed b"
    using r by (cases "pc b Reader") (auto simp: rb_access_defs split: if_splits option.splits)
  show ?thesis
  proof (cases "pc b Reader")
    case (Read_cas a)
    then show ?thesis using cell(1) [of "Read_check a" "Read_reload a"] r by (simp add: rb_cell_def cl)
  next
    case (Read_check a)
    then show ?thesis using cell(2) [of Read_leave "Read_wait a"] r by (simp add: rb_cell_def cl)
  next
    case Read_leave
    then show ?thesis using cell(3) [of "Ready None"] r by (simp add: rb_cell_def cl)
  next
    case (Read_wait a)
    then show ?thesis using cell(4) [of "Read_reload a"] r by (simp add: rb_cell_def cl)
  next
    case (Read_take a)
    then show ?thesis using r by (auto simp: rb_cell_def cell_move w split: option.splits)
  qed (use r c in \<open>auto simp: in_close_def rb_cell_def cell_move w\<close>)
qed

lemma write_step_cell:
  assumes w: "\<not> waiting b Writer" and r: "write_step n (pc b Writer) b = Ret () b'" and c: "\<not> in_close (pc b Writer)"
  shows "rb_cell b' = rb_cell b \<or> cell_step Writer (rb_cell b) (rb_cell b')"
proof -
  note cell = access_cell [where rho = rb_role and cl = "closed b" and b' = b', OF _ w]
  have cl: "closed b' = closed b"
    using r by (cases "pc b Writer") (auto simp: rb_access_defs split: if_splits option.splits)
  show ?thesis
  proof (cases "pc b Writer")
    case (Write_cas u v)
    then show ?thesis using cell(1) [of "Write_check u v" "Write_reload u v"] r by (simp add: rb_cell_def cl)
  next
    case (Write_check u v)
    then show ?thesis using cell(2) [of "Write_leave u" "Write_wait u v"] r by (simp add: rb_cell_def cl)
  next
    case (Write_leave u)
    then show ?thesis using cell(3) [of "Ready (Some u)"] r by (simp add: rb_cell_def cl)
  next
    case (Write_wait u v)
    then show ?thesis using cell(4) [of "Write_reload u v"] r by (simp add: rb_cell_def cl)
  qed (use r c in \<open>auto simp: in_close_def rb_cell_def cell_move w\<close>)
qed

lemma close_step_cell:
  assumes w: "\<not> waiting b s" and r: "close_step s (pc b s) b = Ret () b'" and c: "close_ok b"
  shows "rb_cell b' = rb_cell b \<or> cell_step s (rb_cell b) (rb_cell b')"
proof -
  note cell = access_cell [where rho = rb_role and cl = "closed b" and b' = b', OF _ w]
  have cl: "closed b' = closed b" if "pc b s \<noteq> Close_store"
    using r that by (cases "pc b s") (auto simp: rb_access_defs split: if_splits option.splits)
  have gone: "closed b" if "after_of (pc b s) = Some Gone_after" using c that by (auto simp: close_ok_def)
  show ?thesis
  proof (cases "pc b s")
    case Close_store
    have "rb_cell b' = (rb_cell b)\<lparr>role := (role (rb_cell b))(s := Free), shut := True\<rparr>"
      using r Close_store by (auto simp: rb_cell_def cell_of_def fun_upd_comp)
    then show ?thesis using cell_shut [of "rb_cell b" s Free] w Close_store by (simp add: rb_cell_def)
  next
    case (Wake_test k)
    then show ?thesis
      using cell(5) [of "finish k" "Wake_load k"] r gone finish_role(1) [of k] by (auto simp: rb_cell_def cl)
  next
    case (Wake_load k)
    then show ?thesis using cell(6) [of "Wake_test k" "Wake_state k"] r by (simp add: rb_cell_def cl)
  next
    case (Wake_state k p)
    then show ?thesis using cell(7) [of p "Wake_test k" "Wake_cas k p"] r by (simp add: rb_cell_def cl)
  next
    case (Wake_cas k p)
    then show ?thesis using cell(8) [of p "Wake_test k" "Wake_sched k p"] r by (simp add: rb_cell_def cl)
  next
    case (Wake_sched k p)
    then show ?thesis
      using cell(9) [of p "finish k"] r gone finish_role(1) [of k] by (auto simp: rb_cell_def cl)
  qed (use r in \<open>auto simp: rb_cell_def\<close>)
qed

lemma rb_step_cell:
  assumes "close_ok b" and "rb_step n s b = Ret () b'"
  shows "rb_cell b' = rb_cell b \<or> cell_step s (rb_cell b) (rb_cell b')"
  using assms read_step_cell [of b n b'] write_step_cell [of b n b'] close_step_cell [of b s b']
  by (cases s) (auto simp: rb_step_def split: if_splits)

lemma rb_begin_cell:
  assumes "close_ok b" "cell_inv (rb_cell b)" "rb_begin c b = Some b'"
  shows "close_ok b' \<and> (\<exists>s. cell_step s (rb_cell b) (rb_cell b'))"
proof -
  from assms(3) obtain s v l where b': "pc b s = Ready v" "b' = goto s l b"
    "l = Close_store \<or> s = Reader \<and> l = Read_r \<or> s = Writer \<and> (\<exists>u. l = Write_closed u)"
    by (rule rb_begin_cases)
  have "\<not> waiting b s" using cell_invD(2) [OF assms(2), of s] b'(1) by (auto simp: rb_cell_def)
  then have "cell_step s (rb_cell b) (rb_cell b')" using b' by (auto simp: rb_cell_def cell_move)
  moreover have "close_ok b'" using assms(1) b' by (auto simp: close_ok_def)
  ultimately show ?thesis by blast
qed

lemma close_ok_step:
  assumes "close_ok b" and "rb_step n s b = Ret () b'"
  shows "close_ok b'"
proof -
  have gone: "closed b" if "after_of (pc b s) = Some Gone_after" using assms(1) that by (auto simp: close_ok_def)
  have mono: "closed b \<Longrightarrow> closed b'"
    using assms(2) by (cases s; cases "pc b s")
      (auto simp: rb_step_def in_close_def rb_access_defs split: if_splits option.splits)
  have "pc b' (other s) = pc b (other s)"
    using assms(2) by (cases s; cases "pc b s")
      (auto simp: rb_step_def in_close_def rb_access_defs split: if_splits option.splits)
  moreover have "after_of (pc b' s) = Some Gone_after \<longrightarrow> closed b'"
    using assms(2) gone by (cases s; cases "pc b s")
      (auto simp: rb_step_def in_close_def rb_access_defs finish_role split: if_splits option.splits)
  ultimately show ?thesis using assms(1) mono side_cases [of _ s] unfolding close_ok_def by metis
qed

section \<open>The ring buffer as a step system\<close>

lemma rb_idle [simp]:
  "rb_cell (b\<lparr>idle := i\<rparr>) = rb_cell b" "rb_abs (b\<lparr>idle := i\<rparr>) = rb_abs b" "rb_ok n (b\<lparr>idle := i\<rparr>) = rb_ok n b"
  by (simp_all add: rb_cell_def rb_abs_def rb_ok_def close_ok_def queue_ok_def slots_ok_def)

lemma rb_ok_trans:
  assumes n: "n < 64" and ok: "rb_ok n b" and t: "rb_trans n b b'"
  shows "rb_ok n b' \<and> (rb_abs b' = rb_abs b \<or> fifo_step (2 ^ n) (rb_abs b) (rb_abs b'))
    \<and> (rb_cell b' = rb_cell b \<or> (\<exists>s. cell_step s (rb_cell b) (rb_cell b')))"
proof -
  have ok: "queue_ok n b" "close_ok b" "cell_inv (rb_cell b)" using ok by (simp_all add: rb_ok_def)
  from t show ?thesis
  proof cases
    case (trans_call c)
    then show ?thesis
      using queue_ok_begin [OF ok(1)] rb_begin_cell [OF ok(2,3)] cell_inv_step [OF ok(3)] by (metis rb_ok_def)
  next
    case (trans_step s)
    then show ?thesis
      using queue_ok_step [OF ok(1) n] rb_step_cell [OF ok(2)] close_ok_step [OF ok(2)] cell_inv_step [OF ok(3)] ok(3)
      by (fastforce simp: rb_ok_def)
  next
    case (trans_idle i)
    then show ?thesis using ok by (simp add: rb_ok_def [symmetric]) (simp add: rb_ok_def)
  qed
qed

lemma rb_ok_start: "rb_ok n rb_init"
  using queue_ok_start by (simp add: rb_ok_def close_ok_def cell_inv_def cell_side_def rb_cell_def) (simp add: rb_init_def)

interpretation rb: refinement_system "\<lambda>b. b = rb_init \<and> n < 64" "\<lambda>b b'. n < 64 \<and> rb_trans n b b'" "rb_ok n"
  rb_abs "fifo_step (2 ^ n)" for n
  by unfold_locales (use rb_ok_start rb_ok_trans in blast)+

interpretation rbw: waiter_client "\<lambda>b. b = rb_init \<and> n < 64" "\<lambda>b b'. n < 64 \<and> rb_trans n b b'" "rb_ok n" rb_cell for n
proof (unfold_locales, goal_cases)
  case (1 b b')
  then show ?case using rb_ok_trans by blast
next
  case (2 b)
  then show ?case using rb_ok_start by (auto simp: rb_ok_def)
qed

lemma rb_reach:
  assumes "n < 64" and "(rb_trans n)\<^sup>*\<^sup>* rb_init b"
  shows "rb_ok n b" and "(fifo_step (2 ^ n))\<^sup>*\<^sup>* ([], [], []) (rb_abs b)"
proof -
  have eq: "(\<lambda>b b'. n < 64 \<and> rb_trans n b b') = rb_trans n" using assms(1) by simp
  show "rb_ok n b" "(fifo_step (2 ^ n))\<^sup>*\<^sup>* ([], [], []) (rb_abs b)"
    using rb.inv_reach [where n = n and s = rb_init and s' = b]
      rb.refines_reach [where n = n and s = rb_init and s' = b] assms
    unfolding eq by (simp_all add: rb_abs_def rb_init_def)
qed

lemma rb_run_reach: "rb_run n es b = Some b' \<Longrightarrow> (rb_trans n)\<^sup>*\<^sup>* b b'"
proof (induction n es b rule: rb_run.induct)
  case (2 n c es b)
  then show ?case
    by (auto split: option.splits intro: converse_rtranclp_into_rtranclp [of "rb_trans n"] trans_call)
next
  case (3 n s es b)
  then show ?case
    by (auto split: outcome.splits intro: converse_rtranclp_into_rtranclp [of "rb_trans n"] trans_step)
next
  case (4 n i es b)
  then show ?case using trans_idle [of n b i] by (auto intro: converse_rtranclp_into_rtranclp [of "rb_trans n"])
qed simp

lemma rb_ok_no_crash:
  assumes "n < 64" and "rb_ok n b"
  shows "rb_step n s b \<noteq> Crash f"
proof -
  have q: "queue_ok n b" and c: "cell_inv (rb_cell b)" using assms(2) by (simp_all add: rb_ok_def)
  have "waiting b p" if "pc b s = Wake_sched k p" for k p
    using cell_invD(3,4) [OF c, of s] that by (auto simp: rb_cell_def)
  then show ?thesis
    using read_take_ok [OF q assms(1)]
    by (cases s; cases "pc b s") (auto simp: rb_step_def in_close_def rb_access_defs split: option.splits)
qed

text \<open>The one exception: a task that waits when nothing else can run.\<close>

lemma rb_throws:
  assumes "rb_step n s b = Throw e b'"
  shows "e = Runtime_error ''nothing to do. deadlock?'' \<and> idle b \<and> waiting b' s
    \<and> ((\<exists>r. pc b s = Read_wait r) \<or> (\<exists>u w. pc b s = Write_wait u w))"
  using assms by (cases s; cases "pc b s")
    (auto simp: rb_step_def in_close_def rb_access_defs split: option.splits if_splits)

lemma rb_grows:
  assumes "n < 64" "rb_ok n b" "rb_trans n b b'"
  shows "(\<exists>ys. got b' = got b @ ys) \<and> (\<exists>zs. sent b' = sent b @ zs)"
  using rb_ok_trans [OF assms] by (auto simp: rb_abs_def elim: fifo_step.cases)

lemma rb_grown:
  assumes "n < 64" "(rb_trans n)\<^sup>*\<^sup>* rb_init b" "(rb_trans n)\<^sup>*\<^sup>* b b'"
  shows "(\<exists>ys. got b' = got b @ ys) \<and> (\<exists>zs. sent b' = sent b @ zs)"
  using assms(3)
proof (induction rule: rtranclp_induct)
  case (step b1 b2)
  have "rb_ok n b1" using rb_reach(1) [OF assms(1)] assms(2) step.hyps(1) by (meson rtranclp_trans)
  from rb_grows [OF assms(1) this step.hyps(2)] step.IH show ?case by auto
qed simp

text \<open>The other side's accesses do not move a task, and wake it at most.\<close>

lemma rb_step_other:
  assumes "rb_step n (other s) b = Ret () b'"
  shows "pc b' s = pc b s \<and> (waiting b' s \<longrightarrow> waiting b s)"
  using assms by (cases s; cases "pc b (other s)")
    (auto simp: rb_step_def in_close_def rb_access_defs split: if_splits option.splits)

text \<open>
  A read on its way to a value: its own accesses take it one location further and the last one
  stores \<open>_r\<close>; nothing else moves it.
\<close>

lemma will_take_access:
  assumes "n < 64" and ok: "rb_ok n b" and w: "will_take b" and q: "got b \<noteq> sent b" and t: "rb_step n Reader b = Ret () b'"
  shows "if to_take (pc b Reader) = 1 then got b' = got b @ [sent b ! length (got b)]
    else got b' = got b \<and> will_take b' \<and> to_take (pc b Reader) = Suc (to_take (pc b' Reader))"
proof -
  have qk: "queue_ok n b" using ok by (simp add: rb_ok_def)
  note D = queue_okD [OF qk]
  have "length (got b) < length (sent b)" using D(3,5) q by (metis le_neq_implies_less take_all_iff order_refl)
  then have "wr b - of_nat (length (got b)) \<noteq> 0"
    using u64_diff_eq_iff [of "length (got b)" "length (sent b)" n 0] D(2,4) assms(1) by simp
  then show ?thesis
    using t w D(6) by (cases "pc b Reader")
      (auto simp: will_take_def rb_step_def in_close_def split: if_splits option.splits)
qed

lemma will_take_other:
  assumes w: "will_take b" and e: "e \<noteq> Access Reader" and r: "rb_run n [e] b = Some b'"
  shows "will_take b' \<and> pc b' Reader = pc b Reader \<and> got b' = got b"
proof (cases e)
  case (Start c)
  then have "rb_begin c b = Some b'" using r by (simp split: option.splits)
  then obtain s v l where b': "pc b s = Ready v" "b' = goto s l b" by (rule rb_begin_cases)
  then have "s = Writer" using w by (cases s) (auto simp: will_take_def)
  then show ?thesis using b' w by (simp add: will_take_def)
next
  case (Access s)
  then have s: "s = Writer" using e by (cases s) auto
  then have "rb_step n Writer b = Ret () b'" using r Access by (simp split: outcome.splits)
  moreover from this have "got b' = got b"
    by (cases "pc b Writer") (auto simp: rb_step_def in_close_def rb_access_defs split: if_splits option.splits)
  ultimately show ?thesis using rb_step_other [of n Reader b b'] w by (auto simp: will_take_def)
next
  case (Alone i)
  then show ?thesis using r w by (auto simp: will_take_def)
qed

lemma will_take_Ret:
  assumes "n < 64" and ok: "rb_ok n b" and w: "will_take b"
  shows "\<exists>b'. rb_step n Reader b = Ret () b'"
proof (cases "rb_step n Reader b")
  case (Throw e b')
  then show ?thesis using rb_throws [OF Throw] w by (auto simp: will_take_def)
qed (use rb_ok_no_crash [OF assms(1,2)] in auto)

lemma rb_run_Cons: "rb_run n (e # es) b = (case rb_run n [e] b of None \<Rightarrow> None | Some b1 \<Rightarrow> rb_run n es b1)"
  by (cases e) (auto split: option.splits outcome.splits)

lemma will_take_run:
  assumes n: "n < 64"
  shows "rb_run n es b = Some b' \<Longrightarrow> (rb_trans n)\<^sup>*\<^sup>* rb_init b \<Longrightarrow> will_take b \<Longrightarrow> got b \<noteq> sent b \<Longrightarrow>
    (if accesses Reader es < to_take (pc b Reader) then got b' = got b \<and> will_take b'
     else \<exists>ys. got b' = got b @ sent b ! length (got b) # ys)"
proof (induction es arbitrary: b)
  case Nil
  then show ?case by (auto simp: accesses_def will_take_def split: rb_pc.splits)
next
  case (Cons e es)
  obtain b1 where b1: "rb_run n [e] b = Some b1" "rb_run n es b1 = Some b'"
    using Cons.prems(1) by (subst (asm) rb_run_Cons) (auto split: option.splits)
  note ok = rb_reach(1) [OF n Cons.prems(2)]
  have reach: "(rb_trans n)\<^sup>*\<^sup>* rb_init b1" using Cons.prems(2) rb_run_reach [OF b1(1)] by (rule rtranclp_trans)
  obtain zs where zs: "sent b1 = sent b @ zs" using rb_grown [OF n Cons.prems(2) rb_run_reach [OF b1(1)]] by blast
  have l: "length (got b) < length (sent b)"
    using queue_okD(3,5) [of n b] ok Cons.prems(4) by (auto simp: rb_ok_def le_less)
  have more: "got b1 \<noteq> sent b1" "sent b1 ! length (got b) = sent b ! length (got b)" if "got b1 = got b"
    using that zs l by (auto simp: nth_append)
  show ?case
  proof (cases "e = Access Reader")
    case False
    have o: "will_take b1" "pc b1 Reader = pc b Reader" "got b1 = got b"
      using will_take_other [OF Cons.prems(3) False b1(1)] by simp_all
    have "accesses Reader (e # es) = accesses Reader es" using False by (simp add: accesses_def)
    then show ?thesis using Cons.IH [OF b1(2) reach o(1)] more [OF o(3)] o(2,3) by (auto split: if_splits)
  next
    case True
    then have st: "rb_step n Reader b = Ret () b1" using b1(1) by (simp split: outcome.splits)
    note t = will_take_access [OF n ok Cons.prems(3,4) st]
    show ?thesis
    proof (cases "to_take (pc b Reader) = 1")
      case one: True
      obtain ys where "got b' = got b1 @ ys" using rb_grown [OF n reach rb_run_reach [OF b1(2)]] by blast
      then show ?thesis using t one True by (simp add: accesses_def)
    next
      case many: False
      then show ?thesis using t Cons.IH [OF b1(2) reach] more True by (auto simp: accesses_def split: if_splits)
    qed
  qed
qed

lemma will_take_alone:
  assumes n: "n < 64"
  shows "(rb_trans n)\<^sup>*\<^sup>* rb_init b \<Longrightarrow> will_take b \<Longrightarrow> got b \<noteq> sent b \<Longrightarrow> k \<le> to_take (pc b Reader) \<Longrightarrow>
    \<exists>b'. rb_run n (replicate k (Access Reader)) b = Some b'"
proof (induction k arbitrary: b)
  case (Suc k)
  note ok = rb_reach(1) [OF n Suc.prems(1)]
  obtain b1 where b1: "rb_step n Reader b = Ret () b1" using will_take_Ret [OF n ok Suc.prems(2)] by blast
  have reach: "(rb_trans n)\<^sup>*\<^sup>* rb_init b1" using Suc.prems(1) trans_step [OF b1] by (rule rtranclp.rtrancl_into_rtrancl)
  have grow: "\<exists>zs. sent b1 = sent b @ zs" using rb_grows [OF n ok trans_step [OF b1]] by blast
  have l: "length (got b) < length (sent b)"
    using queue_okD(3,5) [of n b] ok Suc.prems(3) by (auto simp: rb_ok_def le_less)
  show ?case
  proof (cases k)
    case 0
    then show ?thesis using b1 by simp
  next
    case (Suc k')
    then have "got b1 = got b" "will_take b1" "k \<le> to_take (pc b1 Reader)"
      using will_take_access [OF n ok Suc.prems(2,3) b1] Suc.prems(4) by (auto split: if_splits)
    moreover from this have "got b1 \<noteq> sent b1" using grow l by auto
    ultimately show ?thesis using Suc.IH [OF reach] b1 by simp
  qed
qed simp

section \<open>Properties\<close>

lemmas rb_eval = rb_init_def rb_step_def in_close_def rb_access_defs goto_def rb_slot_def rb_mask_def rb_size_def

lemma write_now_run:
  "rb_run 0 (write_now x) rb_init
     = Some (rb_init\<lparr>buffer := (\<lambda>_. None)(0 \<mapsto> x), wr := 1, pc := (\<lambda>_. Ready None), sent := [x]\<rparr>)"
  by (simp add: write_now_def rb_eval numeral_eq_Suc fun_eq_iff)

text \<open>
  C7. The ring buffer is a bounded first-in first-out queue under every interleaving of the
  reader's and the writer's accesses: the values received are, in order, the first of those sent;
  the rest \<open>q\<close> is a queue of at most \<open>Size\<close> values that the abstract queue's steps lead to,
  \<open>_w - _r\<close> is its length also after the indices wrap around, and each of its values is in the
  slot its index selects, except for the first one while the reader is moving it out.
\<close>

theorem ring_buffer_is_bounded_fifo:
  assumes "n < 64" and "(rb_trans n)\<^sup>*\<^sup>* rb_init b"
  shows "\<exists>q. sent b = got b @ q \<and> length q \<le> 2 ^ n \<and> wr b - rd b = of_nat (length q)
     \<and> (fifo_step (2 ^ n))\<^sup>*\<^sup>* ([], [], []) (sent b, q, got b)
     \<and> (\<forall>i. i < length q \<and> (0 < i \<or> (\<nexists>r x. pc b Reader = Read_store r x)) \<longrightarrow>
          buffer b (rb_slot n (rd b + of_nat i)) = Some (q ! i))"
proof -
  let ?q = "drop (length (got b)) (sent b)"
  have ok: "queue_ok n b" using rb_reach(1) [OF assms] by (simp add: rb_ok_def)
  note D = queue_okD [OF ok]
  have f: "(fifo_step (2 ^ n))\<^sup>*\<^sup>* ([], [], []) (sent b, ?q, got b)"
    using rb_reach(2) [OF assms] by (simp add: rb_abs_def)
  have slots: "buffer b (rb_slot n (rd b + of_nat i)) = Some (?q ! i)"
    if "i < length ?q" "0 < i \<or> (\<nexists>r x. pc b Reader = Read_store r x)" for i
  proof -
    have "rd b + of_nat i = of_nat (length (got b) + i)" using D(1) by simp
    then have "rb_slot n (rd b + of_nat i) = (length (got b) + i) mod 2 ^ n"
      using rb_slot_of_nat [OF assms(1)] by metis
    then show ?thesis using slots_okD [OF D(8), of "length (got b) + i"] that D(4) by auto
  qed
  have "wr b - rd b = of_nat (length ?q)" using D(1,2,3) by (simp add: of_nat_diff)
  then show ?thesis using f fifo_steps [OF f] slots by (intro exI [of _ ?q]) blast
qed

theorem ring_buffer_is_bounded_fifo_witness:
  "\<exists>b q. (rb_trans 0)\<^sup>*\<^sup>* rb_init b \<and> sent b = [7 :: nat] \<and> sent b = got b @ q \<and> length q \<le> 1"
  using ring_buffer_is_bounded_fifo [of 0, OF _ rb_run_reach [OF write_now_run [of "7 :: nat"]]]
    rb_run_reach [OF write_now_run [of "7 :: nat"]]
  by (intro exI conjI) (assumption | force simp: rb_init_def)+

text \<open>
  No access of the ring buffer fails: the reader never moves a value out of an empty slot,
  and a task that is unparked is waiting, as \<open>waiter::unpark\<close> asserts. The one exception is that of
  \<open>sched::yield()\<close>, of a task that parks when nothing else can run.
\<close>

theorem ring_buffer_never_crashes:
  assumes "n < 64" and "(rb_trans n)\<^sup>*\<^sup>* rb_init b"
  shows "(\<exists>b'. rb_step n s b = Ret () b')
    \<or> (\<exists>b'. rb_step n s b = Throw (Runtime_error ''nothing to do. deadlock?'') b' \<and> idle b)"
  using rb_ok_no_crash [OF assms(1) rb_reach(1) [OF assms]] rb_throws [of n s b] by (cases "rb_step n s b") auto

theorem ring_buffer_never_crashes_witness:
  "\<exists>b b'. (rb_trans 0)\<^sup>*\<^sup>* rb_init b \<and> sent b = [7 :: nat] \<and> rb_step 0 Reader b = Ret () b'"
proof -
  obtain b where b: "rb_run 0 (write_now (7 :: nat)) rb_init = Some b" "sent b = [7]" "\<not> idle b"
    by (simp add: write_now_run) (simp add: rb_init_def)
  note r = rb_run_reach [OF b(1)]
  show ?thesis using ring_buffer_never_crashes [of 0, OF _ r, of Reader] r b(2,3) by auto
qed

text \<open>
  Closing releases the other side: once \<open>close\<close> of one end has returned, the task of the other
  end is not parked and never parks again.
\<close>

theorem close_releases_other_side:
  assumes "n < 64" and "(rb_trans n)\<^sup>*\<^sup>* rb_init b" and "pc b s = Gone" and "(rb_trans n)\<^sup>*\<^sup>* b b'"
  shows "closed b' \<and> \<not> waiting b' (other s)"
proof -
  have eq: "(\<lambda>b b'. n < 64 \<and> rb_trans n b b') = rb_trans n" using assms(1) by simp
  have "shut (rb_cell b') \<and> \<not> asleep (rb_cell b') (other s)"
    by (rule rbw.left_releases [where n = n, unfolded eq, OF _ assms(2) _ assms(4)])
      (use assms(1,3) in \<open>simp_all add: rb_cell_def\<close>)
  then show ?thesis by (simp add: rb_cell_def)
qed

theorem close_releases_other_side_witness:
  "\<exists>b. (rb_trans 0)\<^sup>*\<^sup>* rb_init b \<and> pc b Writer = (Gone :: nat rb_pc) \<and> closed b \<and> \<not> waiting b Reader"
proof -
  let ?es = "[Start (Call_close Writer), Access Writer, Access Writer]"
  obtain b where b: "rb_run 0 ?es (rb_init :: nat ring_buffer) = Some b" "pc b Writer = Gone"
    by (simp add: rb_eval)
  note r = rb_run_reach [OF b(1)]
  show ?thesis using close_releases_other_side [of 0, OF _ r b(2)] r b(2) by (intro exI [of _ b]) simp
qed

text \<open>
  C21. A read that starts while a value is queued takes the first one with its fifth access,
  whatever the writer and the rest of the program do in between: before that it is on its way and
  not waiting, and it neither parks nor returns empty nor throws; after it the values received go
  on with the value that was first. Running alone the reader does make its five accesses.
\<close>

theorem read_of_nonempty_takes:
  assumes "n < 64" and "(rb_trans n)\<^sup>*\<^sup>* rb_init b" and "pc b Reader = Read_r" and "got b \<noteq> sent b"
  shows "(\<forall>es b'. rb_run n es b = Some b' \<longrightarrow>
      (if accesses Reader es < 5 then got b' = got b \<and> will_take b'
       else \<exists>ys. got b' = got b @ sent b ! length (got b) # ys))
    \<and> (\<exists>b'. rb_run n (replicate 5 (Access Reader)) b = Some b')"
proof -
  have "cell_inv (rb_cell b)" using rb_reach(1) [OF assms(1,2)] by (simp add: rb_ok_def)
  then have w: "will_take b"
    using assms(3) cell_invD(2) [of "rb_cell b" Reader] by (auto simp: will_take_def rb_cell_def)
  show ?thesis
    using will_take_run [OF assms(1) _ assms(2) w assms(4)] will_take_alone [OF assms(1,2) w assms(4), of 5] assms(3)
    by auto
qed

theorem read_of_nonempty_takes_witness:
  "\<exists>b b'. (rb_trans 0)\<^sup>*\<^sup>* rb_init b \<and> pc b Reader = Read_r \<and> sent b = [7 :: nat]
     \<and> rb_run 0 (replicate 5 (Access Reader)) b = Some b' \<and> (\<exists>ys. got b' = 7 # ys)"
proof -
  let ?es = "write_now (7 :: nat) @ [Start Call_read]"
  obtain b where b: "rb_run 0 ?es rb_init = Some b" "pc b Reader = Read_r" "sent b = [7]" "got b = []"
    by (simp add: write_now_def rb_eval numeral_eq_Suc)
  note r = rb_run_reach [OF b(1)]
  have z: "(0 :: nat) < 64" and ne: "got b \<noteq> sent b" using b(3,4) by simp_all
  note T = read_of_nonempty_takes [OF z r b(2) ne]
  note t = conjunct1 [OF T] conjunct2 [OF T]
  obtain b' where b': "rb_run 0 (replicate 5 (Access Reader)) b = Some b'" using t(2) ..
  have "accesses Reader (replicate 5 (Access Reader :: nat rb_event)) = 5" by (simp add: accesses_def)
  then have "\<exists>ys. got b' = got b @ sent b ! length (got b) # ys"
    using t(1) [rule_format, OF b'] by simp
  then show ?thesis using b' r b(2-4) by auto
qed

text \<open>
  C28. A wake-up can be lost. The reader loads \<open>_w\<close>, finds the buffer empty, and is preempted before
  it takes the cell; the writer stores a value and finds nobody to wake; the reader then parks on a
  buffer that is not empty, because \<open>park_if\<close> only looks at \<open>_closed\<close>. With a buffer of size one
  the next write finds it full and the cell taken, and the two tasks are stuck for good: in every
  later state the reader waits, the value is not received, and the write has not returned.
\<close>

theorem ring_buffer_loses_wakeup:
  "\<exists>b. (rb_trans 0)\<^sup>*\<^sup>* rb_init b \<and> sent b = [x] \<and> got b = [] \<and>
     (\<forall>b'. (rb_trans 0)\<^sup>*\<^sup>* b b' \<longrightarrow>
        waiting b' Reader \<and> sent b' = [x] \<and> got b' = [] \<and> (\<nexists>v. pc b' Writer = Ready v))"
proof -
  obtain b where b: "rb_run 0 (lost_wakeup x x) rb_init = Some b" "stuck x x b"
    by (simp add: lost_wakeup_def write_now_def rb_eval numeral_eq_Suc stuck_def)
  have step: "stuck x x b2" if "stuck x x b1" "rb_trans 0 b1 b2" for b1 b2
    using that(2)
  proof cases
    case (trans_call c)
    then obtain s v l where "pc b1 s = Ready v" by (rule rb_begin_cases)
    then show ?thesis using that(1) by (cases s) (auto simp: stuck_def)
  next
    case (trans_step s)
    then show ?thesis using that(1)
      by (cases s) (auto simp: stuck_def rb_step_def in_close_def park_cas_def rb_size_def)
  next
    case (trans_idle i)
    then show ?thesis using that(1) by (simp add: stuck_def)
  qed
  have later: "stuck x x b'" if "(rb_trans 0)\<^sup>*\<^sup>* b b'" for b'
    using that by (induction rule: rtranclp_induct) (use b(2) step in auto)
  have obs: "waiting b' Reader \<and> sent b' = [x] \<and> got b' = [] \<and> (\<nexists>v. pc b' Writer = Ready v)"
    if "stuck x x b'" for b' using that by (auto simp: stuck_def)
  show ?thesis
    by (intro exI [of _ b] conjI allI impI rb_run_reach [OF b(1)]) (use obs later b(2) in blast)+
qed

theorem ring_buffer_loses_wakeup_witness:
  "\<exists>b. (rb_trans 0)\<^sup>*\<^sup>* rb_init b \<and> sent b = [7 :: nat] \<and> got b = [] \<and> waiting b Reader"
  using ring_buffer_loses_wakeup [of "7 :: nat"] by blast

text \<open>
  The end of the stream can be reported early: a reader that has found the buffer empty and is
  preempted before it takes the cell, while the writer writes a value and closes, returns an empty
  optional although the value is in the buffer.
\<close>

theorem ring_buffer_ends_early:
  "\<exists>b b'. (rb_trans 0)\<^sup>*\<^sup>* rb_init b \<and> pc b Reader = Read_leave \<and> rb_step 0 Reader b = Ret () b'
     \<and> pc b' Reader = Ready None \<and> sent b' = [x] \<and> got b' = [] \<and> buffer b' 0 = Some x"
proof -
  obtain b where b: "rb_run 0 (early_end x) rb_init = Some b"
      "pc b Reader = Read_leave" "sent b = [x]" "got b = []" "buffer b 0 = Some x" "\<not> waiting b Reader"
    by (simp add: early_end_def write_now_def rb_eval numeral_eq_Suc)
  then show ?thesis
    using rb_run_reach [OF b(1)]
    by (intro exI [of _ b] exI [of _ "goto Reader (Ready None) (b\<lparr>stalled := None\<rparr>)"])
      (simp add: rb_step_def in_close_def park_leave_def)
qed

end
