(* ===== verification/Mutex.thy ===== *)
theory Mutex
  imports Steps
begin

text \<open>
  The mutex (\<open>concur/mutex.h\<close>, \<open>concur/mutex.cc\<close>) with its spin lock
  (\<open>concur/internal/spin_lock.h\<close>) and the waiters of its queue (\<open>concur/internal/waiter.h\<close>,
  \<open>waiter.cc\<close>, \<open>waiter_impl.h\<close>), for any number of tasks whose accesses interleave freely. A
  location of a task (\<open>mutex_pc\<close>) is named after the access it performs next. A task that has
  set its state to \<open>WAITING\<close> (\<open>blocked\<close>) does not run until it is unparked; \<open>self::yield()\<close> of a
  task that stays runnable changes nothing here. Whether another task can run at all (\<open>idle\<close> when
  none can) depends on the whole program and may change at any time; the \<open>runtime_error\<close> that a task
  gets when it parks alone ends the runs considered. The waiter objects of the \<open>std::list\<close> are held
  by the address of their list node in \<open>cells\<close>. \<open>log\<close> records when \<open>lock()\<close> returns and when an
  \<open>unlock()\<close> of the owner has been accepted.
\<close>

section \<open>Definitions\<close>

datatype mutex_pc =
    Out
  | Lock_spin
  | Lock_test
  | Lock_boost
  | Lock_boost_owner
  | Lock_push
  | Lock_release addr
  | Lock_park addr
  | Lock_wait addr
  | Lock_parked addr
  | Lock_respin
  | Lock_unboost
  | Lock_own
  | Lock_prio
  | Lock_done
  | Unlock_spin
  | Unlock_check
  | Unlock_throw
  | Unlock_empty
  | Unlock_fast
  | Unlock_load
  | Unlock_state addr addr
  | Unlock_cas addr addr
  | Unlock_sched addr addr
  | Unlock_pop
  | Unlock_clear
  | Unlock_prio
  | Unlock_release

datatype mutex_event = Locked addr | Unlocked addr

record mutex =
  spin :: bool
  owner :: addr
  waitqueue :: "addr list"
  cells :: "addr \<rightharpoonup> addr"
  boost :: u64
  task_boost :: "addr \<Rightarrow> u64"
  blocked :: "addr \<Rightarrow> bool"
  idle :: bool
  loc :: "addr \<Rightarrow> mutex_pc"
  log :: "mutex_event list"

text \<open>The constructor.\<close>

definition mutex_init :: mutex where
  "mutex_init =
     \<lparr>spin = False, owner = nullptr, waitqueue = [], cells = Map.empty, boost = 0,
      task_boost = (\<lambda>_. 0), blocked = (\<lambda>_. False), idle = False, loc = (\<lambda>_. Out), log = []\<rparr>"

definition jump :: "addr \<Rightarrow> mutex_pc \<Rightarrow> mutex \<Rightarrow> mutex" where
  "jump t l m = m\<lparr>loc := (loc m)(t := l)\<rparr>"

text \<open>\<open>spin_lock::lock\<close>, one round: it goes on to \<open>l\<close> when the flag was clear, and \<open>spin_lock::unlock\<close>.\<close>

definition spin_acquire :: "addr \<Rightarrow> mutex_pc \<Rightarrow> mutex \<Rightarrow> (unit, mutex) outcome" where
  "spin_acquire t l m = (if spin m then Ret () m else Ret () (jump t l (m\<lparr>spin := True\<rparr>)))"

definition spin_release :: "addr \<Rightarrow> mutex_pc \<Rightarrow> mutex \<Rightarrow> (unit, mutex) outcome" where
  "spin_release t l m = Ret () (jump t l (m\<lparr>spin := False\<rparr>))"

text \<open>
  \<open>mutex::lock\<close> by task \<open>t\<close>, one access at a time; \<open>n\<close> is the address of the list node that
  \<open>emplace_back\<close> allocates. \<open>park\<close> fails only when the waiter is taken, which the code asserts
  not to happen. A task that waits when nothing else can run gets the exception of \<open>sched::yield()\<close>:
  it leaves \<open>lock()\<close> with its state set to \<open>WAITING\<close> and its waiter queued; the spin lock is not held.
\<close>

fun lock_step :: "addr \<Rightarrow> addr \<Rightarrow> mutex_pc \<Rightarrow> mutex \<Rightarrow> (unit, mutex) outcome" where
  "lock_step t n Lock_spin m = spin_acquire t Lock_test m"
| "lock_step t n Lock_test m = Ret () (jump t (if owner m \<noteq> nullptr then Lock_boost else Lock_own) m)"
| "lock_step t n Lock_boost m = Ret () (jump t Lock_boost_owner (m\<lparr>boost := boost m + 1\<rparr>))"
| "lock_step t n Lock_boost_owner m =
     (if owner m = nullptr then Crash Bad_pointer
      else Ret () (jump t Lock_push
             (m\<lparr>task_boost := (task_boost m)(owner m := task_boost m (owner m) + 1)\<rparr>)))"
| "lock_step t n Lock_push m =
     Ret () (jump t (Lock_release n)
       (m\<lparr>waitqueue := waitqueue m @ [n], cells := (cells m)(n \<mapsto> nullptr)\<rparr>))"
| "lock_step t n (Lock_release x) m = spin_release t (Lock_park x) m"
| "lock_step t n (Lock_park x) m =
     (case cells m x of
        None \<Rightarrow> Crash Bad_pointer
      | Some p \<Rightarrow>
          if p = nullptr then Ret () (jump t (Lock_wait x) (m\<lparr>cells := (cells m)(x \<mapsto> t)\<rparr>))
          else Crash Assert_failed)"
| "lock_step t n (Lock_wait x) m =
     (if idle m
      then Throw (Runtime_error ''nothing to do. deadlock?'') (jump t Out (m\<lparr>blocked := (blocked m)(t := True)\<rparr>))
      else Ret () (jump t (Lock_parked x) (m\<lparr>blocked := (blocked m)(t := True)\<rparr>)))"
| "lock_step t n (Lock_parked x) m = Ret () (jump t Lock_respin m)"
| "lock_step t n Lock_respin m = spin_acquire t Lock_unboost m"
| "lock_step t n Lock_unboost m = Ret () (jump t Lock_test (m\<lparr>boost := boost m - 1\<rparr>))"
| "lock_step t n Lock_own m = Ret () (jump t Lock_prio (m\<lparr>owner := t\<rparr>))"
| "lock_step t n Lock_prio m =
     Ret () (jump t Lock_done (m\<lparr>task_boost := (task_boost m)(t := boost m)\<rparr>))"
| "lock_step t n Lock_done m = spin_release t Out (m\<lparr>log := log m @ [Locked t]\<rparr>)"
| "lock_step t n l m = Ret () m"

text \<open>
  \<open>mutex::unlock\<close> by task \<open>t\<close>. The exception leaves through the destructor of the
  \<open>unique_lock\<close>; \<open>waiter::unpark\<close> of the first waiter is repeated until it succeeds.
\<close>

fun unlock_step :: "addr \<Rightarrow> mutex_pc \<Rightarrow> mutex \<Rightarrow> (unit, mutex) outcome" where
  "unlock_step t Unlock_spin m = spin_acquire t Unlock_check m"
| "unlock_step t Unlock_check m =
     Ret () (if owner m \<noteq> t then jump t Unlock_throw m
             else jump t Unlock_empty (m\<lparr>log := log m @ [Unlocked t]\<rparr>))"
| "unlock_step t Unlock_throw m =
     Throw (Logic_error ''unlock called from context other than the owner's'')
       (jump t Out (m\<lparr>spin := False\<rparr>))"
| "unlock_step t Unlock_empty m =
     Ret () (jump t (if waitqueue m = [] then Unlock_fast else Unlock_load) m)"
| "unlock_step t Unlock_fast m = Ret () (jump t Unlock_release (m\<lparr>owner := nullptr\<rparr>))"
| "unlock_step t Unlock_load m =
     (case waitqueue m of
        [] \<Rightarrow> Crash Bad_pointer
      | x # _ \<Rightarrow>
          (case cells m x of
             None \<Rightarrow> Crash Bad_pointer
           | Some p \<Rightarrow> Ret () (if p = nullptr then m else jump t (Unlock_state x p) m)))"
| "unlock_step t (Unlock_state x p) m =
     Ret () (jump t (if blocked m p then Unlock_cas x p else Unlock_load) m)"
| "unlock_step t (Unlock_cas x p) m =
     (case cells m x of
        None \<Rightarrow> Crash Bad_pointer
      | Some q \<Rightarrow>
          Ret () (if q = p then jump t (Unlock_sched x p) (m\<lparr>cells := (cells m)(x \<mapsto> nullptr)\<rparr>)
                  else jump t Unlock_load m))"
| "unlock_step t (Unlock_sched x p) m =
     (if \<not> blocked m p then Crash Assert_failed
      else Ret () (jump t Unlock_pop (m\<lparr>blocked := (blocked m)(p := False)\<rparr>)))"
| "unlock_step t Unlock_pop m =
     (case waitqueue m of
        [] \<Rightarrow> Crash Bad_pointer
      | x # xs \<Rightarrow> Ret () (jump t Unlock_clear (m\<lparr>waitqueue := xs, cells := (cells m)(x := None)\<rparr>)))"
| "unlock_step t Unlock_clear m = Ret () (jump t Unlock_prio (m\<lparr>owner := nullptr\<rparr>))"
| "unlock_step t Unlock_prio m =
     Ret () (jump t Unlock_release (m\<lparr>task_boost := (task_boost m)(t := 0)\<rparr>))"
| "unlock_step t Unlock_release m = spin_release t Out m"
| "unlock_step t l m = Ret () m"

fun in_unlock :: "mutex_pc \<Rightarrow> bool" where
  "in_unlock Unlock_spin = True"
| "in_unlock Unlock_check = True"
| "in_unlock Unlock_throw = True"
| "in_unlock Unlock_empty = True"
| "in_unlock Unlock_fast = True"
| "in_unlock Unlock_load = True"
| "in_unlock (Unlock_state _ _) = True"
| "in_unlock (Unlock_cas _ _) = True"
| "in_unlock (Unlock_sched _ _) = True"
| "in_unlock Unlock_pop = True"
| "in_unlock Unlock_clear = True"
| "in_unlock Unlock_prio = True"
| "in_unlock Unlock_release = True"
| "in_unlock _ = False"

text \<open>One access of task \<open>t\<close>; a blocked task and a task outside a call do nothing.\<close>

definition mutex_step :: "addr \<Rightarrow> addr \<Rightarrow> mutex \<Rightarrow> (unit, mutex) outcome" where
  "mutex_step t n m =
     (if blocked m t then Ret () m
      else if in_unlock (loc m t) then unlock_step t (loc m t) m
      else lock_step t n (loc m t) m)"

text \<open>
  The steps of the system: a task outside a call starts \<open>lock()\<close> or \<open>unlock()\<close>, or a task makes an
  access, for any address of a new list node that is not in use, or the rest of the program changes.
  The program goes on after the \<open>logic_error\<close> of \<open>unlock()\<close>; the exception of \<open>lock()\<close> ends it.
\<close>

inductive mutex_trans :: "mutex \<Rightarrow> mutex \<Rightarrow> bool" where
  mutex_call: "loc m t = Out \<Longrightarrow> t \<noteq> nullptr \<Longrightarrow> l = Lock_spin \<or> l = Unlock_spin \<Longrightarrow> mutex_trans m (jump t l m)"
| mutex_access: "mutex_step t n m = Ret () m' \<Longrightarrow> cells m n = None \<Longrightarrow> mutex_trans m m'"
| mutex_raise: "mutex_step t n m = Throw (Logic_error e) m' \<Longrightarrow> cells m n = None \<Longrightarrow> mutex_trans m m'"
| mutex_idle: "mutex_trans m (m\<lparr>idle := i\<rparr>)"

text \<open>
  The abstract lock: the task that holds it, by the events so far, and the events it allows
  next: only a free lock is acquired, and only its holder releases it.
\<close>

definition held_by :: "mutex_event list \<Rightarrow> addr option" where
  "held_by es = (if es = [] then None else case last es of Locked t \<Rightarrow> Some t | Unlocked _ \<Rightarrow> None)"

inductive lock_spec :: "mutex_event list \<Rightarrow> mutex_event list \<Rightarrow> bool" where
  spec_lock: "held_by es = None \<Longrightarrow> lock_spec es (es @ [Locked t])"
| spec_unlock: "held_by es = Some t \<Longrightarrow> lock_spec es (es @ [Unlocked t])"

text \<open>
  The invariant: which locations hold the spin lock, the list node a task in \<open>lock()\<close> is
  registered with, the tasks on their way to the lock, and what each location knows.
\<close>

fun spins :: "mutex_pc \<Rightarrow> bool" where
  "spins Out = False"
| "spins Lock_spin = False"
| "spins (Lock_park _) = False"
| "spins (Lock_wait _) = False"
| "spins (Lock_parked _) = False"
| "spins Lock_respin = False"
| "spins Unlock_spin = False"
| "spins _ = True"

definition reg :: "mutex \<Rightarrow> addr \<Rightarrow> addr option" where
  "reg m t =
     (case loc m t of Lock_release n \<Rightarrow> Some n | Lock_park n \<Rightarrow> Some n | Lock_wait n \<Rightarrow> Some n
      | Lock_parked n \<Rightarrow> if blocked m t then Some n else None | _ \<Rightarrow> None)"

definition woken :: "mutex \<Rightarrow> addr \<Rightarrow> bool" where
  "woken m t \<longleftrightarrow> (\<exists>n. loc m t = Lock_parked n) \<and> \<not> blocked m t \<or> loc m t = Lock_respin"

definition heading :: "mutex \<Rightarrow> addr \<Rightarrow> bool" where
  "heading m t \<longleftrightarrow> woken m t \<or> loc m t = Lock_unboost \<or> loc m t = Lock_test \<or> loc m t = Lock_own"

fun loc_ok :: "mutex \<Rightarrow> addr \<Rightarrow> mutex_pc \<Rightarrow> bool" where
  "loc_ok m t Lock_boost = (owner m \<noteq> nullptr)"
| "loc_ok m t Lock_boost_owner = (owner m \<noteq> nullptr)"
| "loc_ok m t Lock_push = (owner m \<noteq> nullptr)"
| "loc_ok m t (Lock_release n) = (cells m n = Some nullptr)"
| "loc_ok m t (Lock_park n) = (cells m n = Some nullptr)"
| "loc_ok m t (Lock_wait n) = (cells m n = Some t)"
| "loc_ok m t (Lock_parked n) =
     (blocked m t \<longrightarrow> n \<in> dom (cells m) \<and> (cells m n = Some t \<or> (\<exists>u. loc m u = Unlock_sched n t)))"
| "loc_ok m t Lock_own = (owner m = nullptr)"
| "loc_ok m t Lock_prio = (owner m = t)"
| "loc_ok m t Lock_done = (owner m = t)"
| "loc_ok m t Unlock_throw = (owner m \<noteq> t)"
| "loc_ok m t Unlock_empty = (owner m = t)"
| "loc_ok m t Unlock_fast = (owner m = t \<and> waitqueue m = [])"
| "loc_ok m t Unlock_load = (owner m = t \<and> waitqueue m \<noteq> [])"
| "loc_ok m t (Unlock_state n p) =
     (owner m = t \<and> waitqueue m \<noteq> [] \<and> n = hd (waitqueue m) \<and> reg m p = Some n \<and> cells m n = Some p)"
| "loc_ok m t (Unlock_cas n p) =
     (owner m = t \<and> waitqueue m \<noteq> [] \<and> n = hd (waitqueue m) \<and> reg m p = Some n \<and> cells m n = Some p
        \<and> blocked m p)"
| "loc_ok m t (Unlock_sched n p) =
     (owner m = t \<and> waitqueue m \<noteq> [] \<and> n = hd (waitqueue m) \<and> reg m p = Some n \<and> blocked m p)"
| "loc_ok m t Unlock_pop =
     (owner m = t \<and> waitqueue m \<noteq> [] \<and> (\<forall>p. reg m p \<noteq> Some (hd (waitqueue m))) \<and> (\<exists>p. woken m p))"
| "loc_ok m t Unlock_clear = (owner m = t \<and> (\<exists>p. woken m p))"
| "loc_ok m t Unlock_prio = (owner m = nullptr)"
| "loc_ok m t Unlock_release = (owner m = nullptr)"
| "loc_ok m t _ = True"

text \<open>Who is inside: the task that \<open>lock()\<close> has returned to and that has not been let through \<open>unlock()\<close>.\<close>

fun passing :: "mutex_pc \<Rightarrow> bool" where
  "passing Lock_prio = True"
| "passing Lock_done = True"
| "passing Unlock_empty = True"
| "passing Unlock_fast = True"
| "passing Unlock_load = True"
| "passing (Unlock_state _ _) = True"
| "passing (Unlock_cas _ _) = True"
| "passing (Unlock_sched _ _) = True"
| "passing Unlock_pop = True"
| "passing Unlock_clear = True"
| "passing _ = False"

definition mutex_ok :: "mutex \<Rightarrow> bool" where
  "mutex_ok m \<longleftrightarrow>
     (spin m \<longleftrightarrow> (\<exists>t. spins (loc m t))) \<and>
     (\<forall>t u. spins (loc m t) \<and> spins (loc m u) \<longrightarrow> t = u) \<and>
     distinct (waitqueue m) \<and> dom (cells m) = set (waitqueue m) \<and>
     (\<forall>t u n. reg m t = Some n \<and> reg m u = Some n \<longrightarrow> t = u) \<and>
     (\<forall>n \<in> set (waitqueue m). (\<exists>t. reg m t = Some n) \<or> (\<exists>u. loc m u = Unlock_pop) \<and> n = hd (waitqueue m)) \<and>
     (waitqueue m \<noteq> [] \<and> owner m = nullptr \<longrightarrow> (\<exists>t. heading m t)) \<and>
     (\<forall>t. blocked m t \<longrightarrow> (\<exists>n. loc m t = Lock_parked n)) \<and>
     loc m nullptr = Out \<and>
     (\<forall>t. loc_ok m t (loc m t)) \<and>
     held_by (log m) = (if owner m = nullptr \<or> passing (loc m (owner m)) then None else Some (owner m))"

end
