(* ===== verification/Mutex_Inv.thy ===== *)
theory Mutex_Inv
  imports Mutex
begin

text \<open>
  Every step of the mutex keeps its invariant, refines the abstract lock and does not crash. The
  steps are grouped by what they change: only the location of a task, the spin lock, the owner,
  the queue, or a waiter.
\<close>

section \<open>Parts of the invariant\<close>

lemma jump_simps [simp]:
  "loc (jump t l m) = (loc m)(t := l)" "spin (jump t l m) = spin m" "owner (jump t l m) = owner m"
  "waitqueue (jump t l m) = waitqueue m" "cells (jump t l m) = cells m" "boost (jump t l m) = boost m"
  "task_boost (jump t l m) = task_boost m" "blocked (jump t l m) = blocked m" "log (jump t l m) = log m"
  "idle (jump t l m) = idle m"
  by (simp_all add: jump_def)

lemma held_by_snoc [simp]: "held_by (es @ [Locked t]) = Some t" "held_by (es @ [Unlocked t]) = None"
  by (simp_all add: held_by_def)

lemma mutex_okD:
  assumes "mutex_ok m"
  shows "spin m \<longleftrightarrow> (\<exists>t. spins (loc m t))"
    "spins (loc m t) \<Longrightarrow> spins (loc m u) \<Longrightarrow> t = u"
    "distinct (waitqueue m)" "dom (cells m) = set (waitqueue m)"
    "reg m t = Some n \<Longrightarrow> reg m u = Some n \<Longrightarrow> t = u"
    "n \<in> set (waitqueue m) \<Longrightarrow> (\<exists>t. reg m t = Some n) \<or> (\<exists>u. loc m u = Unlock_pop) \<and> n = hd (waitqueue m)"
    "waitqueue m \<noteq> [] \<Longrightarrow> owner m = nullptr \<Longrightarrow> \<exists>t. heading m t"
    "blocked m t \<Longrightarrow> \<exists>n. loc m t = Lock_parked n"
    "loc m nullptr = Out"
    "loc_ok m t (loc m t)"
    "held_by (log m) = (if owner m = nullptr \<or> passing (loc m (owner m)) then None else Some (owner m))"
  using assms unfolding mutex_ok_def by blast+

lemma mutex_okI:
  assumes "spin m \<longleftrightarrow> (\<exists>t. spins (loc m t))"
    "\<And>t u. spins (loc m t) \<Longrightarrow> spins (loc m u) \<Longrightarrow> t = u"
    "distinct (waitqueue m)" "dom (cells m) = set (waitqueue m)"
    "\<And>t u n. reg m t = Some n \<Longrightarrow> reg m u = Some n \<Longrightarrow> t = u"
    "\<And>n. n \<in> set (waitqueue m) \<Longrightarrow> (\<exists>t. reg m t = Some n) \<or> (\<exists>u. loc m u = Unlock_pop) \<and> n = hd (waitqueue m)"
    "waitqueue m \<noteq> [] \<Longrightarrow> owner m = nullptr \<Longrightarrow> \<exists>t. heading m t"
    "\<And>t. blocked m t \<Longrightarrow> \<exists>n. loc m t = Lock_parked n"
    "loc m nullptr = Out"
    "\<And>t. loc_ok m t (loc m t)"
    "held_by (log m) = (if owner m = nullptr \<or> passing (loc m (owner m)) then None else Some (owner m))"
  shows "mutex_ok m"
  using assms unfolding mutex_ok_def by blast

lemma mutex_ok_init: "mutex_ok mutex_init"
  by (rule mutex_okI) (auto simp: mutex_init_def reg_def held_by_def)

lemma idle_views: "reg (m\<lparr>idle := i\<rparr>) = reg m" "woken (m\<lparr>idle := i\<rparr>) = woken m" "heading (m\<lparr>idle := i\<rparr>) = heading m"
proof -
  show r: "reg (m\<lparr>idle := i\<rparr>) = reg m" and w: "woken (m\<lparr>idle := i\<rparr>) = woken m"
    by (rule ext, simp add: reg_def woken_def split: mutex_pc.splits)+
  show "heading (m\<lparr>idle := i\<rparr>) = heading m" by (rule ext) (simp add: heading_def w)
qed

lemma mutex_ok_idle: "mutex_ok (m\<lparr>idle := i\<rparr>) = mutex_ok m"
proof -
  have "loc_ok (m\<lparr>idle := i\<rparr>) t l = loc_ok m t l" for t l by (cases l) (simp_all add: idle_views)
  then show ?thesis by (simp add: mutex_ok_def idle_views)
qed

text \<open>A registered task's node is in the queue.\<close>

lemma reg_dom:
  assumes "loc_ok m t (loc m t)" and "reg m t = Some n"
  shows "n \<in> dom (cells m)"
  using assms by (cases "loc m t") (auto simp: reg_def split: if_splits)

lemma reg_other: "u \<noteq> t \<Longrightarrow> blocked m' u = blocked m u \<Longrightarrow> loc m' = (loc m)(t := l) \<Longrightarrow> reg m' u = reg m u"
  by (cases "loc m u") (simp_all add: reg_def)

lemma woken_other:
  "u \<noteq> t \<Longrightarrow> blocked m' u = blocked m u \<Longrightarrow> loc m' = (loc m)(t := l) \<Longrightarrow> woken m' u = woken m u"
  by (simp add: woken_def)

lemma heading_other:
  "u \<noteq> t \<Longrightarrow> blocked m' u = blocked m u \<Longrightarrow> loc m' = (loc m)(t := l) \<Longrightarrow> heading m' u = heading m u"
  by (simp add: heading_def woken_def)

lemma woken_outside: "woken m p \<Longrightarrow> \<not> spins (loc m p)"
  by (auto simp: woken_def)

text \<open>What a location knows stays true when nothing it mentions changes.\<close>

lemma loc_ok_same:
  assumes "loc_ok m u l" and "owner m' = owner m" "waitqueue m' = waitqueue m" "cells m' = cells m"
    "blocked m' = blocked m" "reg m' = reg m"
    and "\<exists>p. woken m p \<Longrightarrow> \<exists>p. woken m' p"
    and "\<And>n. \<exists>v. loc m v = Unlock_sched n u \<Longrightarrow> \<exists>v. loc m' v = Unlock_sched n u"
  shows "loc_ok m' u l"
  using assms by (cases l) auto

text \<open>A task that does not hold the spin lock knows only about its own waiter.\<close>

lemma loc_ok_outside:
  assumes "loc_ok m u l" and "\<not> spins l" and "blocked m' u = blocked m u"
    and "\<And>n. l = Lock_park n \<or> l = Lock_wait n \<or> l = Lock_parked n \<and> blocked m u \<Longrightarrow> cells m' n = cells m n"
    and "\<And>n. blocked m u \<Longrightarrow> l = Lock_parked n \<Longrightarrow> \<exists>v. loc m v = Unlock_sched n u \<Longrightarrow> cells m' n \<noteq> Some u
      \<Longrightarrow> \<exists>v. loc m' v = Unlock_sched n u"
  shows "loc_ok m' u l"
proof (cases l)
  case (Lock_parked n)
  have "n \<in> dom (cells m') \<and> (cells m' n = Some u \<or> (\<exists>v. loc m' v = Unlock_sched n u))" if b: "blocked m u"
  proof -
    have c: "cells m' n = cells m n" using assms(4) [of n] b Lock_parked by simp
    have o: "n \<in> dom (cells m)" "cells m n = Some u \<or> (\<exists>v. loc m v = Unlock_sched n u)"
      using assms(1) b Lock_parked by auto
    then show ?thesis using c assms(5) [OF b Lock_parked] by (cases "cells m n = Some u") auto
  qed
  then show ?thesis using assms(3) Lock_parked by simp
qed (use assms in auto)

section \<open>Steps that move a task\<close>

lemma mutex_ok_move:
  assumes ok: "mutex_ok m" and t: "t \<noteq> nullptr"
    and m': "loc m' = (loc m)(t := l)" "spin m' = spin m" "owner m' = owner m" "waitqueue m' = waitqueue m"
      "cells m' = cells m" "blocked m' = blocked m" "log m' = log m"
    and b: "\<not> blocked m t"
    and l: "spins l = spins (loc m t)" "reg m' t = reg m t" "loc m t \<noteq> Unlock_pop" "\<And>n p. loc m t \<noteq> Unlock_sched n p"
      "passing l = passing (loc m t)" "woken m t \<Longrightarrow> woken m' t"
      "heading m t \<Longrightarrow> owner m = nullptr \<Longrightarrow> heading m' t" "loc_ok m' t l"
  shows "mutex_ok m'"
proof -
  note D = mutex_okD [OF ok]
  have sp: "spins (loc m' u) = spins (loc m u)" for u using m'(1) l(1) by simp
  have rg: "reg m' = reg m"
  proof
    fix u show "reg m' u = reg m u" using l(2) reg_other [of u t m' m l] m' by (cases "u = t") auto
  qed
  have wk: "woken m' u" if "woken m u" for u
    using that l(6) woken_other [of u t m' m l] m' by (cases "u = t") auto
  have hd: "heading m' u" if "heading m u" "owner m = nullptr" for u
    using that l(7) heading_other [of u t m' m l] m' by (cases "u = t") auto
  have pop: "(\<exists>u. loc m' u = Unlock_pop)" if "\<exists>u. loc m u = Unlock_pop"
    using that l(3) m'(1) by (metis fun_upd_apply)
  have sched: "\<exists>v. loc m' v = Unlock_sched n u" if "\<exists>v. loc m v = Unlock_sched n u" for n u
    using that l(4) m'(1) by (metis fun_upd_apply)
  show ?thesis
  proof (rule mutex_okI)
    show "loc_ok m' u (loc m' u)" for u
    proof (cases "u = t")
      case False
      show ?thesis
        using loc_ok_same [OF D(10) [of u] m'(3-6) rg, of] wk sched False m'(1) by auto
    qed (use l(8) m'(1) in simp)
    show "n \<in> set (waitqueue m') \<Longrightarrow> (\<exists>t. reg m' t = Some n) \<or> (\<exists>u. loc m' u = Unlock_pop) \<and> n = hd (waitqueue m')" for n
      using D(6) pop m'(4) rg by auto
    show "waitqueue m' \<noteq> [] \<Longrightarrow> owner m' = nullptr \<Longrightarrow> \<exists>t. heading m' t"
      using D(7) hd m'(3,4) by metis
    show "held_by (log m') = (if owner m' = nullptr \<or> passing (loc m' (owner m')) then None else Some (owner m'))"
      using D(11) m'(1,3,7) l(5) by auto
    show "\<exists>n. loc m' u = Lock_parked n" if "blocked m' u" for u
      using that D(8) [of u] b m' by (cases "u = t") auto
  qed (use D(1-5,9) m' t sp rg in auto)
qed

section \<open>Steps that take or release the spin lock\<close>

lemma mutex_ok_acquire:
  assumes ok: "mutex_ok m" and t: "t \<noteq> nullptr" and sp: "\<not> spin m"
    and l: "loc m t = Lock_spin \<and> l = Lock_test \<or> loc m t = Lock_respin \<and> l = Lock_unboost
      \<or> loc m t = Unlock_spin \<and> l = Unlock_check"
  shows "mutex_ok (jump t l (m\<lparr>spin := True\<rparr>))"
proof -
  let ?m = "jump t l (m\<lparr>spin := True\<rparr>)"
  note D = mutex_okD [OF ok]
  have none: "\<not> spins (loc m u)" for u using sp D(1) by blast
  have ls: "spins l" "reg ?m t = None" "reg m t = None" "\<not> passing l" "\<not> passing (loc m t)"
    using l by (auto simp: reg_def)
  have rg: "reg ?m = reg m"
  proof
    fix u show "reg ?m u = reg m u" using ls reg_other [of u t ?m m l] by (cases "u = t") auto
  qed
  have hd: "heading ?m u" if "heading m u" for u
    using that l heading_other [of u t ?m m l] by (cases "u = t") (auto simp: heading_def woken_def)
  have no_pop: "loc m u \<noteq> Unlock_pop" for u using none [of u] by auto
  show ?thesis
  proof (rule mutex_okI)
    show "loc_ok ?m u (loc ?m u)" for u
    proof (cases "u = t")
      case False
      have "loc m v \<noteq> Unlock_sched n u" for v n using none [of v] by auto
      then show ?thesis
        using loc_ok_outside [OF D(10) [of u] none, of ?m] False by auto
    qed (use l in auto)
    show "n \<in> set (waitqueue ?m) \<Longrightarrow> (\<exists>t. reg ?m t = Some n) \<or> (\<exists>u. loc ?m u = Unlock_pop) \<and> n = hd (waitqueue ?m)" for n
      using D(6) [of n] no_pop rg by auto
    show "waitqueue ?m \<noteq> [] \<Longrightarrow> owner ?m = nullptr \<Longrightarrow> \<exists>t. heading ?m t"
      using D(7) hd by fastforce
    show "held_by (log ?m) = (if owner ?m = nullptr \<or> passing (loc ?m (owner ?m)) then None else Some (owner ?m))"
      using D(11) ls by auto
    show "\<exists>n. loc ?m u = Lock_parked n" if "blocked ?m u" for u
      using that D(8) [of u] l by (cases "u = t") auto
  qed (use D(3-5,9) t ls none rg in \<open>auto split: if_splits\<close>)
qed

lemma mutex_ok_release:
  assumes ok: "mutex_ok m" and t: "t \<noteq> nullptr"
    and m': "loc m' = (loc m)(t := l)" "spin m' = False" "owner m' = owner m" "waitqueue m' = waitqueue m"
      "cells m' = cells m" "blocked m' = blocked m"
    and l: "(\<exists>n. loc m t = Lock_release n \<and> l = Lock_park n) \<and> log m' = log m
      \<or> loc m t = Lock_done \<and> l = Out \<and> log m' = log m @ [Locked t]
      \<or> (loc m t = Unlock_throw \<or> loc m t = Unlock_release) \<and> l = Out \<and> log m' = log m"
  shows "mutex_ok m'"
proof -
  note D = mutex_okD [OF ok]
  have st: "spins (loc m t)" "\<not> spins l" "reg m' t = reg m t" "\<not> heading m t" "\<not> blocked m t"
    using l D(8) [of t] m'(1) by (auto simp: reg_def heading_def woken_def)
  have others: "\<not> spins (loc m u)" if "u \<noteq> t" for u using D(2) st(1) that by blast
  have rg: "reg m' = reg m"
  proof
    fix u show "reg m' u = reg m u" using st reg_other [of u t m' m l] m' by (cases "u = t") auto
  qed
  have no_sched: "loc m v \<noteq> Unlock_sched n u" for v n u
    using l others [of v] by (cases "v = t") auto
  have no_pop: "loc m v \<noteq> Unlock_pop" for v
    using l others [of v] by (cases "v = t") auto
  show ?thesis
  proof (rule mutex_okI)
    show "loc_ok m' u (loc m' u)" for u
    proof (cases "u = t")
      case False
      then show ?thesis
        using loc_ok_outside [OF D(10) [of u] others, of m'] m' no_sched by auto
    qed (use l D(10) [of t] m' in auto)
    show "n \<in> set (waitqueue m') \<Longrightarrow> (\<exists>t. reg m' t = Some n) \<or> (\<exists>u. loc m' u = Unlock_pop) \<and> n = hd (waitqueue m')" for n
      using D(6) [of n] no_pop rg m' by auto
    show "waitqueue m' \<noteq> [] \<Longrightarrow> owner m' = nullptr \<Longrightarrow> \<exists>t. heading m' t"
      using D(7) st(4) heading_other [of _ t m' m l] m' by metis
    show "held_by (log m') = (if owner m' = nullptr \<or> passing (loc m' (owner m')) then None else Some (owner m'))"
      using D(10) [of t] D(11) l m' t by (auto)
    show "\<exists>n. loc m' u = Lock_parked n" if "blocked m' u" for u
      using that D(8) [of u] st(5) m' by (cases "u = t") auto
    show "spin m' \<longleftrightarrow> (\<exists>t. spins (loc m' t))" using m' others st by auto
    show "spins (loc m' u) \<Longrightarrow> spins (loc m' v) \<Longrightarrow> u = v" for u v using m' others st by (auto split: if_splits)
    show "reg m' u = Some n \<Longrightarrow> reg m' v = Some n \<Longrightarrow> u = v" for u v n using D(5) rg by simp
  qed (use D(3,4,9) m' t in auto)
qed

section \<open>Steps under the spin lock\<close>

text \<open>
  A step of the task that holds the spin lock and stays in its critical section: the other tasks
  are outside theirs, so only their waiters matter.
\<close>

lemma mutex_ok_inside:
  assumes ok: "mutex_ok m" and t: "t \<noteq> nullptr"
    and m': "loc m' = (loc m)(t := l)" "spin m' = spin m"
    and st: "spins (loc m t)" "spins l" "reg m t = None" "\<not> blocked m t"
    and bl: "\<And>u. blocked m' u \<Longrightarrow> blocked m u"
    and q: "distinct (waitqueue m')" "dom (cells m') = set (waitqueue m')"
    and rg: "\<And>u n. u \<noteq> t \<Longrightarrow> reg m' u = Some n \<Longrightarrow> reg m u = Some n \<and> reg m' t \<noteq> Some n"
    and nodes: "\<And>n. n \<in> set (waitqueue m') \<Longrightarrow> (\<exists>u. reg m' u = Some n) \<or> l = Unlock_pop \<and> n = hd (waitqueue m')"
    and head: "waitqueue m' \<noteq> [] \<Longrightarrow> owner m' = nullptr \<Longrightarrow> \<exists>u. heading m' u"
    and own: "loc_ok m' t l"
    and other: "\<And>u. u \<noteq> t \<Longrightarrow> loc_ok m u (loc m u) \<Longrightarrow> \<not> spins (loc m u) \<Longrightarrow> loc_ok m' u (loc m u)"
    and log: "held_by (log m') = (if owner m' = nullptr \<or> passing (loc m' (owner m')) then None else Some (owner m'))"
  shows "mutex_ok m'"
proof -
  note D = mutex_okD [OF ok]
  have others: "\<not> spins (loc m u)" if "u \<noteq> t" for u using D(2) st(1) that by blast
  show ?thesis
  proof (rule mutex_okI)
    show "loc_ok m' u (loc m' u)" for u
      using own other [OF _ D(10) others] m'(1) by (cases "u = t") auto
    show "reg m' u = Some n \<Longrightarrow> reg m' v = Some n \<Longrightarrow> u = v" for u v n
      using rg D(5) by (cases "u = t"; cases "v = t") blast+
    show "n \<in> set (waitqueue m') \<Longrightarrow> (\<exists>t. reg m' t = Some n) \<or> (\<exists>u. loc m' u = Unlock_pop) \<and> n = hd (waitqueue m')" for n
      using nodes [of n] m'(1) by auto
    show "\<exists>n. loc m' u = Lock_parked n" if "blocked m' u" for u
      using D(8) [OF bl [OF that]] bl [OF that] st(4) m'(1) by (cases "u = t") auto
    show "spin m' \<longleftrightarrow> (\<exists>t. spins (loc m' t))" using D(1) m' st by (metis fun_upd_same)
    show "spins (loc m' u) \<Longrightarrow> spins (loc m' v) \<Longrightarrow> u = v" for u v using m'(1) others by (auto split: if_splits)
  qed (use D(9) m' t q head log in auto)
qed

lemma mutex_ok_push:
  assumes ok: "mutex_ok m" and t: "t \<noteq> nullptr" "loc m t = Lock_push" and n: "cells m n = None"
  shows "mutex_ok (jump t (Lock_release n) (m\<lparr>waitqueue := waitqueue m @ [n], cells := (cells m)(n \<mapsto> nullptr)\<rparr>))"
    (is "mutex_ok ?m")
proof -
  note D = mutex_okD [OF ok]
  have nq: "n \<notin> set (waitqueue m)" using n D(4) by auto
  have others: "\<not> spins (loc m u)" if "u \<noteq> t" for u using D(2) [of t u] t(2) that by auto
  have no_sched: "loc m v \<noteq> Unlock_sched k u" for v k u using others [of v] t(2) by (cases "v = t") auto
  have ro: "reg ?m u = reg m u" if "u \<noteq> t" for u using reg_other [of u t ?m m] that by simp
  have rt: "reg ?m t = Some n" by (simp add: reg_def)
  show ?thesis
  proof (rule mutex_ok_inside [OF ok t(1), where l = "Lock_release n"])
    show "reg m u = Some k \<and> reg ?m t \<noteq> Some k" if "u \<noteq> t" "reg ?m u = Some k" for u k
    proof -
      have k: "reg m u = Some k" using ro [OF that(1)] that(2) by simp
      then have "k \<noteq> n" using reg_dom [OF D(10) k] n by auto
      then show ?thesis using k rt by simp
    qed
    show "(\<exists>u. reg ?m u = Some k) \<or> Lock_release n = Unlock_pop \<and> k = hd (waitqueue ?m)"
      if "k \<in> set (waitqueue ?m)" for k
    proof (cases "k = n")
      case True
      then show ?thesis using rt by blast
    next
      case False
      then have "k \<in> set (waitqueue m)" using that by auto
      moreover have "loc m u \<noteq> Unlock_pop" for u using others [of u] t(2) by (cases "u = t") auto
      ultimately obtain u where "reg m u = Some k" using D(6) by blast
      moreover have "u \<noteq> t" using calculation t(2) by (auto simp: reg_def)
      ultimately show ?thesis using ro by metis
    qed
    show "loc_ok ?m u (loc m u)" if "u \<noteq> t" "loc_ok m u (loc m u)" "\<not> spins (loc m u)" for u
    proof (rule loc_ok_outside [OF that(2,3)])
      show "cells ?m k = cells m k"
        if "loc m u = Lock_park k \<or> loc m u = Lock_wait k \<or> loc m u = Lock_parked k \<and> blocked m u" for k
        using that reg_dom [OF D(10), of u k] n by (auto simp: reg_def)
    qed (use no_sched in auto)
  qed (use D(3,4,11) D(8) [of t] D(10) [of t] t nq in \<open>auto simp: reg_def heading_def woken_def\<close>)
qed

lemma mutex_ok_pop:
  assumes ok: "mutex_ok m" and t: "t \<noteq> nullptr" "loc m t = Unlock_pop" and x: "waitqueue m = x # xs"
  shows "mutex_ok (jump t Unlock_clear (m\<lparr>waitqueue := xs, cells := (cells m)(x := None)\<rparr>))"
    (is "mutex_ok ?m")
proof -
  note D = mutex_okD [OF ok]
  have k: "owner m = t" "reg m p \<noteq> Some x" "\<exists>p. woken m p" for p using D(10) [of t] t x by auto
  have others: "\<not> spins (loc m u)" if "u \<noteq> t" for u using D(2) [of t u] t(2) that by auto
  have no_sched: "loc m v \<noteq> Unlock_sched k u" for v k u using others [of v] t(2) by (cases "v = t") auto
  have ro: "reg ?m u = reg m u" if "u \<noteq> t" for u using reg_other [of u t ?m m] that by simp
  have rt: "reg ?m t = None" "reg m t = None" using t(2) by (simp_all add: reg_def)
  obtain p where p: "woken m p" using k(3) by blast
  then have "p \<noteq> t" using woken_outside [OF p] t(2) by auto
  with p have wk: "woken ?m p" using woken_other [of p t ?m m] by simp
  show ?thesis
  proof (rule mutex_ok_inside [OF ok t(1), where l = Unlock_clear])
    show "(\<exists>u. reg ?m u = Some n) \<or> Unlock_clear = Unlock_pop \<and> n = hd (waitqueue ?m)"
      if "n \<in> set (waitqueue ?m)" for n
    proof -
      have n: "n \<noteq> x" "n \<in> set xs" using that D(3) x by auto
      then obtain u where "reg m u = Some n" using D(6) [of n] x by auto
      moreover have "u \<noteq> t" using calculation rt by auto
      ultimately show ?thesis using ro by metis
    qed
    show "loc_ok ?m u (loc m u)" if "u \<noteq> t" "loc_ok m u (loc m u)" "\<not> spins (loc m u)" for u
    proof (rule loc_ok_outside [OF that(2,3)])
      show "cells ?m n = cells m n"
        if "loc m u = Lock_park n \<or> loc m u = Lock_wait n \<or> loc m u = Lock_parked n \<and> blocked m u" for n
        using that k(2) [of u] by (auto simp: reg_def)
    qed (use no_sched in auto)
  qed (use D(3,4) D(8) [of t] D(11) t x k ro rt wk in \<open>auto simp: insert_Diff_if\<close>)
qed

text \<open>A step that leaves the queue and the waiters alone.\<close>

lemma mutex_ok_owner:
  assumes ok: "mutex_ok m" and t: "t \<noteq> nullptr"
    and m': "loc m' = (loc m)(t := l)" "spin m' = spin m" "waitqueue m' = waitqueue m" "cells m' = cells m"
      "blocked m' = blocked m"
    and st: "spins (loc m t)" "spins l" "reg m t = None" "reg m' t = None" "loc m t \<noteq> Unlock_pop"
      "\<And>n p. loc m t \<noteq> Unlock_sched n p"
    and head: "waitqueue m' \<noteq> [] \<Longrightarrow> owner m' = nullptr \<Longrightarrow> \<exists>u. heading m' u"
    and own: "loc_ok m' t l"
    and log: "held_by (log m') = (if owner m' = nullptr \<or> passing (loc m' (owner m')) then None else Some (owner m'))"
  shows "mutex_ok m'"
proof -
  note D = mutex_okD [OF ok]
  have b: "\<not> blocked m t" using D(8) [of t] st(1) by auto
  have others: "\<not> spins (loc m u)" if "u \<noteq> t" for u using D(2) [of t u] st(1) that by auto
  have no_sched: "loc m v \<noteq> Unlock_sched k u" for v k u using others [of v] st(6) by (cases "v = t") auto
  have no_pop: "loc m v \<noteq> Unlock_pop" for v using others [of v] st(5) by (cases "v = t") auto
  have rg: "reg m' u = reg m u" for u using reg_other [of u t m' m l] m' st(3,4) by (cases "u = t") auto
  show ?thesis
  proof (rule mutex_ok_inside [OF ok t m'(1,2) st(1-3) b])
    show "loc_ok m' u (loc m u)" if "u \<noteq> t" "loc_ok m u (loc m u)" "\<not> spins (loc m u)" for u
      by (rule loc_ok_outside [OF that(2,3)]) (use m' no_sched in auto)
    show "(\<exists>u. reg m' u = Some n) \<or> l = Unlock_pop \<and> n = hd (waitqueue m')" if "n \<in> set (waitqueue m')" for n
      using D(6) [of n] that m'(3) no_pop rg by auto
  qed (use D(3,4) m' head own log rg st(3) in auto)
qed

lemma mutex_ok_own:
  assumes ok: "mutex_ok m" and t: "t \<noteq> nullptr" "loc m t = Lock_own"
  shows "mutex_ok (jump t Lock_prio (m\<lparr>owner := t\<rparr>))"
proof -
  have "held_by (log m) = None" using mutex_okD(10) [OF ok, of t] mutex_okD(11) [OF ok] t by simp
  then show ?thesis
    by (intro mutex_ok_owner [OF ok t(1), where l = Lock_prio]) (use t in \<open>auto simp: reg_def\<close>)
qed

lemma mutex_ok_accept:
  assumes ok: "mutex_ok m" and t: "t \<noteq> nullptr" "loc m t = Unlock_check" "owner m = t"
  shows "mutex_ok (jump t Unlock_empty (m\<lparr>log := log m @ [Unlocked t]\<rparr>)) \<and> held_by (log m) = Some t"
proof -
  have "held_by (log m) = Some t" using mutex_okD(11) [OF ok] t by simp
  moreover have "mutex_ok (jump t Unlock_empty (m\<lparr>log := log m @ [Unlocked t]\<rparr>))"
    by (rule mutex_ok_owner [OF ok t(1), where l = Unlock_empty]) (use t in \<open>auto simp: reg_def\<close>)
  ultimately show ?thesis by simp
qed

lemma mutex_ok_fast:
  assumes ok: "mutex_ok m" and t: "t \<noteq> nullptr" "loc m t = Unlock_fast"
  shows "mutex_ok (jump t Unlock_release (m\<lparr>owner := nullptr\<rparr>))"
proof -
  have k: "owner m = t" "waitqueue m = []" using mutex_okD(10) [OF ok, of t] t by auto
  then have "held_by (log m) = None" using mutex_okD(11) [OF ok] t by simp
  then show ?thesis
    by (intro mutex_ok_owner [OF ok t(1), where l = Unlock_release]) (use t k in \<open>auto simp: reg_def\<close>)
qed

lemma mutex_ok_clear:
  assumes ok: "mutex_ok m" and t: "t \<noteq> nullptr" "loc m t = Unlock_clear"
  shows "mutex_ok (jump t Unlock_prio (m\<lparr>owner := nullptr\<rparr>))" (is "mutex_ok ?m")
proof -
  have k: "owner m = t" "\<exists>p. woken m p" using mutex_okD(10) [OF ok, of t] t by auto
  then have "held_by (log m) = None" using mutex_okD(11) [OF ok] t by simp
  obtain p where p: "woken m p" using k(2) by blast
  then have "p \<noteq> t" using woken_outside [OF p] t(2) by auto
  with p have "heading ?m p" using woken_other [of p t ?m m] by (simp add: heading_def)
  then have "\<exists>u. heading ?m u" by blast
  with \<open>held_by (log m) = None\<close> show ?thesis
    by (intro mutex_ok_owner [OF ok t(1), where l = Unlock_prio]) (use t k in \<open>auto simp: reg_def\<close>)
qed

section \<open>Steps on a waiter\<close>

lemma mutex_ok_cas:
  assumes ok: "mutex_ok m" and t: "t \<noteq> nullptr" "loc m t = Unlock_cas x p"
  shows "cells m x = Some p \<and> mutex_ok (jump t (Unlock_sched x p) (m\<lparr>cells := (cells m)(x \<mapsto> nullptr)\<rparr>))"
    (is "_ \<and> mutex_ok ?m")
proof -
  note D = mutex_okD [OF ok]
  have k: "owner m = t" "waitqueue m \<noteq> []" "x = hd (waitqueue m)" "reg m p = Some x" "cells m x = Some p" "blocked m p"
    using D(10) [of t] t by auto
  have others: "\<not> spins (loc m u)" if "u \<noteq> t" for u using D(2) [of t u] t(2) that by auto
  have no_sched: "loc m v \<noteq> Unlock_sched k u" for v k u using others [of v] t(2) by (cases "v = t") auto
  have no_pop: "loc m v \<noteq> Unlock_pop" for v using others [of v] t(2) by (cases "v = t") auto
  have rt: "reg m t = None" "reg ?m t = None" using t(2) by (simp_all add: reg_def)
  have rg: "reg ?m u = reg m u" for u using reg_other [of u t ?m m] rt by (cases "u = t") auto
  have "held_by (log m) = None" using D(11) k(1) t by simp
  have "mutex_ok ?m"
  proof (rule mutex_ok_inside [OF ok t(1), where l = "Unlock_sched x p"])
    show "loc_ok ?m u (loc m u)" if "u \<noteq> t" "loc_ok m u (loc m u)" "\<not> spins (loc m u)" for u
    proof (cases "u = p")
      case True
      then obtain n where "loc m u = Lock_parked n" using D(8) k(6) by blast
      then show ?thesis using True k(4,6) by (auto simp: reg_def)
    next
      case False
      then have "reg m u \<noteq> Some x" using D(5) [OF k(4)] by blast
      then have "cells ?m n = cells m n"
        if "loc m u = Lock_park n \<or> loc m u = Lock_wait n \<or> loc m u = Lock_parked n \<and> blocked m u" for n
        using that by (auto simp: reg_def)
      then show ?thesis by (intro loc_ok_outside [OF that(2,3)]) (use no_sched in auto)
    qed
    show "(\<exists>u. reg ?m u = Some n) \<or> Unlock_sched x p = Unlock_pop \<and> n = hd (waitqueue ?m)"
      if "n \<in> set (waitqueue ?m)" for n
      using D(6) [of n] that no_pop rg by auto
    show "loc_ok ?m t (Unlock_sched x p)" using k rg by simp
    show "dom (cells ?m) = set (waitqueue ?m)" using D(4) k(5) by auto
  qed (use D(3) D(8) [of t] t k rt rg \<open>held_by (log m) = None\<close> in auto)
  then show ?thesis using k(5) by simp
qed

lemma mutex_ok_sched:
  assumes ok: "mutex_ok m" and t: "t \<noteq> nullptr" "loc m t = Unlock_sched x p"
  shows "blocked m p \<and> mutex_ok (jump t Unlock_pop (m\<lparr>blocked := (blocked m)(p := False)\<rparr>))"
    (is "_ \<and> mutex_ok ?m")
proof -
  note D = mutex_okD [OF ok]
  have k: "owner m = t" "waitqueue m \<noteq> []" "x = hd (waitqueue m)" "reg m p = Some x" "blocked m p"
    using D(10) [of t] t by auto
  obtain n where n: "loc m p = Lock_parked n" using D(8) k(5) by blast
  have pt: "p \<noteq> t" using n t(2) by auto
  have others: "\<not> spins (loc m u)" if "u \<noteq> t" for u using D(2) [of t u] t(2) that by auto
  have sched: "loc m v = Unlock_sched a u \<Longrightarrow> a = x \<and> u = p" for v a u using others [of v] t(2) by (cases "v = t") auto
  have rt: "reg m t = None" "reg ?m t = None" "reg ?m p = None" using t(2) n pt by (simp_all add: reg_def)
  have rg: "reg ?m u = reg m u" if "u \<noteq> p" for u
    using reg_other [of u t ?m m] rt that by (cases "u = t") auto
  have "held_by (log m) = None" using D(11) k(1) t by simp
  have wk: "woken ?m p" using n pt by (simp add: woken_def)
  have nox: "reg ?m u \<noteq> Some x" for u using rt(3) rg [of u] D(5) [OF k(4)] by (cases "u = p") auto
  have "mutex_ok ?m"
  proof (rule mutex_ok_inside [OF ok t(1), where l = Unlock_pop])
    show "loc_ok ?m u (loc m u)" if "u \<noteq> t" "loc_ok m u (loc m u)" "\<not> spins (loc m u)" for u
    proof (cases "u = p")
      case True
      then show ?thesis using n by simp
    next
      case False
      then show ?thesis by (intro loc_ok_outside [OF that(2,3)]) (use sched in auto)
    qed
    show "(\<exists>u. reg ?m u = Some a) \<or> Unlock_pop = Unlock_pop \<and> a = hd (waitqueue ?m)"
      if "a \<in> set (waitqueue ?m)" for a
    proof (cases "a = x")
      case False
      have no_pop: "loc m v \<noteq> Unlock_pop" for v using others [of v] t(2) by (cases "v = t") auto
      have "a \<in> set (waitqueue m)" using that by simp
      then obtain u where u: "reg m u = Some a" using D(6) no_pop by blast
      then have "u \<noteq> p" using k(4) False by auto
      then show ?thesis using u rg by metis
    qed (use k(3) in simp)
    show "loc_ok ?m t Unlock_pop" using k(1-3) nox wk by auto
    show "reg m u = Some a \<and> reg ?m t \<noteq> Some a" if "u \<noteq> t" "reg ?m u = Some a" for u a
      using that rt rg [of u] by (cases "u = p") auto
  qed (use D(3,4) D(8) [of t] t k rt \<open>held_by (log m) = None\<close> in \<open>auto split: if_splits\<close>)
  then show ?thesis using k(5) by simp
qed

text \<open>A task outside the spin lock works on its own waiter.\<close>

lemma mutex_ok_waiter:
  assumes ok: "mutex_ok m" and t: "t \<noteq> nullptr" "reg m t = Some x" "\<not> blocked m t" "\<not> spins (loc m t)"
    and m': "loc m' = (loc m)(t := l)" "spin m' = spin m" "waitqueue m' = waitqueue m" "owner m' = owner m" "log m' = log m"
      "\<And>n. n \<noteq> x \<Longrightarrow> cells m' n = cells m n" "cells m' x = Some t"
      "\<And>u. u \<noteq> t \<Longrightarrow> blocked m' u = blocked m u"
    and l: "\<not> spins l" "reg m' t = Some x" "loc_ok m' t l" "blocked m' t \<Longrightarrow> \<exists>n. l = Lock_parked n" "\<not> passing l"
      "cells m x = Some nullptr \<or> cells m x = Some t"
  shows "mutex_ok m'"
proof -
  note D = mutex_okD [OF ok]
  have rg: "reg m' u = reg m u" for u using reg_other [of u t m' m l] m' l(2) t(2) by (cases "u = t") auto
  have np: "\<not> passing (loc m t)" using t(4) by (cases "loc m t") auto
  have nw: "\<not> woken m t" "\<not> heading m t" using t(2-4) by (auto simp: woken_def heading_def reg_def)
  have wk: "woken m' u" "u \<noteq> t" if "woken m u" for u
    using that nw woken_other [of u t m' m l] m' by (cases "u = t"; auto)+
  have wk_ex: "\<exists>p. woken m p \<Longrightarrow> \<exists>p. woken m' p" using wk(1) by blast
  have hd: "heading m' u" if "heading m u" for u
    using that nw heading_other [of u t m' m l] m' by (cases "u = t") auto
  have same: "loc m' u = a \<longleftrightarrow> loc m u = a" if "spins a" for u a using that m'(1) l(1) t(4) by auto
  have ok_other: "loc_ok m' u (loc m u)" if u: "u \<noteq> t" for u
  proof -
    have nx: "reg m u \<noteq> Some x" using D(5) [OF t(2), of u] u by blast
    have ns: "p \<noteq> t \<or> cells m x = Some t" if "loc m u = Unlock_state x p \<or> loc m u = Unlock_cas x p" for p
      using that D(10) [of u] D(9) l(6) t(1) by auto
    have pt: "p = t" if "reg m p = Some x" for p using D(5) [OF t(2) that] by simp
    show ?thesis
    proof (cases "loc m u")
      case (Lock_parked n)
      have "cells m' k = cells m k"
        if "loc m u = Lock_park k \<or> loc m u = Lock_wait k \<or> loc m u = Lock_parked k \<and> blocked m u" for k
        using that Lock_parked nx m'(6) by (auto simp: reg_def)
      then show ?thesis
        by (intro loc_ok_outside [OF D(10)]) (use Lock_parked m'(8) [OF u] same in auto)
    next
      case (Unlock_state n p)
      then have k: "reg m p = Some n" "cells m n = Some p" using D(10) [of u] by auto
      have "cells m' n = Some p"
        using k m'(6,7) pt ns [of p] Unlock_state by (cases "n = x") auto
      then show ?thesis using Unlock_state D(10) [of u] m' rg by auto
    next
      case (Unlock_cas n p)
      then have k: "reg m p = Some n" "cells m n = Some p" "blocked m p" using D(10) [of u] by auto
      then have "n \<noteq> x" using pt t(3) by auto
      then show ?thesis using Unlock_cas D(10) [of u] m' rg k t(3) by (cases "p = t") auto
    next
      case (Unlock_sched n p)
      then have "blocked m p" using D(10) [of u] by auto
      then show ?thesis using Unlock_sched D(10) [of u] m' rg t(3) by (cases "p = t") auto
    next
      case Unlock_pop
      then show ?thesis using D(10) [of u] m' rg wk_ex by simp
    next
      case Unlock_clear
      then show ?thesis using D(10) [of u] m' wk_ex by simp
    qed (use D(10) [of u] u nx m' in \<open>auto simp: reg_def\<close>)
  qed
  show ?thesis
  proof (rule mutex_okI)
    show "loc_ok m' u (loc m' u)" for u using ok_other [of u] l(3) m'(1) by (cases "u = t") auto
    show "n \<in> set (waitqueue m') \<Longrightarrow> (\<exists>t. reg m' t = Some n) \<or> (\<exists>u. loc m' u = Unlock_pop) \<and> n = hd (waitqueue m')" for n
      using D(6) [of n] rg same [of Unlock_pop] m'(3) by auto
    show "waitqueue m' \<noteq> [] \<Longrightarrow> owner m' = nullptr \<Longrightarrow> \<exists>t. heading m' t" using D(7) hd m' by metis
    show "held_by (log m') = (if owner m' = nullptr \<or> passing (loc m' (owner m')) then None else Some (owner m'))"
      using D(11) m' l(5) np by auto
    show "\<exists>n. loc m' u = Lock_parked n" if "blocked m' u" for u
      using that D(8) [of u] l(4) m' by (cases "u = t") auto
    show "reg m' u = Some n \<Longrightarrow> reg m' v = Some n \<Longrightarrow> u = v" for u v n using D(5) rg by simp
    show "spin m' \<longleftrightarrow> (\<exists>t. spins (loc m' t))" using D(1) m' l(1) t(4) by (metis fun_upd_apply)
    show "spins (loc m' u) \<Longrightarrow> spins (loc m' v) \<Longrightarrow> u = v" for u v using D(2) m' l(1) by (auto split: if_splits)
    have "x \<in> dom (cells m)" using reg_dom [OF D(10) t(2)] .
    then have "dom (cells m') = dom (cells m)" using m'(6,7) by (metis (no_types, lifting) domIff option.distinct(1) subsetI subset_antisym)
    then show "dom (cells m') = set (waitqueue m')" using D(4) m'(3) by simp
  qed (use D(3,9) m' t in auto)
qed

lemma mutex_ok_park:
  assumes ok: "mutex_ok m" and t: "t \<noteq> nullptr" "loc m t = Lock_park x" "\<not> blocked m t"
  shows "cells m x = Some nullptr \<and> mutex_ok (jump t (Lock_wait x) (m\<lparr>cells := (cells m)(x \<mapsto> t)\<rparr>))"
proof -
  have "cells m x = Some nullptr" using mutex_okD(10) [OF ok, of t] t by simp
  moreover from this have "mutex_ok (jump t (Lock_wait x) (m\<lparr>cells := (cells m)(x \<mapsto> t)\<rparr>))"
    by (intro mutex_ok_waiter [OF ok t(1), where x = x and l = "Lock_wait x"]) (use t in \<open>auto simp: reg_def\<close>)
  ultimately show ?thesis by simp
qed

lemma mutex_ok_wait:
  assumes ok: "mutex_ok m" and t: "t \<noteq> nullptr" "loc m t = Lock_wait x" "\<not> blocked m t"
  shows "mutex_ok (jump t (Lock_parked x) (m\<lparr>blocked := (blocked m)(t := True)\<rparr>))"
proof -
  have "cells m x = Some t" using mutex_okD(10) [OF ok, of t] t by simp
  then show ?thesis
    by (intro mutex_ok_waiter [OF ok t(1), where x = x and l = "Lock_parked x"]) (use t in \<open>auto simp: reg_def\<close>)
qed

text \<open>The waiter that the head of the queue holds belongs to the task registered with it.\<close>

lemma mutex_ok_load:
  assumes ok: "mutex_ok m" and t: "t \<noteq> nullptr" "loc m t = Unlock_load" and x: "waitqueue m = x # xs"
    and p: "cells m x = Some p" "p \<noteq> nullptr"
  shows "mutex_ok (jump t (Unlock_state x p) m)"
proof -
  note D = mutex_okD [OF ok]
  have others: "\<not> spins (loc m u)" if "u \<noteq> t" for u using D(2) [of t u] t(2) that by auto
  have no_pop: "loc m v \<noteq> Unlock_pop" for v using others [of v] t(2) by (cases "v = t") auto
  have no_sched: "loc m v \<noteq> Unlock_sched a u" for v a u using others [of v] t(2) by (cases "v = t") auto
  obtain u where u: "reg m u = Some x" using D(6) [of x] x no_pop by auto
  have "u = p"
    using u D(10) [of u] p no_sched by (cases "loc m u") (auto simp: reg_def split: if_splits)
  then have "reg m p = Some x" using u by simp
  moreover have "reg (jump t (Unlock_state x p) m) p = reg m p"
    using calculation t(2) reg_other [of p t] by (cases "p = t") (auto simp: reg_def)
  ultimately show ?thesis
    using D(10) [of t] t x p D(8) [of t]
    by (intro mutex_ok_move [OF ok t(1)]) (auto simp: reg_def woken_def heading_def)
qed

section \<open>The mutex as a step system\<close>

lemma lock_step_ok:
  assumes ok: "mutex_ok m" and t: "t \<noteq> nullptr" "\<not> blocked m t" "\<not> in_unlock (loc m t)" and n: "cells m n = None"
  shows "(\<exists>m'. lock_step t n (loc m t) m = Ret () m' \<and> mutex_ok m' \<and> (log m' = log m \<or> lock_spec (log m) (log m')))
    \<or> idle m \<and> (\<exists>x. loc m t = Lock_wait x)"
proof -
  note D = mutex_okD [OF ok]
  note move = mutex_ok_move [OF ok t(1)]
  note defs = reg_def woken_def heading_def
  show ?thesis
  proof (cases "loc m t")
    case Lock_spin
    then show ?thesis using mutex_ok_acquire [OF ok t(1)] ok by (auto simp: spin_acquire_def)
  next
    case Lock_respin
    then show ?thesis using mutex_ok_acquire [OF ok t(1)] ok by (auto simp: spin_acquire_def)
  next
    case Lock_test
    then have "mutex_ok (jump t (if owner m \<noteq> nullptr then Lock_boost else Lock_own) m)"
      using t(2) by (intro move) (auto simp: defs split: if_splits)
    then show ?thesis using Lock_test by simp
  next
    case Lock_boost
    then have "mutex_ok (jump t Lock_boost_owner (m\<lparr>boost := boost m + 1\<rparr>))"
      using t(2) D(10) [of t] by (intro move) (auto simp: defs)
    then show ?thesis using Lock_boost by simp
  next
    case Lock_boost_owner
    then have "mutex_ok (jump t Lock_push (m\<lparr>task_boost := (task_boost m)(owner m := task_boost m (owner m) + 1)\<rparr>))"
      using t(2) D(10) [of t] by (intro move) (auto simp: defs)
    then show ?thesis using Lock_boost_owner D(10) [of t] by simp
  next
    case Lock_push
    then show ?thesis using mutex_ok_push [OF ok t(1) Lock_push n] by simp
  next
    case (Lock_release x)
    have "mutex_ok (jump t (Lock_park x) (m\<lparr>spin := False\<rparr>))"
      by (rule mutex_ok_release [OF ok t(1), where l = "Lock_park x"]) (use Lock_release in auto)
    then show ?thesis using Lock_release by (simp add: spin_release_def)
  next
    case (Lock_park x)
    then show ?thesis using mutex_ok_park [OF ok t(1) Lock_park t(2)] by simp
  next
    case (Lock_wait x)
    then show ?thesis using mutex_ok_wait [OF ok t(1) Lock_wait t(2)] by simp
  next
    case (Lock_parked x)
    then have "mutex_ok (jump t Lock_respin m)" using t(2) by (intro move) (auto simp: defs)
    then show ?thesis using Lock_parked by simp
  next
    case Lock_unboost
    then have "mutex_ok (jump t Lock_test (m\<lparr>boost := boost m - 1\<rparr>))" using t(2) by (intro move) (auto simp: defs)
    then show ?thesis using Lock_unboost by simp
  next
    case Lock_own
    then show ?thesis using mutex_ok_own [OF ok t(1) Lock_own] by simp
  next
    case Lock_prio
    then have "mutex_ok (jump t Lock_done (m\<lparr>task_boost := (task_boost m)(t := boost m)\<rparr>))"
      using t(2) D(10) [of t] by (intro move) (auto simp: defs)
    then show ?thesis using Lock_prio by simp
  next
    case Lock_done
    have "held_by (log m) = None" using D(10) [of t] D(11) Lock_done by simp
    moreover have "mutex_ok (jump t Out (m\<lparr>log := log m @ [Locked t], spin := False\<rparr>))"
      by (rule mutex_ok_release [OF ok t(1), where l = Out]) (use Lock_done in auto)
    ultimately show ?thesis using Lock_done by (simp add: spin_release_def spec_lock)
  qed (use ok t(3) in auto)
qed

lemma unlock_step_ok:
  assumes ok: "mutex_ok m" and t: "t \<noteq> nullptr" "\<not> blocked m t" "in_unlock (loc m t)"
  shows "\<exists>m'. (unlock_step t (loc m t) m = Ret () m'
      \<or> loc m t = Unlock_throw \<and> (\<exists>e. unlock_step t (loc m t) m = Throw e m'))
    \<and> mutex_ok m' \<and> (log m' = log m \<or> lock_spec (log m) (log m'))"
proof -
  note D = mutex_okD [OF ok]
  note move = mutex_ok_move [OF ok t(1)]
  note defs = reg_def woken_def heading_def
  show ?thesis
  proof (cases "loc m t")
    case Unlock_spin
    then show ?thesis using mutex_ok_acquire [OF ok t(1)] ok by (auto simp: spin_acquire_def)
  next
    case Unlock_check
    show ?thesis
    proof (cases "owner m = t")
      case True
      then show ?thesis using Unlock_check mutex_ok_accept [OF ok t(1) Unlock_check True] by (simp add: spec_unlock)
    next
      case False
      then have "mutex_ok (jump t Unlock_throw m)" using Unlock_check t(2) by (intro move) (auto simp: defs)
      then show ?thesis using Unlock_check False by simp
    qed
  next
    case Unlock_throw
    have "mutex_ok (jump t Out (m\<lparr>spin := False\<rparr>))"
      by (rule mutex_ok_release [OF ok t(1), where l = Out]) (use Unlock_throw in auto)
    then show ?thesis using Unlock_throw by simp
  next
    case Unlock_empty
    then have "mutex_ok (jump t (if waitqueue m = [] then Unlock_fast else Unlock_load) m)"
      using t(2) D(10) [of t] by (intro move) (auto simp: defs)
    then show ?thesis using Unlock_empty by simp
  next
    case Unlock_fast
    then show ?thesis using mutex_ok_fast [OF ok t(1) Unlock_fast] by simp
  next
    case Unlock_load
    obtain x xs where x: "waitqueue m = x # xs" using D(10) [of t] Unlock_load by (cases "waitqueue m") auto
    then obtain p where p: "cells m x = Some p" using D(4) by fastforce
    then show ?thesis
      using Unlock_load x ok mutex_ok_load [OF ok t(1) Unlock_load x p] by (cases "p = nullptr") auto
  next
    case (Unlock_state x p)
    have "mutex_ok (jump t (if blocked m p then Unlock_cas x p else Unlock_load) m)"
    proof -
      have "reg (jump t l m) p = reg m p" for l
        using D(10) [of t] Unlock_state reg_other [of p t _ m] by (cases "p = t") (auto simp: reg_def)
      then show ?thesis using Unlock_state t(2) D(10) [of t] by (intro move) (auto simp: reg_def woken_def heading_def)
    qed
    then show ?thesis using Unlock_state by simp
  next
    case (Unlock_cas x p)
    then show ?thesis using mutex_ok_cas [OF ok t(1) Unlock_cas] by simp
  next
    case (Unlock_sched x p)
    then show ?thesis using mutex_ok_sched [OF ok t(1) Unlock_sched] by simp
  next
    case Unlock_pop
    obtain x xs where x: "waitqueue m = x # xs" using D(10) [of t] Unlock_pop by (cases "waitqueue m") auto
    then show ?thesis using Unlock_pop mutex_ok_pop [OF ok t(1) Unlock_pop x] by simp
  next
    case Unlock_clear
    then show ?thesis using mutex_ok_clear [OF ok t(1) Unlock_clear] by simp
  next
    case Unlock_prio
    then have "mutex_ok (jump t Unlock_release (m\<lparr>task_boost := (task_boost m)(t := 0)\<rparr>))"
      using t(2) D(10) [of t] by (intro move) (auto simp: defs)
    then show ?thesis using Unlock_prio by simp
  next
    case Unlock_release
    have "mutex_ok (jump t Out (m\<lparr>spin := False\<rparr>))"
      by (rule mutex_ok_release [OF ok t(1), where l = Out]) (use Unlock_release in auto)
    then show ?thesis using Unlock_release by (simp add: spin_release_def)
  qed (use t(3) in auto)
qed

lemma mutex_step_ok:
  assumes ok: "mutex_ok m" and n: "cells m n = None"
  shows "(\<exists>m'. (mutex_step t n m = Ret () m' \<or> loc m t = Unlock_throw \<and> (\<exists>e. mutex_step t n m = Throw e m'))
      \<and> mutex_ok m' \<and> (log m' = log m \<or> lock_spec (log m) (log m')))
    \<or> \<not> blocked m t \<and> idle m \<and> (\<exists>x. loc m t = Lock_wait x)"
proof (cases "blocked m t \<or> t = nullptr")
  case True
  then have "mutex_step t n m = Ret () m"
    using mutex_okD(9) [OF ok] by (auto simp: mutex_step_def)
  then show ?thesis using ok by auto
next
  case False
  then show ?thesis
    using lock_step_ok [OF ok _ _ _ n, of t] unlock_step_ok [OF ok, of t]
    by (cases "in_unlock (loc m t)") (fastforce simp: mutex_step_def)+
qed

lemma mutex_ok_trans:
  assumes ok: "mutex_ok m" and t: "mutex_trans m m'"
  shows "mutex_ok m' \<and> (log m' = log m \<or> lock_spec (log m) (log m'))"
  using t
proof cases
  case (mutex_call t l)
  have "mutex_ok (jump t l m)"
    by (rule mutex_ok_move [OF ok mutex_call(3)])
      (use mutex_call mutex_okD(8) [OF ok, of t] in \<open>auto simp: reg_def woken_def heading_def\<close>)
  then show ?thesis using mutex_call by simp
next
  case (mutex_access t n)
  then show ?thesis using mutex_step_ok [OF ok mutex_access(2), of t] by (auto simp: mutex_step_def)
next
  case (mutex_raise t n e)
  then show ?thesis using mutex_step_ok [OF ok mutex_raise(2), of t] by (auto simp: mutex_step_def)
next
  case (mutex_idle i)
  then show ?thesis using ok by (simp add: mutex_ok_idle)
qed

interpretation mx: refinement_system "\<lambda>m. m = mutex_init" mutex_trans mutex_ok log lock_spec
proof (unfold_locales, goal_cases)
  case (1 m)
  then show ?case using mutex_ok_init by simp
qed (use mutex_ok_trans in blast)+

end
