(* ===== verification/Mutex_Props.thy ===== *)
theory Mutex_Props
  imports Mutex_Inv
begin

text \<open>
  The properties of the mutex: mutual exclusion as a refinement of the abstract lock, its failures,
  which are the error of a foreign \<open>unlock()\<close> and that of a lone \<open>lock()\<close>, no lost waiter, freedom from deadlock, and the
  uncontended path; and the boost that a task keeps after it has released the mutex.
\<close>

section \<open>Definitions\<close>

text \<open>A schedule of calls, accesses and changes of the rest of the program; the new list nodes are taken from \<open>n\<close>, \<open>n + 1\<close> and so on.\<close>

datatype mutex_sched = Do_lock addr | Do_unlock addr | Do addr | Alone bool

fun mutex_run :: "addr \<Rightarrow> mutex_sched list \<Rightarrow> mutex \<Rightarrow> mutex option" where
  "mutex_run n [] m = Some m"
| "mutex_run n (Do_lock t # es) m =
     (if loc m t = Out \<and> t \<noteq> nullptr then mutex_run n es (jump t Lock_spin m) else None)"
| "mutex_run n (Do_unlock t # es) m =
     (if loc m t = Out \<and> t \<noteq> nullptr then mutex_run n es (jump t Unlock_spin m) else None)"
| "mutex_run n (Do t # es) m =
     (if cells m n \<noteq> None then None
      else case mutex_step t n m of
             Ret _ m' \<Rightarrow> mutex_run (if cells m' n = None then n else n + 1) es m'
           | _ \<Rightarrow> None)"
| "mutex_run n (Alone i # es) m = mutex_run n es (m\<lparr>idle := i\<rparr>)"

text \<open>A whole call of task \<open>t\<close> that takes \<open>k\<close> accesses.\<close>

definition lock_for :: "addr \<Rightarrow> nat \<Rightarrow> mutex_sched list" where
  "lock_for t k = Do_lock t # replicate k (Do t)"

definition unlock_for :: "addr \<Rightarrow> nat \<Rightarrow> mutex_sched list" where
  "unlock_for t k = Do_unlock t # replicate k (Do t)"

text \<open>An access that is not another round of a busy-waiting loop.\<close>

definition productive :: "mutex \<Rightarrow> addr \<Rightarrow> bool" where
  "productive m u \<longleftrightarrow>
     \<not> blocked m u \<and>
     (case loc m u of
        Out \<Rightarrow> False
      | Lock_spin \<Rightarrow> \<not> spin m
      | Lock_respin \<Rightarrow> \<not> spin m
      | Unlock_spin \<Rightarrow> \<not> spin m
      | Unlock_load \<Rightarrow> (case cells m (hd (waitqueue m)) of None \<Rightarrow> False | Some p \<Rightarrow> p \<noteq> nullptr \<and> blocked m p)
      | Unlock_state _ p \<Rightarrow> blocked m p
      | _ \<Rightarrow> True)"

text \<open>
  Task 1 takes the mutex, task 2 waits for it, and is woken by \<open>unlock()\<close>; before it runs, task 1
  takes the mutex again and releases it; then task 2 takes and releases it.
\<close>

definition boost_schedule :: "mutex_sched list" where
  "boost_schedule =
     lock_for 1 5 @ lock_for 2 8 @ unlock_for 1 11 @ lock_for 1 5 @ unlock_for 1 5
       @ replicate 7 (Do 2) @ unlock_for 2 5"

section \<open>Reachable states\<close>

lemma mutex_run_reach: "mutex_run n es m = Some m' \<Longrightarrow> mutex_trans\<^sup>*\<^sup>* m m'"
proof (induction n es m rule: mutex_run.induct)
  case (2 n t es m)
  then show ?case
    by (auto split: if_splits intro: converse_rtranclp_into_rtranclp [of mutex_trans] mutex_call)
next
  case (3 n t es m)
  then show ?case
    by (auto split: if_splits intro: converse_rtranclp_into_rtranclp [of mutex_trans] mutex_call)
next
  case (4 n t es m)
  then show ?case
    by (auto split: if_splits outcome.splits intro: converse_rtranclp_into_rtranclp [of mutex_trans] mutex_access)
next
  case (5 n i es m)
  then show ?case using mutex_idle [of m i] by (auto intro: converse_rtranclp_into_rtranclp [of mutex_trans])
qed simp_all

lemmas mutex_reach = mx.inv_reach [OF refl]

lemmas mutex_eval = mutex_init_def mutex_step_def jump_def spin_acquire_def spin_release_def

text \<open>
  C6. Mutual exclusion: under every interleaving of any number of tasks the calls of \<open>lock()\<close> that
  have returned and the accepted calls of \<open>unlock()\<close> form a history of the abstract lock, in which
  only a free lock is acquired and only its holder releases it; and its holder is the \<open>_owner\<close>.
\<close>

theorem mutex_mutual_exclusion:
  assumes "mutex_trans\<^sup>*\<^sup>* mutex_init m"
  shows "lock_spec\<^sup>*\<^sup>* [] (log m) \<and> (held_by (log m) = None \<or> held_by (log m) = Some (owner m))"
proof -
  have "lock_spec\<^sup>*\<^sup>* (log mutex_init) (log m)" by (rule mx.refines_reach [OF refl assms])
  then show ?thesis using mutex_okD(11) [OF mutex_reach [OF assms]] by (simp add: mutex_init_def)
qed

lemma lock_once: "\<exists>m. mutex_run 16 (lock_for 1 5) mutex_init = Some m \<and> log m = [Locked 1] \<and> owner m = 1
    \<and> loc m 1 = Out \<and> \<not> blocked m 2 \<and> loc m 2 = Out"
  by (simp add: lock_for_def mutex_eval numeral_eq_Suc)

theorem mutex_mutual_exclusion_witness:
  "\<exists>m. mutex_trans\<^sup>*\<^sup>* mutex_init m \<and> log m = [Locked 1] \<and> lock_spec\<^sup>*\<^sup>* [] (log m) \<and> held_by (log m) = Some (owner m)"
proof -
  obtain m where m: "mutex_run 16 (lock_for 1 5) mutex_init = Some m" "log m = [Locked 1]"
    using lock_once by blast
  show ?thesis
    using mutex_mutual_exclusion [OF mutex_run_reach [OF m(1)]] mutex_run_reach [OF m(1)] m(2)
    by (intro exI [of _ m]) (auto simp: held_by_def)
qed

text \<open>
  C20. What can go wrong in the mutex. Until \<open>lock()\<close> throws no access fails: waiters are alive when they
  are touched, \<open>park\<close> always succeeds and a task that is unparked waits, as the code asserts. There
  are two exceptions. The \<open>logic_error\<close> of an \<open>unlock()\<close> by a task that does not own the mutex releases
  the spin lock and leaves the owner, the queue and the waiters as they were. The \<open>runtime_error\<close> of
  \<open>sched::yield()\<close> leaves \<open>lock()\<close> exactly when the task is about to wait and nothing else can run,
  as when a task locks its own mutex again and is alone; it leaves a waiter that holds the caller in
  the queue, and the caller \<open>WAITING\<close> although it runs.
\<close>

theorem mutex_failures:
  assumes "mutex_trans\<^sup>*\<^sup>* mutex_init m" and "cells m n = None"
  shows "if loc m t = Unlock_throw then
       \<exists>m'. mutex_step t n m = Throw (Logic_error ''unlock called from context other than the owner's'') m'
         \<and> owner m \<noteq> t \<and> owner m' = owner m \<and> waitqueue m' = waitqueue m \<and> cells m' = cells m
         \<and> \<not> spin m' \<and> loc m' t = Out
     else if idle m \<and> (\<exists>x. loc m t = Lock_wait x) then
       \<exists>m' x. mutex_step t n m = Throw (Runtime_error ''nothing to do. deadlock?'') m'
         \<and> loc m t = Lock_wait x \<and> loc m' t = Out \<and> blocked m' t \<and> x \<in> set (waitqueue m')
         \<and> cells m' x = Some t \<and> owner m' = owner m \<and> spin m' = spin m
     else \<exists>m'. mutex_step t n m = Ret () m'"
proof -
  have ok: "mutex_ok m" by (rule mutex_reach [OF assms(1)])
  note D = mutex_okD(4,8,10) [OF ok]
  show ?thesis
  proof (cases "loc m t = Unlock_throw \<or> idle m \<and> (\<exists>x. loc m t = Lock_wait x)")
    case True
    then show ?thesis using D(1) D(2,3) [of t] by (auto simp: mutex_step_def)
  next
    case False
    then show ?thesis using mutex_step_ok [OF ok assms(2), of t] by auto
  qed
qed

text \<open>Task 1 locks the mutex, and again when it is alone.\<close>

lemma relock_alone:
  "\<exists>m m'. mutex_run 16 (lock_for 1 5 @ lock_for 1 7 @ [Alone True]) mutex_init = Some m \<and> owner m = 1 \<and> cells m 17 = None
     \<and> mutex_step 1 17 m = Throw (Runtime_error ''nothing to do. deadlock?'') m'"
  by (simp add: lock_for_def mutex_eval numeral_eq_Suc)

theorem mutex_failures_witness:
  "(\<exists>m m'. mutex_trans\<^sup>*\<^sup>* mutex_init m \<and> owner m = 1
     \<and> mutex_step 2 16 m = Throw (Logic_error ''unlock called from context other than the owner's'') m'
     \<and> owner m' = 1 \<and> \<not> spin m')
   \<and> (\<exists>m m' x. mutex_trans\<^sup>*\<^sup>* mutex_init m \<and> owner m = 1
     \<and> mutex_step 1 17 m = Throw (Runtime_error ''nothing to do. deadlock?'') m'
     \<and> cells m' x = Some 1 \<and> x \<in> set (waitqueue m'))"
proof
  obtain m where m: "mutex_run 16 (lock_for 1 5 @ unlock_for 2 2) mutex_init = Some m" "owner m = 1"
      "loc m 2 = Unlock_throw" "\<not> blocked m 2" "cells m 16 = None"
    by (simp add: lock_for_def unlock_for_def mutex_eval numeral_eq_Suc)
  have "\<nexists>m'. mutex_step 2 16 m = Ret () m'" using m by (simp add: mutex_step_def)
  then show "\<exists>m m'. mutex_trans\<^sup>*\<^sup>* mutex_init m \<and> owner m = 1
     \<and> mutex_step 2 16 m = Throw (Logic_error ''unlock called from context other than the owner's'') m'
     \<and> owner m' = 1 \<and> \<not> spin m'"
    using mutex_failures [OF mutex_run_reach [OF m(1)] m(5), of 2] mutex_run_reach [OF m(1)] m(2,3) by auto
next
  obtain m m' where m: "mutex_run 16 (lock_for 1 5 @ lock_for 1 7 @ [Alone True]) mutex_init = Some m" "owner m = 1"
      "cells m 17 = None" "mutex_step 1 17 m = Throw (Runtime_error ''nothing to do. deadlock?'') m'"
    using relock_alone by blast
  show "\<exists>m m' x. mutex_trans\<^sup>*\<^sup>* mutex_init m \<and> owner m = 1
     \<and> mutex_step 1 17 m = Throw (Runtime_error ''nothing to do. deadlock?'') m'
     \<and> cells m' x = Some 1 \<and> x \<in> set (waitqueue m')"
    using mutex_failures [OF mutex_run_reach [OF m(1)] m(3), of 1] mutex_run_reach [OF m(1)] m(2,4)
    by (auto split: if_splits)
qed

text \<open>
  C19. No waiter is lost: a task that waits in \<open>lock()\<close> has its waiter in the queue, holding the task
  unless an \<open>unlock()\<close> is about to make it runnable; and as long as a waiter is queued the mutex is
  owned, so that an \<open>unlock()\<close> will come, or a task that has been woken is on its way to it.
\<close>

theorem mutex_no_lost_waiter:
  assumes "mutex_trans\<^sup>*\<^sup>* mutex_init m" and "blocked m t"
  shows "\<exists>n. n \<in> set (waitqueue m) \<and> (cells m n = Some t \<or> (\<exists>u. loc m u = Unlock_sched n t))
     \<and> (owner m \<noteq> nullptr \<or> (\<exists>u. heading m u \<and> \<not> blocked m u))"
proof -
  note D = mutex_okD [OF mutex_reach [OF assms(1)]]
  obtain n where n: "loc m t = Lock_parked n" using D(8) assms(2) by blast
  then have "n \<in> set (waitqueue m)" "cells m n = Some t \<or> (\<exists>u. loc m u = Unlock_sched n t)"
    using D(4) D(10) [of t] assms(2) by auto
  moreover have "owner m \<noteq> nullptr \<or> (\<exists>u. heading m u)" using D(7) calculation(1) by fastforce
  moreover have "\<not> blocked m u" if "heading m u" for u
    using that D(8) [of u] by (auto simp: heading_def woken_def)
  ultimately show ?thesis by blast
qed

lemma lock_contended:
  "\<exists>m. mutex_run 16 (lock_for 1 5 @ lock_for 2 8) mutex_init = Some m \<and> blocked m 2 \<and> owner m = 1
     \<and> loc m 1 = Out \<and> loc m 2 = Lock_parked 16"
  by (simp add: lock_for_def mutex_eval numeral_eq_Suc)

theorem mutex_no_lost_waiter_witness:
  "\<exists>m n. mutex_trans\<^sup>*\<^sup>* mutex_init m \<and> blocked m 2 \<and> owner m = 1 \<and> n \<in> set (waitqueue m)"
proof -
  obtain m where m: "mutex_run 16 (lock_for 1 5 @ lock_for 2 8) mutex_init = Some m" "blocked m 2" "owner m = 1"
    using lock_contended by blast
  show ?thesis
    using mutex_no_lost_waiter [OF mutex_run_reach [OF m(1)] m(2)] mutex_run_reach [OF m(1)] m(2,3) by blast
qed

lemma productive_inside:
  assumes "mutex_ok m" and "spins (loc m u)"
  shows "\<exists>v. productive m v"
proof -
  note D = mutex_okD [OF assms(1)]
  have b: "\<not> blocked m u" using D(8) [of u] assms(2) by auto
  have others: "\<not> spins (loc m v)" if "v \<noteq> u" for v using D(2) [of u v] assms(2) that by auto
  have head: "\<exists>v. productive m v" if l: "loc m u = Unlock_load \<or> (\<exists>n p. loc m u = Unlock_state n p)"
  proof -
    have q: "waitqueue m \<noteq> []" using D(10) [of u] l by auto
    have no: "loc m v \<noteq> Unlock_pop" "loc m v \<noteq> Unlock_sched a w" "loc m v \<noteq> Lock_release a" for v a w
      using others [of v] l by (cases "v = u"; auto)+
    obtain v where v: "reg m v = Some (hd (waitqueue m))" using D(6) [of "hd (waitqueue m)"] q no(1) by auto
    then consider n where "loc m v = Lock_park n \<or> loc m v = Lock_wait n"
      | "loc m v = Lock_parked (hd (waitqueue m))" "blocked m v"
      using no(3) by (cases "loc m v") (auto simp: reg_def split: if_splits)
    then show ?thesis
    proof cases
      case 1
      then have "productive m v" using D(8) [of v] by (auto simp: productive_def)
      then show ?thesis by blast
    next
      case 2
      then have c: "cells m (hd (waitqueue m)) = Some v" using D(10) [of v] no(2) by auto
      have "v \<noteq> nullptr" using 2 D(9) by auto
      then have "productive m u" using c 2 l b D(10) [of u] by (auto simp: productive_def)
      then show ?thesis by blast
    qed
  qed
  show ?thesis
  proof (cases "loc m u = Unlock_load \<or> (\<exists>n p. loc m u = Unlock_state n p)")
    case False
    then have "productive m u" using b assms(2) by (cases "loc m u") (auto simp: productive_def)
    then show ?thesis by blast
  qed (rule head)
qed

text \<open>
  C18. The mutex does not deadlock: while any task is inside \<open>lock()\<close> or \<open>unlock()\<close>, some task can
  make an access that is not another round of a waiting loop, unless the mutex is held by a task
  that is in user code, or that waits for the mutex it already holds.
\<close>

theorem mutex_deadlock_free:
  assumes "mutex_trans\<^sup>*\<^sup>* mutex_init m" and "loc m t \<noteq> Out"
  shows "(\<exists>u. productive m u)
    \<or> owner m \<noteq> nullptr \<and> (loc m (owner m) = Out \<or> blocked m (owner m))"
proof -
  have ok: "mutex_ok m" by (rule mutex_reach [OF assms(1)])
  note D = mutex_okD [OF ok]
  have free: "productive m u" if "loc m u \<noteq> Out" "\<not> spins (loc m u)" "\<not> spin m" "\<not> blocked m u" for u
    using that by (cases "loc m u") (auto simp: productive_def)
  show ?thesis
  proof (cases "spin m")
    case True
    then show ?thesis using D(1) productive_inside [OF ok] by blast
  next
    case False
    then have ns: "\<not> spins (loc m u)" for u using D(1) by blast
    show ?thesis
    proof (cases "blocked m t")
      case False
      then show ?thesis using free [OF assms(2) ns \<open>\<not> spin m\<close>] by blast
    next
      case True
      obtain n where "n \<in> set (waitqueue m)"
        using mutex_okD(8,10) [OF ok, of t] D(4) True by auto
      then have "owner m \<noteq> nullptr \<or> (\<exists>u. heading m u)" using D(7) by fastforce
      then show ?thesis
      proof
        assume "\<exists>u. heading m u"
        then obtain u where u: "heading m u" by blast
        then have "loc m u \<noteq> Out" "\<not> blocked m u"
          using D(8) [of u] by (auto simp: heading_def woken_def)
        then show ?thesis using free [OF _ ns \<open>\<not> spin m\<close>] by blast
      next
        assume "owner m \<noteq> nullptr"
        then show ?thesis using free [OF _ ns \<open>\<not> spin m\<close>, of "owner m"] by blast
      qed
    qed
  qed
qed

theorem mutex_deadlock_free_witness:
  "\<exists>m. mutex_trans\<^sup>*\<^sup>* mutex_init m \<and> loc m 2 = Lock_parked 16
     \<and> ((\<exists>u. productive m u) \<or> owner m \<noteq> nullptr \<and> (loc m (owner m) = Out \<or> blocked m (owner m)))"
proof -
  obtain m where m: "mutex_run 16 (lock_for 1 5 @ lock_for 2 8) mutex_init = Some m" "loc m 2 = Lock_parked 16"
    using lock_contended by blast
  then have "loc m 2 \<noteq> Out" by simp
  from mutex_deadlock_free [OF mutex_run_reach [OF m(1)] this] mutex_run_reach [OF m(1)] m(2) show ?thesis by blast
qed

text \<open>
  The uncontended path terminates: from any state in which nobody is inside the mutex, \<open>lock()\<close>
  returns after five accesses with the caller as the owner, and \<open>unlock()\<close> after another five with
  the mutex free again.
\<close>

theorem uncontended_lock_unlock:
  assumes "t \<noteq> nullptr" and "loc m t = Out" and "\<not> blocked m t" and "\<not> spin m" and "owner m = nullptr"
    and "waitqueue m = []" and "cells m n = None"
  shows "\<exists>m1 m2. mutex_run n (lock_for t 5) m = Some m1 \<and> loc m1 t = Out \<and> owner m1 = t \<and> \<not> spin m1
     \<and> mutex_run n (unlock_for t 5) m1 = Some m2 \<and> loc m2 t = Out \<and> owner m2 = nullptr \<and> \<not> spin m2
     \<and> log m2 = log m @ [Locked t, Unlocked t]"
  using assms by (simp add: lock_for_def unlock_for_def mutex_eval numeral_eq_Suc)

theorem uncontended_lock_unlock_witness:
  "\<exists>m1 m2. mutex_run 16 (lock_for 1 5) mutex_init = Some m1 \<and> owner m1 = 1
     \<and> mutex_run 16 (unlock_for 1 5) m1 = Some m2 \<and> owner m2 = nullptr"
  using uncontended_lock_unlock [of 1 mutex_init 16] by (auto simp: mutex_init_def)

text \<open>
  A task may keep a priority boost after it has released the mutex: \<open>unlock()\<close> resets the boost
  only when the queue is not empty. A task that takes the mutex while a woken one is still counted
  gets its boost, and keeps it when it unlocks on the fast path; at the end nobody owns or waits for
  the mutex and the boost is still there.
\<close>

theorem mutex_leaves_boost:
  "\<exists>m. mutex_trans\<^sup>*\<^sup>* mutex_init m \<and> (\<forall>t. loc m t = Out) \<and> owner m = nullptr \<and> waitqueue m = []
     \<and> boost m = 0 \<and> task_boost m 1 = 1"
proof -
  obtain m where m: "mutex_run 16 boost_schedule mutex_init = Some m" "\<forall>t. loc m t = Out" "owner m = nullptr"
      "waitqueue m = []" "boost m = 0" "task_boost m 1 = 1"
    by (simp add: boost_schedule_def lock_for_def unlock_for_def mutex_eval numeral_eq_Suc)
  then show ?thesis using mutex_run_reach [OF m(1)] by blast
qed

end
