(* ===== verification/Channel_Window.thy ===== *)
theory Channel_Window
  imports Waiter
begin

text \<open>
  The window behind unbuffered channels (\<open>concur/internal/channel_window.h\<close>,
  \<open>channel_window_impl.h\<close>), one access at a time, for one reading and one writing task. A read
  publishes the address of its local result in \<open>_reader\<close> and a write emplaces its value there.

  The state extends that of the waiter \<open>_waiter\<close>. \<open>ret_at\<close> is the address of the result \<open>ret\<close> of
  the read under way, null when there is none: \<open>_reader\<close> is a dangling pointer when it is another
  address. \<open>sent\<close> are the values emplaced, \<open>got\<close> those returned by \<open>read\<close>, \<open>accepted\<close> those whose
  \<open>write\<close> has returned an empty optional and \<open>refused\<close> those returned to their writer.
\<close>

section \<open>Definitions\<close>

text \<open>What a call does after its wake-up loop.\<close>

datatype 'a cw_after = After_read | After_write 'a | After_close

datatype 'a cw_pc =
    Idle "'a option"
  | Gone
  | Rd_assert
  | Rd_set
  | Rd_closed
  | Rd_cas
  | Rd_check
  | Rd_leave
  | Rd_wait
  | Rd_parked
  | Rd_load
  | Rd_state side
  | Rd_swap side
  | Rd_switch side
  | Rd_return
  | Wr_closed 'a
  | Wr_cas 'a
  | Wr_check 'a
  | Wr_leave 'a
  | Wr_wait 'a
  | Wr_parked 'a
  | Wr_drop 'a
  | Wr_assert 'a
  | Wr_emplace 'a
  | Wr_reset 'a
  | Wr_load 'a
  | Wr_state 'a side
  | Wr_swap 'a side
  | Wr_switch 'a side
  | Wr_test 'a
  | Wr_peek 'a
  | Wr_hand 'a
  | Wr_unset 'a
  | Wr_return 'a
  | Cl_store
  | Cl_reset
  | Wake_test "'a cw_after"
  | Wake_load "'a cw_after"
  | Wake_state "'a cw_after" side
  | Wake_cas "'a cw_after" side
  | Wake_sched "'a cw_after" side

record 'a channel_window = "'a cw_pc parking" +
  reader :: addr
  closed :: bool
  ret_at :: addr
  ret :: "'a option"
  sent :: "'a list"
  got :: "'a list"
  accepted :: "'a list"
  refused :: "'a list"

text \<open>The constructor, with no call under way.\<close>

definition cw_init :: "'a channel_window" where
  "cw_init =
     \<lparr>stalled = None, waiting = (\<lambda>_. False), pc = (\<lambda>_. Idle None), idle = False, reader = nullptr, closed = False,
      ret_at = nullptr, ret = None, sent = [], got = [], accepted = [], refused = []\<rparr>"

fun finish :: "'a cw_after \<Rightarrow> 'a cw_pc" where
  "finish After_read = Rd_return"
| "finish (After_write u) = Wr_return u"
| "finish After_close = Gone"

text \<open>\<open>channel_window::read\<close>; each round of its loop tests \<open>_closed\<close>, tries to park, and tries to swap. An exception destroys its result.\<close>

fun read_step :: "'a cw_pc \<Rightarrow> 'a channel_window \<Rightarrow> (unit, 'a channel_window) outcome" where
  "read_step Rd_assert w =
     (if reader w \<noteq> nullptr then Crash Assert_failed else Ret () (goto Reader Rd_set w))"
| "read_step Rd_set w = Ret () (goto Reader Rd_closed (w\<lparr>reader := ret_at w\<rparr>))"
| "read_step Rd_closed w = Ret () (goto Reader (if closed w then Rd_return else Rd_cas) w)"
| "read_step Rd_cas w = park_cas Reader Rd_check Rd_load w"
| "read_step Rd_check w = park_check Reader (\<not> closed w) Rd_leave Rd_wait w"
| "read_step Rd_leave w = park_leave Reader Rd_load w"
| "read_step Rd_wait w =
     (case park_wait Reader Rd_parked (Idle None) w of
        Throw e w1 \<Rightarrow> Throw e (w1\<lparr>ret_at := nullptr\<rparr>)
      | r \<Rightarrow> r)"
| "read_step Rd_parked w =
     (if reader w \<noteq> nullptr then Crash Assert_failed
      else Ret () (goto Reader (Wake_test After_read) w))"
| "read_step Rd_load w = wake_load Reader Rd_closed Rd_state w"
| "read_step (Rd_state p) w = wake_state Reader p Rd_closed (Rd_swap p) w"
| "read_step (Rd_swap p) w = swap_cas Reader p Rd_closed (Rd_switch p) w"
| "read_step (Rd_switch p) w = swap_switch Reader p Rd_return w"
| "read_step Rd_return w =
     Ret () (goto Reader (Idle (ret w))
       (w\<lparr>got := got w @ (case ret w of None \<Rightarrow> [] | Some x \<Rightarrow> [x]), ret_at := nullptr\<rparr>))"
| "read_step l w = Ret () w"

text \<open>\<open>_reader->emplace(std::move(t))\<close>, a write of \<open>_reader\<close>, and the return of a refused value.\<close>

definition emplace :: "'a \<Rightarrow> 'a cw_pc \<Rightarrow> 'a channel_window \<Rightarrow> (unit, 'a channel_window) outcome" where
  "emplace u l w =
     (if reader w = nullptr \<or> reader w \<noteq> ret_at w then Crash Bad_pointer
      else Ret () (goto Writer l (w\<lparr>ret := Some u, sent := sent w @ [u]\<rparr>)))"

definition reset_reader :: "side \<Rightarrow> 'a cw_pc \<Rightarrow> 'a channel_window \<Rightarrow> (unit, 'a channel_window) outcome" where
  "reset_reader s l w = Ret () (goto s l (w\<lparr>reader := nullptr\<rparr>))"

definition refuse :: "'a \<Rightarrow> 'a channel_window \<Rightarrow> 'a channel_window" where
  "refuse u w = goto Writer (Idle (Some u)) (w\<lparr>refused := refused w @ [u]\<rparr>)"

text \<open>\<open>channel_window::write\<close>, with the branch of a writer that was parked and that of one that meets a parked reader.\<close>

fun write_step :: "'a cw_pc \<Rightarrow> 'a channel_window \<Rightarrow> (unit, 'a channel_window) outcome" where
  "write_step (Wr_closed u) w = Ret () (if closed w then refuse u w else goto Writer (Wr_cas u) w)"
| "write_step (Wr_cas u) w = park_cas Writer (Wr_check u) (Wr_test u) w"
| "write_step (Wr_check u) w = park_check Writer (\<not> closed w) (Wr_leave u) (Wr_wait u) w"
| "write_step (Wr_leave u) w = park_leave Writer (Wr_test u) w"
| "write_step (Wr_wait u) w = park_wait Writer (Wr_parked u) (Idle None) w"
| "write_step (Wr_parked u) w = Ret () (goto Writer (if closed w then Wr_drop u else Wr_assert u) w)"
| "write_step (Wr_drop u) w = Ret () (refuse u (w\<lparr>reader := nullptr\<rparr>))"
| "write_step (Wr_assert u) w =
     (if reader w = nullptr then Crash Assert_failed else Ret () (goto Writer (Wr_emplace u) w))"
| "write_step (Wr_emplace u) w = emplace u (Wr_reset u) w"
| "write_step (Wr_reset u) w = reset_reader Writer (Wr_load u) w"
| "write_step (Wr_load u) w = wake_load Writer (Wr_load u) (Wr_state u) w"
| "write_step (Wr_state u p) w = wake_state Writer p (Wr_load u) (Wr_swap u p) w"
| "write_step (Wr_swap u p) w = swap_cas Writer p (Wr_load u) (Wr_switch u p) w"
| "write_step (Wr_switch u p) w = swap_switch Writer p (Wr_return u) w"
| "write_step (Wr_test u) w = wake_test Writer (Wr_closed u) (Wr_peek u) w"
| "write_step (Wr_peek u) w =
     Ret () (goto Writer (if reader w \<noteq> nullptr then Wr_hand u else Wr_closed u) w)"
| "write_step (Wr_hand u) w = emplace u (Wr_unset u) w"
| "write_step (Wr_unset u) w = reset_reader Writer (Wake_test (After_write u)) w"
| "write_step (Wr_return u) w = Ret () (goto Writer (Idle None) (w\<lparr>accepted := accepted w @ [u]\<rparr>))"
| "write_step l w = Ret () w"

text \<open>
  \<open>channel_window::close\<close>, by either side, and the loop
  \<open>while (_waiter && !_waiter.unpark()) gthread::self::yield()\<close> of all three operations.
\<close>

fun close_step :: "side \<Rightarrow> 'a cw_pc \<Rightarrow> 'a channel_window \<Rightarrow> (unit, 'a channel_window) outcome" where
  "close_step s Cl_store w = Ret () (goto s Cl_reset (w\<lparr>closed := True\<rparr>))"
| "close_step s Cl_reset w = reset_reader s (Wake_test After_close) w"
| "close_step s (Wake_test k) w = wake_test s (finish k) (Wake_load k) w"
| "close_step s (Wake_load k) w = wake_load s (Wake_test k) (Wake_state k) w"
| "close_step s (Wake_state k p) w = wake_state s p (Wake_test k) (Wake_cas k p) w"
| "close_step s (Wake_cas k p) w = wake_cas s p (Wake_test k) (Wake_sched k p) w"
| "close_step s (Wake_sched k p) w = wake_sched s p (finish k) w"
| "close_step s l w = Ret () w"

fun in_close :: "'a cw_pc \<Rightarrow> bool" where
  "in_close Cl_store = True"
| "in_close Cl_reset = True"
| "in_close (Wake_test _) = True"
| "in_close (Wake_load _) = True"
| "in_close (Wake_state _ _) = True"
| "in_close (Wake_cas _ _) = True"
| "in_close (Wake_sched _ _) = True"
| "in_close _ = False"

text \<open>One access of the task of one side; a waiting task and a task outside a call do nothing.\<close>

definition cw_step :: "side \<Rightarrow> 'a channel_window \<Rightarrow> (unit, 'a channel_window) outcome" where
  "cw_step s w =
     (if waiting w s then Ret () w
      else if in_close (pc w s) then close_step s (pc w s) w
      else (case s of Reader \<Rightarrow> read_step (pc w s) w | Writer \<Rightarrow> write_step (pc w s) w))"

text \<open>
  The calls; a read gets the address of its local result. The steps of the system are those that
  return: an exception ends the program's use of the window.
\<close>

datatype 'a cw_call = Call_read addr | Call_write 'a | Call_close side

fun cw_begin :: "'a cw_call \<Rightarrow> 'a channel_window \<Rightarrow> 'a channel_window option" where
  "cw_begin (Call_read a) w =
     (case pc w Reader of
        Idle _ \<Rightarrow> if a = nullptr then None else Some (goto Reader Rd_assert (w\<lparr>ret_at := a, ret := None\<rparr>))
      | _ \<Rightarrow> None)"
| "cw_begin (Call_write u) w =
     (case pc w Writer of Idle _ \<Rightarrow> Some (goto Writer (Wr_closed u) w) | _ \<Rightarrow> None)"
| "cw_begin (Call_close s) w =
     (case pc w s of Idle _ \<Rightarrow> Some (goto s Cl_store w) | _ \<Rightarrow> None)"

inductive cw_trans :: "'a channel_window \<Rightarrow> 'a channel_window \<Rightarrow> bool" where
  cw_call: "cw_begin c w = Some w' \<Longrightarrow> cw_trans w w'"
| cw_access: "cw_step s w = Ret () w' \<Longrightarrow> cw_trans w w'"
| cw_idle: "cw_trans w (w\<lparr>idle := i\<rparr>)"

definition cw_abs :: "'a channel_window \<Rightarrow> 'a list \<times> 'a list \<times> 'a list" where
  "cw_abs w = (sent w, drop (length (got w)) (sent w), got w)"

text \<open>The roles of the locations in the protocol of \<open>_waiter\<close>.\<close>

fun cw_role :: "'a cw_pc \<Rightarrow> role" where
  "cw_role Gone = Left"
| "cw_role Rd_check = Taking"
| "cw_role Rd_leave = Taking"
| "cw_role Rd_wait = Entering"
| "cw_role Rd_parked = Resting"
| "cw_role (Rd_state p) = Seen p"
| "cw_role (Rd_swap p) = Found p"
| "cw_role (Rd_switch p) = Switching p"
| "cw_role Rd_return = Resting"
| "cw_role (Wr_check _) = Taking"
| "cw_role (Wr_leave _) = Taking"
| "cw_role (Wr_wait _) = Entering"
| "cw_role (Wr_parked _) = Resting"
| "cw_role (Wr_state _ p) = Seen p"
| "cw_role (Wr_swap _ p) = Found p"
| "cw_role (Wr_switch _ p) = Switching p"
| "cw_role (Wr_return _) = Resting"
| "cw_role (Wake_state _ p) = Seen p"
| "cw_role (Wake_cas _ p) = Found p"
| "cw_role (Wake_sched _ p) = Scheduling p"
| "cw_role _ = Free"

definition cw_cell :: "'a channel_window \<Rightarrow> cell" where
  "cw_cell w = cell_of cw_role (closed w) w"

text \<open>
  The phases of a handover. The reader is \<open>Entered\<close> before its assertion and \<open>Setting\<close> before the
  store of \<open>_reader\<close>; it is \<open>Offering\<close> its result in its loop and while it waits, at the top of the
  loop \<open>Looking\<close>; it is \<open>Woken\<close> after it waited and \<open>Leaving\<close> when it returns. The writer is \<open>Giving\<close>
  before it emplaces its value in the branch of a parked writer; its value is then \<open>Filled\<close> in, and
  \<open>Handed\<close> over once it has reset \<open>_reader\<close>, until the reader runs; in \<open>close\<close> it is \<open>Resetting\<close>
  after the store of \<open>_closed\<close> and \<open>Past\<close> that of \<open>_reader\<close>.
\<close>

datatype read_phase = Outside | Entered | Setting | Looking | Offering | Woken | Leaving

datatype 'a write_phase = Nothing | Giving | Filled 'a | Handed 'a | Resetting | Past

fun rphase :: "'a cw_pc \<Rightarrow> read_phase" where
  "rphase Rd_assert = Entered"
| "rphase Rd_set = Setting"
| "rphase Rd_closed = Looking"
| "rphase Rd_cas = Offering"
| "rphase Rd_check = Offering"
| "rphase Rd_leave = Offering"
| "rphase Rd_wait = Offering"
| "rphase Rd_parked = Woken"
| "rphase Rd_load = Offering"
| "rphase (Rd_state _) = Offering"
| "rphase (Rd_swap _) = Offering"
| "rphase (Rd_switch _) = Offering"
| "rphase Rd_return = Leaving"
| "rphase (Wake_test After_read) = Woken"
| "rphase (Wake_load After_read) = Woken"
| "rphase (Wake_state After_read _) = Woken"
| "rphase (Wake_cas After_read _) = Woken"
| "rphase (Wake_sched After_read _) = Woken"
| "rphase _ = Outside"

definition reader_phase :: "'a channel_window \<Rightarrow> read_phase" where
  "reader_phase w = (if waiting w Reader then Offering else rphase (pc w Reader))"

fun after_phase :: "'a cw_after \<Rightarrow> 'a write_phase" where
  "after_phase (After_write u) = Handed u"
| "after_phase After_close = Past"
| "after_phase After_read = Nothing"

fun wphase :: "'a cw_pc \<Rightarrow> 'a write_phase" where
  "wphase (Wr_emplace _) = Giving"
| "wphase (Wr_reset u) = Filled u"
| "wphase (Wr_unset u) = Filled u"
| "wphase (Wr_load u) = Handed u"
| "wphase (Wr_state u _) = Handed u"
| "wphase (Wr_swap u _) = Handed u"
| "wphase (Wr_switch u _) = Handed u"
| "wphase Cl_reset = Resetting"
| "wphase (Wake_test k) = after_phase k"
| "wphase (Wake_load k) = after_phase k"
| "wphase (Wake_state k _) = after_phase k"
| "wphase (Wake_cas k _) = after_phase k"
| "wphase (Wake_sched k _) = after_phase k"
| "wphase Gone = Past"
| "wphase _ = Nothing"

fun after_of :: "'a cw_pc \<Rightarrow> 'a cw_after option" where
  "after_of (Wake_test k) = Some k"
| "after_of (Wake_load k) = Some k"
| "after_of (Wake_state k _) = Some k"
| "after_of (Wake_cas k _) = Some k"
| "after_of (Wake_sched k _) = Some k"
| "after_of _ = None"

fun of_writer :: "'a cw_pc \<Rightarrow> bool" where
  "of_writer (Wr_check _) = True"
| "of_writer (Wr_leave _) = True"
| "of_writer (Wr_wait _) = True"
| "of_writer (Wr_switch _ _) = True"
| "of_writer (Wr_parked _) = True"
| "of_writer (Wr_return _) = True"
| "of_writer l = (\<exists>u. after_of l = Some (After_write u))"

definition closing :: "'a cw_pc \<Rightarrow> bool" where
  "closing l \<longleftrightarrow> wphase l = Resetting \<or> wphase l = Past"

text \<open>The locations of the writer between finding a parked reader and unparking it.\<close>

fun facing :: "'a cw_pc \<Rightarrow> bool" where
  "facing (Wr_peek _) = True"
| "facing (Wr_hand _) = True"
| "facing (Wr_unset _) = True"
| "facing (Wake_test k) = (\<exists>u. k = After_write u)"
| "facing (Wake_load k) = (\<exists>u. k = After_write u)"
| "facing (Wake_state k _) = (\<exists>u. k = After_write u)"
| "facing (Wake_cas k _) = (\<exists>u. k = After_write u)"
| "facing _ = False"

text \<open>
  What the phases say of \<open>_reader\<close>, the address of the result and the result: while it is offered
  and nothing has been emplaced, \<open>_reader\<close> points to it and it is empty.
\<close>

fun offer_ok :: "bool \<Rightarrow> 'a write_phase \<Rightarrow> addr \<Rightarrow> addr \<Rightarrow> 'a option \<Rightarrow> bool" where
  "offer_ok look (Filled u) r a x = (r = a \<and> x = Some u)"
| "offer_ok look (Handed u) r a x = (r = nullptr \<and> x = Some u)"
| "offer_ok look Past r a x = (x = None \<and> (r = nullptr \<or> look \<and> r = a))"
| "offer_ok look _ r a x = (r = a \<and> x = None)"

fun apart :: "'a write_phase \<Rightarrow> bool" where
  "apart Nothing = True"
| "apart Resetting = True"
| "apart Past = True"
| "apart _ = False"

fun hand_inv :: "read_phase \<Rightarrow> 'a write_phase \<Rightarrow> addr \<Rightarrow> addr \<Rightarrow> 'a option \<Rightarrow> bool" where
  "hand_inv Looking p r a x = offer_ok True p r a x"
| "hand_inv Offering p r a x = offer_ok False p r a x"
| "hand_inv Outside p r a x = (apart p \<and> (p = Nothing \<longrightarrow> r = nullptr))"
| "hand_inv Entered p r a x = (apart p \<and> x = None \<and> (p = Nothing \<longrightarrow> r = nullptr))"
| "hand_inv Setting p r a x = (apart p \<and> x = None \<and> r = nullptr)"
| "hand_inv Woken p r a x = (apart p \<and> r = nullptr)"
| "hand_inv Leaving p r a x = (apart p \<and> (r = nullptr \<or> p \<noteq> Nothing \<and> x = None))"

text \<open>The values whose write has emplaced them and has not returned.\<close>

fun in_write :: "'a cw_pc \<Rightarrow> 'a list" where
  "in_write (Wr_return u) = [u]"
| "in_write l = (case wphase l of Filled u \<Rightarrow> [u] | Handed u \<Rightarrow> [u] | _ \<Rightarrow> [])"

definition in_read :: "'a channel_window \<Rightarrow> 'a list" where
  "in_read w = (if reader_phase w = Outside then [] else case ret w of None \<Rightarrow> [] | Some x \<Rightarrow> [x])"

definition side_ok :: "'a channel_window \<Rightarrow> bool" where
  "side_ok w \<longleftrightarrow>
     (closed w \<longleftrightarrow> closing (pc w Reader) \<or> closing (pc w Writer)) \<and>
     (reader_phase w \<noteq> Outside \<longleftrightarrow> ret_at w \<noteq> nullptr) \<and>
     \<not> of_writer (pc w Reader) \<and>
     (pc w Reader = Rd_leave \<longrightarrow> closed w) \<and>
     (\<forall>u. pc w Writer = Wr_leave u \<or> pc w Writer = Wr_drop u \<longrightarrow> closed w) \<and>
     after_of (pc w Writer) \<noteq> Some After_read \<and>
     (facing (pc w Writer) \<longrightarrow> stalled w = Some Reader) \<and>
     hand_inv (reader_phase w) (wphase (pc w Writer)) (reader w) (ret_at w) (ret w)"

definition count_ok :: "'a channel_window \<Rightarrow> bool" where
  "count_ok w \<longleftrightarrow> sent w = got w @ in_read w \<and> sent w = accepted w @ in_write (pc w Writer)"

definition cw_ok :: "'a channel_window \<Rightarrow> bool" where
  "cw_ok w \<longleftrightarrow> cell_inv (cw_cell w) \<and> side_ok w \<and> count_ok w"

end
