(* ===== verification/Channel_Inv.thy ===== *)
theory Channel_Inv
  imports Channel_Window
begin

text \<open>
  The window as a step system: each access is a step of the protocol of \<open>_waiter\<close> and keeps the
  phases of the handover, for every interleaving of the reader and the writer.
\<close>

section \<open>The cell of the parked task\<close>

lemma goto_window [simp]:
  "reader (goto s l w) = reader w" "closed (goto s l w) = closed w" "ret_at (goto s l w) = ret_at w"
  "ret (goto s l w) = ret w" "sent (goto s l w) = sent w" "got (goto s l w) = got w"
  "accepted (goto s l w) = accepted w" "refused (goto s l w) = refused w"
  by (simp_all add: goto_def)

lemma cell_of_window [simp]:
  "cell_of rho cl (w\<lparr>reader := a\<rparr>) = cell_of rho cl w" "cell_of rho cl (w\<lparr>closed := c\<rparr>) = cell_of rho cl w"
  "cell_of rho cl (w\<lparr>ret_at := a\<rparr>) = cell_of rho cl w" "cell_of rho cl (w\<lparr>ret := x\<rparr>) = cell_of rho cl w"
  "cell_of rho cl (w\<lparr>sent := xs\<rparr>) = cell_of rho cl w" "cell_of rho cl (w\<lparr>got := xs\<rparr>) = cell_of rho cl w"
  "cell_of rho cl (w\<lparr>accepted := xs\<rparr>) = cell_of rho cl w" "cell_of rho cl (w\<lparr>refused := xs\<rparr>) = cell_of rho cl w"
  by (simp_all add: cell_of_def)

lemmas window_defs = emplace_def reset_reader_def refuse_def
lemmas access_defs = unpark_defs park_if_defs swap_defs window_defs

lemma cw_finish_role: "plain (cw_role (finish k)) \<or> cw_role (finish k) = Left \<and> k = After_close" "after_of (finish k) = None"
  by (cases k; simp)+

lemma cw_read_step_cell:
  assumes w: "\<not> waiting w Reader" and r: "read_step (pc w Reader) w = Ret () w'" and c: "\<not> in_close (pc w Reader)"
  shows "cw_cell w' = cw_cell w \<or> cell_step Reader (cw_cell w) (cw_cell w')"
proof -
  note cell = access_cell [where rho = cw_role and cl = "closed w" and b' = w', OF _ w]
  have cl: "closed w' = closed w"
    using r by (cases "pc w Reader") (auto simp: access_defs split: if_splits option.splits)
  have wait: "park_wait Reader Rd_parked (Idle None) w = Ret () w'" if "pc w Reader = Rd_wait"
    using r that by (auto split: outcome.splits)
  show ?thesis
  proof (cases "pc w Reader")
    case Rd_cas
    then show ?thesis using cell(1) [of Rd_check Rd_load] r by (simp add: cw_cell_def cl)
  next
    case Rd_check
    then show ?thesis using cell(2) [of Rd_leave Rd_wait] r by (simp add: cw_cell_def cl)
  next
    case Rd_leave
    then show ?thesis using cell(3) [of Rd_load] r by (simp add: cw_cell_def cl)
  next
    case Rd_wait
    then show ?thesis using cell(4) [OF wait] by (simp add: cw_cell_def cl)
  next
    case Rd_load
    then show ?thesis using cell(6) [of Rd_closed Rd_state] r by (simp add: cw_cell_def cl)
  next
    case (Rd_state p)
    then show ?thesis using cell(7) [of p Rd_closed "Rd_swap p"] r by (simp add: cw_cell_def cl)
  next
    case (Rd_swap p)
    then show ?thesis using cell(10) [of p Rd_closed "Rd_switch p"] r by (simp add: cw_cell_def cl)
  next
    case (Rd_switch p)
    then show ?thesis using cell(11) [of p Rd_return] r by (simp add: cw_cell_def cl)
  qed (use r c in \<open>auto simp: cw_cell_def cell_move w split: if_splits\<close>)
qed

lemma cw_write_step_cell:
  assumes w: "\<not> waiting w Writer" and r: "write_step (pc w Writer) w = Ret () w'" and c: "\<not> in_close (pc w Writer)"
  shows "cw_cell w' = cw_cell w \<or> cell_step Writer (cw_cell w) (cw_cell w')"
proof -
  note cell = access_cell [where rho = cw_role and cl = "closed w" and b' = w', OF _ w]
  have cl: "closed w' = closed w"
    using r by (cases "pc w Writer") (auto simp: access_defs split: if_splits option.splits)
  show ?thesis
  proof (cases "pc w Writer")
    case (Wr_cas u)
    then show ?thesis using cell(1) [of "Wr_check u" "Wr_test u"] r by (simp add: cw_cell_def cl)
  next
    case (Wr_check u)
    then show ?thesis using cell(2) [of "Wr_leave u" "Wr_wait u"] r by (simp add: cw_cell_def cl)
  next
    case (Wr_leave u)
    then show ?thesis using cell(3) [of "Wr_test u"] r by (simp add: cw_cell_def cl)
  next
    case (Wr_wait u)
    then show ?thesis using cell(4) [of "Wr_parked u"] r by (simp add: cw_cell_def cl)
  next
    case (Wr_load u)
    then show ?thesis using cell(6) [of "Wr_load u" "Wr_state u"] r by (simp add: cw_cell_def cl)
  next
    case (Wr_state u p)
    then show ?thesis using cell(7) [of p "Wr_load u" "Wr_swap u p"] r by (simp add: cw_cell_def cl)
  next
    case (Wr_swap u p)
    then show ?thesis using cell(10) [of p "Wr_load u" "Wr_switch u p"] r by (simp add: cw_cell_def cl)
  next
    case (Wr_switch u p)
    then show ?thesis using cell(11) [of p "Wr_return u"] r by (simp add: cw_cell_def cl)
  next
    case (Wr_test u)
    then show ?thesis using cell(5) [of "Wr_closed u" "Wr_peek u"] r by (simp add: cw_cell_def cl)
  qed (use r c in \<open>auto simp: cw_cell_def cell_move w window_defs split: if_splits\<close>)
qed

lemma cw_close_step_cell:
  assumes w: "\<not> waiting w s" and r: "close_step s (pc w s) w = Ret () w'"
    and gone: "after_of (pc w s) = Some After_close \<Longrightarrow> closed w"
  shows "cw_cell w' = cw_cell w \<or> cell_step s (cw_cell w) (cw_cell w')"
proof -
  note cell = access_cell [where rho = cw_role and cl = "closed w" and b' = w', OF _ w]
  have cl: "closed w' = closed w" if "pc w s \<noteq> Cl_store"
    using r that by (cases "pc w s") (auto simp: access_defs split: if_splits option.splits)
  show ?thesis
  proof (cases "pc w s")
    case Cl_store
    have "cw_cell w' = (cw_cell w)\<lparr>role := (role (cw_cell w))(s := Free), shut := True\<rparr>"
      using r Cl_store by (auto simp: cw_cell_def cell_of_def fun_upd_comp)
    then show ?thesis using cell_shut [of "cw_cell w" s Free] w Cl_store by (simp add: cw_cell_def)
  next
    case Cl_reset
    then show ?thesis using r by (auto simp: reset_reader_def cw_cell_def cell_move w)
  next
    case (Wake_test k)
    then show ?thesis
      using cell(5) [of "finish k" "Wake_load k"] r gone cw_finish_role(1) [of k] by (auto simp: cw_cell_def cl)
  next
    case (Wake_load k)
    then show ?thesis using cell(6) [of "Wake_test k" "Wake_state k"] r by (simp add: cw_cell_def cl)
  next
    case (Wake_state k p)
    then show ?thesis using cell(7) [of p "Wake_test k" "Wake_cas k p"] r by (simp add: cw_cell_def cl)
  next
    case (Wake_cas k p)
    then show ?thesis using cell(8) [of p "Wake_test k" "Wake_sched k p"] r by (simp add: cw_cell_def cl)
  next
    case (Wake_sched k p)
    then show ?thesis
      using cell(9) [of p "finish k"] r gone cw_finish_role(1) [of k] by (auto simp: cw_cell_def cl)
  qed (use r in \<open>auto simp: cw_cell_def\<close>)
qed

lemma closing_after: "after_of l = Some After_close \<Longrightarrow> closing l"
  by (cases l) (simp_all add: closing_def)

lemma cw_step_cell:
  assumes "side_ok w" and "cw_step s w = Ret () w'"
  shows "cw_cell w' = cw_cell w \<or> cell_step s (cw_cell w) (cw_cell w')"
proof -
  have "closed w" if "after_of (pc w s) = Some After_close"
    using closing_after [OF that] assms(1) by (cases s) (auto simp: side_ok_def)
  then show ?thesis
    using assms(2) cw_read_step_cell [of w w'] cw_write_step_cell [of w w'] cw_close_step_cell [of w s w']
    by (cases s) (auto simp: cw_step_def split: if_splits)
qed

section \<open>The handover\<close>

lemma reader_asleep:
  assumes "cell_inv (cw_cell w)" "waiting w Reader"
  shows "cw_role (pc w Reader) = Resting"
  using cell_invD(2) [OF assms(1), of Reader] assms(2) by (simp add: cw_cell_def)

lemma side_okD:
  assumes "side_ok w"
  shows "closed w \<longleftrightarrow> closing (pc w Reader) \<or> closing (pc w Writer)"
    and "reader_phase w \<noteq> Outside \<longleftrightarrow> ret_at w \<noteq> nullptr"
    and "pc w Reader = Rd_leave \<Longrightarrow> closed w"
    and "pc w Writer = Wr_leave u \<or> pc w Writer = Wr_drop u \<Longrightarrow> closed w"
    and "after_of (pc w Writer) \<noteq> Some After_read"
    and "facing (pc w Writer) \<Longrightarrow> stalled w = Some Reader"
    and "hand_inv (reader_phase w) (wphase (pc w Writer)) (reader w) (ret_at w) (ret w)"
    and "\<not> of_writer (pc w Reader)"
  using assms unfolding side_ok_def by blast+

lemma reader_rests:
  assumes "side_ok w" "cell_inv (cw_cell w)" "waiting w Reader"
  shows "pc w Reader = Rd_parked \<or> pc w Reader = Rd_return"
  using reader_asleep [OF assms(2,3)] side_okD(8) [OF assms(1)] by (cases "pc w Reader") auto

lemma facing_not_closing: "facing l \<Longrightarrow> \<not> closing l"
  by (cases l) (auto simp: closing_def)

lemma offered_at: "hand_inv Looking p r a x \<Longrightarrow> p \<noteq> Past \<Longrightarrow> hand_inv Offering p r a x"
  "hand_inv Offering p r a x \<Longrightarrow> hand_inv Looking p r a x"
  by (cases p; simp)+

lemma not_reading_closing: "rphase l \<noteq> Outside \<Longrightarrow> \<not> closing l"
  by (induction l rule: rphase.induct) (auto simp: closing_def)

lemma offer_set: "apart p \<Longrightarrow> offer_ok True p a a None"
  by (cases p; simp)

text \<open>A step of the reader that does not change \<open>_closed\<close>.\<close>

lemma side_ok_read:
  assumes "side_ok w" and "pc w' Writer = pc w Writer" and "closed w' = closed w"
    and "closing (pc w' Reader) = closing (pc w Reader)" and "pc w' Reader = Rd_leave \<Longrightarrow> closed w"
    and "reader_phase w' \<noteq> Outside \<longleftrightarrow> ret_at w' \<noteq> nullptr"
    and "facing (pc w Writer) \<Longrightarrow> stalled w' = Some Reader"
    and "hand_inv (reader_phase w') (wphase (pc w Writer)) (reader w') (ret_at w') (ret w')"
    and "\<not> of_writer (pc w' Reader)"
  shows "side_ok w'"
  using assms(1) unfolding side_ok_def assms(2-4) using assms(5-9) by blast

lemma read_step_side:
  assumes s: "side_ok w" and ci: "cell_inv (cw_cell w)" and w: "\<not> waiting w Reader"
    and r: "read_step (pc w Reader) w = Ret () w'" and c: "\<not> in_close (pc w Reader)"
  shows "side_ok w'"
proof -
  let ?l = "pc w Reader" and ?p = "wphase (pc w Writer)"
  note D = side_okD [OF s]
  have ph: "reader_phase w = rphase ?l" using w by (simp add: reader_phase_def)
  have h: "hand_inv (rphase ?l) ?p (reader w) (ret_at w) (ret w)" using D(7) ph by simp
  have a: "rphase ?l \<noteq> Outside \<longleftrightarrow> ret_at w \<noteq> nullptr" using D(2) ph by simp
  have cl: "closed w \<longleftrightarrow> closing (pc w Writer)" if "rphase ?l \<noteq> Outside"
    using D(1) that not_reading_closing by blast
  have past: "?p \<noteq> Past" if "rphase ?l \<noteq> Outside" "\<not> closed w"
    using cl [OF that(1)] that(2) by (simp add: closing_def)
  show ?thesis
  proof (cases ?l)
    case Rd_closed
    show ?thesis
    proof (cases "closed w")
      case True
      then have "?p = Resetting \<or> ?p = Past" using cl Rd_closed by (simp add: closing_def)
      then have "hand_inv Leaving ?p (reader w) (ret_at w) (ret w)" using h Rd_closed by auto
      moreover have "w' = goto Reader Rd_return w" using r Rd_closed True by simp
      ultimately show ?thesis
        by (intro side_ok_read [OF s]) (use Rd_closed a w D(6) in \<open>simp_all add: reader_phase_def closing_def\<close>)
    next
      case False
      then have "hand_inv Offering ?p (reader w) (ret_at w) (ret w)"
        using offered_at(1) [of ?p] past h Rd_closed by simp
      moreover have "w' = goto Reader Rd_cas w" using r Rd_closed False by simp
      ultimately show ?thesis
        by (intro side_ok_read [OF s]) (use Rd_closed a w D(6) in \<open>simp_all add: reader_phase_def closing_def\<close>)
    qed
  next
    case Rd_leave
    then have "\<not> facing (pc w Writer)" using cl D(3) facing_not_closing by auto
    then show ?thesis
      by (intro side_ok_read [OF s])
        (use r Rd_leave h a w in \<open>auto simp: park_leave_def reader_phase_def closing_def\<close>)
  next
    case Rd_return
    show ?thesis
      by (rule side_ok_read [OF s])
        (use r Rd_return h a w D(6) in \<open>auto simp: reader_phase_def closing_def\<close>)
  next
    case Rd_set
    show ?thesis
      by (rule side_ok_read [OF s])
        (use r Rd_set h a w D(6) offer_set [of ?p] in \<open>auto simp: reader_phase_def closing_def\<close>)
  next
    case Rd_load
    show ?thesis
      by (rule side_ok_read [OF s])
        (use r Rd_load h a w D(6) offered_at(2) [of ?p] in
          \<open>auto simp: reader_phase_def closing_def wake_load_def split: option.splits\<close>)
  next
    case (Rd_state p)
    show ?thesis
      by (rule side_ok_read [OF s])
        (use r Rd_state h a w D(6) offered_at(2) [of ?p] in
          \<open>auto simp: reader_phase_def closing_def wake_state_def split: if_splits\<close>)
  next
    case (Rd_swap p)
    show ?thesis
      by (rule side_ok_read [OF s])
        (use r Rd_swap h a w D(6) offered_at(2) [of ?p] in
          \<open>auto simp: reader_phase_def closing_def swap_cas_def split: if_splits\<close>)
  next
    case Rd_check
    show ?thesis
      by (rule side_ok_read [OF s])
        (use r Rd_check h a w D(6) in \<open>auto simp: reader_phase_def closing_def park_check_def split: if_splits\<close>)
  next
    case (Rd_switch p)
    then have "p = Writer" using cell_invD(3) [OF ci, of Reader p] by (simp add: cw_cell_def)
    then show ?thesis
      by (intro side_ok_read [OF s])
        (use r Rd_switch h a w D(6) in \<open>auto simp: reader_phase_def closing_def swap_switch_def\<close>)
  qed (rule side_ok_read [OF s]; use r c h a w D(6,8) in
      \<open>auto simp: reader_phase_def closing_def access_defs split: if_splits\<close>)+
qed

text \<open>A step of the writer that does not change \<open>_closed\<close>.\<close>

lemma side_ok_write:
  assumes "side_ok w" and "pc w' Reader = pc w Reader" and "closed w' = closed w"
    and "closing (pc w' Writer) = closing (pc w Writer)"
    and "\<And>u. pc w' Writer = Wr_leave u \<or> pc w' Writer = Wr_drop u \<Longrightarrow> closed w"
    and "after_of (pc w' Writer) \<noteq> Some After_read"
    and "reader_phase w' = Outside \<longleftrightarrow> reader_phase w = Outside" and "ret_at w' = ret_at w"
    and "facing (pc w' Writer) \<Longrightarrow> stalled w' = Some Reader"
    and "hand_inv (reader_phase w') (wphase (pc w' Writer)) (reader w') (ret_at w) (ret w')"
  shows "side_ok w'"
  using assms(1) unfolding side_ok_def assms(2-4,7,8) using assms(5,6,9,10) by blast

lemma side_ok_write_move:
  assumes "side_ok w" and "pc w' Reader = pc w Reader" and "closed w' = closed w" and "waiting w' Reader = waiting w Reader"
    and "reader w' = reader w" "ret_at w' = ret_at w" "ret w' = ret w"
    and "wphase (pc w' Writer) = wphase (pc w Writer)"
    and "\<And>u. pc w' Writer = Wr_leave u \<or> pc w' Writer = Wr_drop u \<Longrightarrow> closed w"
    and "after_of (pc w' Writer) \<noteq> Some After_read"
    and "facing (pc w' Writer) \<Longrightarrow> stalled w' = Some Reader"
  shows "side_ok w'"
proof -
  have "reader_phase w' = reader_phase w" using assms(2,4) by (simp add: reader_phase_def)
  then show ?thesis
    using side_okD(7) [OF assms(1)] assms(2-) by (intro side_ok_write [OF assms(1)]) (simp_all add: closing_def)
qed

text \<open>Waking the reader after the handover, or after \<open>_reader\<close> was reset by \<open>close\<close>.\<close>

lemma wake_reader:
  assumes "side_ok w" "cell_inv (cw_cell w)" and "waiting w Reader" and "waiting w' Reader = False" and "pc w' Reader = pc w Reader"
    and "\<And>u. p = Handed u \<Longrightarrow> q = Nothing" and "p = Past \<Longrightarrow> q = Past" and "p = Past \<or> (\<exists>u. p = Handed u)"
    and "wphase (pc w Writer) = p"
  shows "reader_phase w \<noteq> Outside" "reader_phase w' \<noteq> Outside"
    "hand_inv (reader_phase w') q (reader w) (ret_at w) (ret w)"
proof -
  have "hand_inv Offering p (reader w) (ret_at w) (ret w)"
    using side_okD(7) [OF assms(1)] assms(3,9) by (simp add: reader_phase_def)
  then show "hand_inv (reader_phase w') q (reader w) (ret_at w) (ret w)" "reader_phase w \<noteq> Outside" "reader_phase w' \<noteq> Outside"
    using reader_rests [OF assms(1-3)] assms(3-8) by (auto simp: reader_phase_def)
qed

lemma hand_inv_Nothing:
  "hand_inv l Nothing r a x \<Longrightarrow> r \<noteq> nullptr \<Longrightarrow> (l = Looking \<or> l = Offering) \<and> r = a \<and> x = None"
  "hand_inv l Giving r a x \<Longrightarrow> (l = Looking \<or> l = Offering) \<and> r = a \<and> x = None"
  by (cases l; simp)+

lemma write_step_side:
  assumes s: "side_ok w" and ci: "cell_inv (cw_cell w)" and w: "\<not> waiting w Writer"
    and r: "write_step (pc w Writer) w = Ret () w'" and c: "\<not> in_close (pc w Writer)"
  shows "side_ok w'"
proof -
  let ?l = "pc w Writer"
  note D = side_okD [OF s]
  note h = D(7)
  show ?thesis
  proof (cases ?l)
    case (Wr_switch u p)
    then have p: "p = Reader" "waiting w Reader"
      using cell_invD(3,4) [OF ci, of Writer p] by (auto simp: cw_cell_def)
    let ?w = "goto Writer (Wr_return u) (w\<lparr>waiting := (waiting w)(Writer := True, Reader := False)\<rparr>)"
    have w': "w' = ?w" using r Wr_switch p by (simp add: swap_switch_def)
    note k = wake_reader [OF s ci p(2), of ?w "Handed u" Nothing]
    show ?thesis
      by (rule side_ok_write [OF s]) (use w' Wr_switch p k in \<open>auto simp: closing_def\<close>)
  next
    case (Wr_assert u)
    then show ?thesis
      by (intro side_ok_write [OF s])
        (use r h hand_inv_Nothing(1) [OF h [unfolded Wr_assert, simplified]] in
          \<open>auto simp: closing_def reader_phase_def split: if_splits\<close>)
  next
    case (Wr_emplace u)
    then show ?thesis
      by (intro side_ok_write [OF s])
        (use r h hand_inv_Nothing(2) [OF h [unfolded Wr_emplace, simplified]] in
          \<open>auto simp: closing_def reader_phase_def emplace_def split: if_splits\<close>)
  next
    case (Wr_test u)
    have "stalled w \<noteq> Some Writer" using cell_invD(1) [OF ci, of Writer] w Wr_test by (simp add: cw_cell_def)
    then have "stalled w = None \<or> stalled w = Some Reader" by (cases "stalled w") (auto intro: side.exhaust)
    then show ?thesis
      by (intro side_ok_write_move [OF s]) (use r Wr_test in \<open>auto simp: wake_test_def split: if_splits\<close>)
  next
    case (Wr_hand u)
    have "stalled w = Some Reader" using D(6) Wr_hand by simp
    then have "reader_phase w = Offering \<or> waiting w Reader" using cell_invD(1) [OF ci, of Reader] D(8)
      by (cases "pc w Reader") (auto simp: cw_cell_def reader_phase_def)
    then show ?thesis
      by (intro side_ok_write [OF s])
        (use r Wr_hand h D(6) in \<open>auto simp: closing_def reader_phase_def emplace_def split: if_splits\<close>)
  next
    case (Wr_drop u)
    then have "closing (pc w Reader)" using D(1) D(4) by (auto simp: closing_def)
    then have "rphase (pc w Reader) = Outside" "\<not> waiting w Reader"
      using not_reading_closing reader_rests [OF s ci] by (auto simp: closing_def)
    then show ?thesis
      by (intro side_ok_write [OF s])
        (use r Wr_drop h in \<open>auto simp: closing_def reader_phase_def refuse_def\<close>)
  next
    case (Wr_reset u)
    then show ?thesis
      by (intro side_ok_write [OF s])
        (use r h in \<open>cases "reader_phase w"; auto simp: closing_def reader_phase_def reset_reader_def split: if_splits\<close>)+
  next
    case (Wr_unset u)
    then show ?thesis
      by (intro side_ok_write [OF s])
        (use r h D(6) in \<open>cases "reader_phase w"; auto simp: closing_def reader_phase_def reset_reader_def split: if_splits\<close>)+
  qed (insert r c D(6), (rule side_ok_write_move [OF s]; auto simp: access_defs split: if_splits option.splits)+)
qed

text \<open>\<open>close\<close> and the wake-up loop, by either side.\<close>

lemma close_step_read_side:
  assumes s: "side_ok w" and ci: "cell_inv (cw_cell w)" and w: "\<not> waiting w Reader"
    and r: "close_step Reader (pc w Reader) w = Ret () w'"
  shows "side_ok w'"
proof -
  let ?l = "pc w Reader" and ?p = "wphase (pc w Writer)"
  note D = side_okD [OF s]
  have ph: "reader_phase w = rphase ?l" using w by (simp add: reader_phase_def)
  have h: "hand_inv (rphase ?l) ?p (reader w) (ret_at w) (ret w)" using D(7) ph by simp
  have a: "rphase ?l \<noteq> Outside \<longleftrightarrow> ret_at w \<noteq> nullptr" using D(2) ph by simp
  have k: "k = After_read \<or> k = After_close" if "after_of ?l = Some k" for k
    using D(8) that by (cases ?l; cases k) auto
  show ?thesis
  proof (cases ?l)
    case Cl_store
    then have "w' = goto Reader Cl_reset (w\<lparr>closed := True\<rparr>)" using r by simp
    then show ?thesis
      using s Cl_store w by (simp add: side_ok_def reader_phase_def closing_def)
  next
    case Cl_reset
    show ?thesis
      by (rule side_ok_read [OF s])
        (use r Cl_reset h a w D(6) in \<open>auto simp: reader_phase_def closing_def reset_reader_def\<close>)
  next
    case (Wake_test j)
    then show ?thesis
      by (intro side_ok_read [OF s])
        (use r h a w D(6) k [of j] in \<open>auto simp: reader_phase_def closing_def wake_test_def split: if_splits\<close>)
  next
    case (Wake_load j)
    then show ?thesis
      by (intro side_ok_read [OF s])
        (use r h a w D(6) k [of j] in \<open>auto simp: reader_phase_def closing_def wake_load_def split: option.splits\<close>)
  next
    case (Wake_state j p)
    then show ?thesis
      by (intro side_ok_read [OF s])
        (use r h a w D(6) k [of j] in \<open>auto simp: reader_phase_def closing_def wake_state_def split: if_splits\<close>)
  next
    case (Wake_cas j p)
    then have "p = Writer" using cell_invD(3) [OF ci, of Reader p] by (simp add: cw_cell_def)
    then show ?thesis
      by (intro side_ok_read [OF s])
        (use Wake_cas r h a w D(6) k [of j] in \<open>auto simp: reader_phase_def closing_def wake_cas_def split: if_splits\<close>)
  next
    case (Wake_sched j p)
    then have "p = Writer" using cell_invD(3) [OF ci, of Reader p] by (simp add: cw_cell_def)
    then show ?thesis
      by (intro side_ok_read [OF s])
        (use Wake_sched r h a w D(6) k [of j] in \<open>auto simp: reader_phase_def closing_def wake_sched_def split: if_splits\<close>)
  qed (use r s in auto)
qed

lemma close_step_write_side:
  assumes s: "side_ok w" and ci: "cell_inv (cw_cell w)" and w: "\<not> waiting w Writer"
    and r: "close_step Writer (pc w Writer) w = Ret () w'"
  shows "side_ok w'"
proof -
  let ?l = "pc w Writer"
  note D = side_okD [OF s]
  note h = D(7)
  have k: "k = After_close \<or> (\<exists>u. k = After_write u)" if "after_of ?l = Some k" for k
    using D(5) that by (cases k) auto
  show ?thesis
  proof (cases ?l)
    case Cl_store
    then have "w' = goto Writer Cl_reset (w\<lparr>closed := True\<rparr>)" using r by simp
    moreover have "hand_inv (reader_phase w) Resetting (reader w) (ret_at w) (ret w)"
      using h Cl_store by (cases "reader_phase w") auto
    moreover have "reader_phase w' = reader_phase w" using calculation(1) by (simp add: reader_phase_def)
    ultimately show ?thesis
      using s by (simp add: side_ok_def closing_def)
  next
    case Cl_reset
    moreover have "hand_inv (reader_phase w) Past nullptr (ret_at w) (ret w)"
      using h Cl_reset by (cases "reader_phase w") auto
    ultimately show ?thesis
      by (intro side_ok_write [OF s])
        (use r in \<open>auto simp: reader_phase_def closing_def reset_reader_def\<close>)
  next
    case (Wake_test j)
    then show ?thesis
      by (intro side_ok_write_move [OF s])
        (use r D(6) k [of j] in \<open>auto simp: wake_test_def split: if_splits\<close>)
  next
    case (Wake_load j)
    then show ?thesis
      by (intro side_ok_write_move [OF s])
        (use r D(6) k [of j] in \<open>auto simp: wake_load_def split: option.splits\<close>)
  next
    case (Wake_state j p)
    then show ?thesis
      by (intro side_ok_write_move [OF s])
        (use r D(6) k [of j] in \<open>auto simp: wake_state_def split: if_splits\<close>)
  next
    case (Wake_cas j p)
    then show ?thesis
      by (intro side_ok_write_move [OF s])
        (use r D(6) k [of j] in \<open>auto simp: wake_cas_def split: if_splits\<close>)
  next
    case (Wake_sched j p)
    then have p: "p = Reader" "waiting w Reader"
      using cell_invD(3,4) [OF ci, of Writer p] by (auto simp: cw_cell_def)
    let ?w = "goto Writer (finish j) (w\<lparr>waiting := (waiting w)(Reader := False)\<rparr>)"
    have w': "w' = ?w" using r Wake_sched p by (simp add: wake_sched_def)
    show ?thesis
      by (rule side_ok_write [OF s])
        (use w' Wake_sched p k [of j] wake_reader [OF s ci p(2), of ?w "wphase ?l" "wphase (finish j)"] in
          \<open>auto simp: closing_def\<close>)
  qed (use r s in auto)
qed

end
