(* ===== verification/Channel_Props.thy ===== *)
theory Channel_Props
  imports Channel_Inv
begin

text \<open>
  The window under every interleaving: the values emplaced, received, accepted and refused, the
  failures that are possible, and runs that show them. Values are passed in order and exactly
  once, and no write goes through a dangling pointer; but two assertions can fail, and the exception
  of a read that parks alone leaves a dangling pointer behind.
\<close>

section \<open>Definitions\<close>

text \<open>A schedule: calls that are started, accesses of the two sides and changes of the rest of the program, in order.\<close>

datatype 'a cw_event = Start "'a cw_call" | Access side | Alone bool

fun cw_run :: "'a cw_event list \<Rightarrow> 'a channel_window \<Rightarrow> 'a channel_window option" where
  "cw_run [] w = Some w"
| "cw_run (Start c # es) w = (case cw_begin c w of None \<Rightarrow> None | Some w' \<Rightarrow> cw_run es w')"
| "cw_run (Access s # es) w = (case cw_step s w of Ret _ w' \<Rightarrow> cw_run es w' | _ \<Rightarrow> None)"
| "cw_run (Alone i # es) w = cw_run es (w\<lparr>idle := i\<rparr>)"

text \<open>A read that parks, a write that meets it, and the reader that is resumed and returns.\<close>

definition park_read :: "addr \<Rightarrow> 'a cw_event list" where
  "park_read a = Start (Call_read a) # replicate 7 (Access Reader)"

definition meet_reader :: "'a \<Rightarrow> 'a cw_event list" where
  "meet_reader u = Start (Call_write u) # replicate 12 (Access Writer)"

definition reader_first :: "addr \<Rightarrow> 'a \<Rightarrow> 'a cw_event list" where
  "reader_first a u = park_read a @ meet_reader u @ replicate 3 (Access Reader)"

text \<open>
  After a handover the writer parks with a second value before the reader has run; the reader's
  wake-up loop then unparks it, and it runs before the next read.
\<close>

definition woken_early :: "addr \<Rightarrow> 'a \<Rightarrow> 'a \<Rightarrow> 'a cw_event list" where
  "woken_early a u v =
     park_read a @ meet_reader u @ Start (Call_write v) # replicate 4 (Access Writer)
       @ replicate 7 (Access Reader) @ [Access Writer]"

text \<open>The next access of the side is that of \<open>park_if\<close> in which its task waits.\<close>

definition parks_next :: "side \<Rightarrow> 'a channel_window \<Rightarrow> bool" where
  "parks_next s w \<longleftrightarrow> (if s = Reader then pc w s = Rd_wait else \<exists>u. pc w s = Wr_wait u)"

text \<open>A read parks when nothing else can run: the schedule up to the exception.\<close>

definition lone_read :: "addr \<Rightarrow> 'a cw_event list" where
  "lone_read a = Start (Call_read a) # replicate 5 (Access Reader) @ [Alone True]"

text \<open>A write, up to the access in which it would emplace its value.\<close>

definition write_ahead :: "'a \<Rightarrow> 'a cw_event list" where
  "write_ahead u = Start (Call_write u) # replicate 4 (Access Writer)"

text \<open>The writer closes its end, and the reader reads twice.\<close>

definition read_twice :: "addr \<Rightarrow> 'a cw_event list" where
  "read_twice a =
     Start (Call_close Writer) # replicate 3 (Access Writer) @ Start (Call_read a) # replicate 4 (Access Reader)
       @ [Start (Call_read a)]"

section \<open>The values passed\<close>

lemma in_read_at: "side_ok w \<Longrightarrow> in_read w = (if ret_at w = nullptr then [] else case ret w of None \<Rightarrow> [] | Some x \<Rightarrow> [x])"
  using side_okD(2) by (auto simp: in_read_def)

lemma count_frame:
  assumes "count_ok w" "side_ok w" "side_ok w'" and "sent w' = sent w" "got w' = got w" "accepted w' = accepted w"
    and "ret w' = ret w" "ret_at w' = ret_at w" and "in_write (pc w' Writer) = in_write (pc w Writer)"
  shows "count_ok w' \<and> cw_abs w' = cw_abs w"
proof -
  have "in_read w' = in_read w" using assms(2,3,7,8) by (simp add: in_read_at)
  then show ?thesis using assms(1) unfolding count_ok_def cw_abs_def assms(4-6,9) by metis
qed

lemma count_okD:
  assumes "count_ok w"
  shows "sent w = got w @ in_read w" "sent w = accepted w @ in_write (pc w Writer)"
  using assms unfolding count_ok_def by blast+

lemma read_step_count:
  assumes c: "count_ok w" and s: "side_ok w" "side_ok w'" and w: "\<not> waiting w Reader"
    and r: "read_step (pc w Reader) w = Ret () w'"
  shows "count_ok w' \<and> (cw_abs w' = cw_abs w \<or> fifo_step 1 (cw_abs w) (cw_abs w'))"
proof (cases "pc w Reader = Rd_return")
  case True
  have "ret_at w \<noteq> nullptr" using side_okD(2) [OF s(1)] True w by (simp add: reader_phase_def)
  then have i: "in_read w = (case ret w of None \<Rightarrow> [] | Some x \<Rightarrow> [x])" using in_read_at [OF s(1)] by simp
  have w': "w' = goto Reader (Idle (ret w)) (w\<lparr>got := got w @ in_read w, ret_at := nullptr\<rparr>)"
    using r True i by simp
  note n = count_okD [OF c]
  have "in_read w' = []" using s(2) w' by (simp add: in_read_at)
  then have "count_ok w'" using w' n unfolding count_ok_def by simp
  moreover have "cw_abs w' = cw_abs w \<or> fifo_step 1 (cw_abs w) (cw_abs w')"
  proof (cases "ret w")
    case None
    then show ?thesis using w' i by (simp add: cw_abs_def)
  next
    case (Some x)
    then have "cw_abs w = (sent w, [x], got w)" "cw_abs w' = (sent w, [], got w @ [x])"
      using w' i n(1) by (simp_all add: cw_abs_def)
    then show ?thesis using fifo_deq [of 1 "sent w" x "[]" "got w"] by simp
  qed
  ultimately show ?thesis by simp
next
  case False
  then have "sent w' = sent w" "got w' = got w" "accepted w' = accepted w" "ret w' = ret w" "ret_at w' = ret_at w"
      "pc w' Writer = pc w Writer"
    using r by (cases "pc w Reader"; auto simp: access_defs split: if_splits option.splits)+
  then show ?thesis using count_frame [OF c s] by simp
qed

lemma emplace_count:
  assumes c: "count_ok w" and s: "side_ok w" "side_ok w'" and e: "emplace u l w = Ret () w'"
    and x: "ret w = None" "in_write (pc w Writer) = []" "in_write l = [u]"
  shows "count_ok w' \<and> fifo_step 1 (cw_abs w) (cw_abs w')"
proof -
  have w': "w' = goto Writer l (w\<lparr>ret := Some u, sent := sent w @ [u]\<rparr>)" and a: "ret_at w \<noteq> nullptr"
    using e by (auto simp: emplace_def split: if_splits)
  have n: "sent w = got w" "sent w = accepted w" using c s(1) x by (auto simp: count_ok_def in_read_at)
  have "count_ok w'" using n s(2) w' a x by (simp add: count_ok_def in_read_at)
  moreover have "cw_abs w = (sent w, [], got w)" "cw_abs w' = (sent w @ [u], [] @ [u], got w)"
    using w' n by (simp_all add: cw_abs_def)
  ultimately show ?thesis using fifo_enq [of "[]" 1 "sent w" "got w" u] by simp
qed

lemma write_step_count:
  assumes c: "count_ok w" and s: "side_ok w" "side_ok w'" and w: "\<not> waiting w Writer" and ci: "cell_inv (cw_cell w)"
    and r: "write_step (pc w Writer) w = Ret () w'"
  shows "count_ok w' \<and> (cw_abs w' = cw_abs w \<or> fifo_step 1 (cw_abs w) (cw_abs w'))"
proof -
  note h = side_okD(7) [OF s(1)]
  consider (emp) u where "pc w Writer = Wr_emplace u" | (hand) u where "pc w Writer = Wr_hand u"
    | (ret) u where "pc w Writer = Wr_return u"
    | (rest) "\<nexists>u. pc w Writer = Wr_emplace u" "\<nexists>u. pc w Writer = Wr_hand u" "\<nexists>u. pc w Writer = Wr_return u" by blast
  then show ?thesis
  proof cases
    case emp
    then have "ret w = None" using hand_inv_Nothing(2) h by fastforce
    then show ?thesis using emplace_count [OF c s, of u "Wr_reset u"] r emp by simp
  next
    case hand
    then have "reader w \<noteq> nullptr" using r by (auto simp: emplace_def split: if_splits)
    then have "ret w = None" using hand_inv_Nothing(1) h hand by fastforce
    then show ?thesis using emplace_count [OF c s, of u "Wr_unset u"] r hand by simp
  next
    case ret
    then have w': "w' = goto Writer (Idle None) (w\<lparr>accepted := accepted w @ [u]\<rparr>)" using r by simp
    have "in_read w' = in_read w" using s w' by (simp add: in_read_at)
    then have "count_ok w'" using count_okD [OF c] ret w' unfolding count_ok_def by auto
    then show ?thesis using w' by (simp add: cw_abs_def)
  next
    case rest
    then have "sent w' = sent w" "got w' = got w" "accepted w' = accepted w" "ret w' = ret w" "ret_at w' = ret_at w"
        "in_write (pc w' Writer) = in_write (pc w Writer)"
      using r by (cases "pc w Writer"; auto simp: access_defs split: if_splits option.splits)+
    then show ?thesis using count_frame [OF c s] by simp
  qed
qed

lemma close_step_count:
  assumes c: "count_ok w" and s: "side_ok w" "side_ok w'" and r: "close_step x (pc w x) w = Ret () w'"
  shows "count_ok w' \<and> cw_abs w' = cw_abs w"
proof -
  have "sent w' = sent w" "got w' = got w" "accepted w' = accepted w" "ret w' = ret w" "ret_at w' = ret_at w"
      "pc w' (other x) = pc w (other x)"
    using r by (cases "pc w x"; auto simp: access_defs split: if_splits option.splits)+
  moreover have "in_write (pc w' x) = in_write (pc w x)" if x: "x = Writer"
  proof -
    have f: "in_write (finish k) = in_write (Wake_test k)" if "k \<noteq> After_read" for k :: "'a cw_after"
      using that by (cases k) auto
    have "in_write (Wake_test k) = in_write (Wake_load k) \<and> in_write (Wake_state k p) = in_write (Wake_load k)
        \<and> in_write (Wake_cas k p) = in_write (Wake_load k) \<and> in_write (Wake_sched k p) = in_write (Wake_load k)"
      for k :: "'a cw_after" and p by simp
    then show ?thesis
      using r x f side_okD(5) [OF s(1)]
      by (cases "pc w Writer") (auto simp: access_defs split: if_splits option.splits)
  qed
  ultimately show ?thesis using count_frame [OF c s] by (cases x) simp_all
qed

section \<open>The window as a step system\<close>

lemma cw_begin_cases:
  assumes "cw_begin c w = Some w'"
  obtains (reads) a v where "pc w Reader = Idle v" "a \<noteq> nullptr" "w' = goto Reader Rd_assert (w\<lparr>ret_at := a, ret := None\<rparr>)"
  | (writes) u v where "pc w Writer = Idle v" "w' = goto Writer (Wr_closed u) w"
  | (closes) s v where "pc w s = Idle v" "w' = goto s Cl_store w"
proof (cases c)
  case (Call_read a)
  then show ?thesis using assms reads [of _ a] by (cases "pc w Reader") (auto split: if_splits)
next
  case (Call_write u)
  then show ?thesis using assms writes [of _ u] by (cases "pc w Writer") auto
next
  case (Call_close s)
  then show ?thesis using assms closes [of s] by (cases "pc w s") auto
qed

lemma cw_ok_begin:
  assumes ok: "cw_ok w" and b: "cw_begin c w = Some w'"
  shows "cw_ok w' \<and> cw_abs w' = cw_abs w \<and> (\<exists>s. cell_step s (cw_cell w) (cw_cell w'))"
proof -
  have ci: "cell_inv (cw_cell w)" and s: "side_ok w" and c: "count_ok w" using ok by (simp_all add: cw_ok_def)
  note D = side_okD [OF s]
  have awake: "\<not> waiting w x" if "pc w x = Idle v" for x v
    using cell_invD(2) [OF ci, of x] that by (auto simp: cw_cell_def)
  have cell: "\<exists>s. cell_step s (cw_cell w) (cw_cell w')"
    using b by (rule cw_begin_cases) (use awake in \<open>auto simp: cw_cell_def intro!: exI cell_move\<close>)
  have side: "side_ok w'"
    using b
  proof (cases rule: cw_begin_cases)
    case (reads a v)
    then show ?thesis
      by (intro side_ok_read [OF s])
        (use D(6,7) awake [OF reads(1)] in \<open>auto simp: reader_phase_def closing_def\<close>)
  next
    case (writes u v)
    then show ?thesis by (intro side_ok_write_move [OF s]) auto
  next
    case (closes x v)
    show ?thesis
    proof (cases x)
      case Reader
      then show ?thesis
        by (intro side_ok_read [OF s])
          (use closes D(2,6,7) awake [OF closes(1)] in \<open>auto simp: reader_phase_def closing_def\<close>)
    next
      case Writer
      then show ?thesis using closes by (intro side_ok_write_move [OF s]) auto
    qed
  qed
  have "count_ok w' \<and> cw_abs w' = cw_abs w"
    using b
  proof (cases rule: cw_begin_cases)
    case (reads a v)
    then have "in_read w = []" "in_read w' = []"
      using D(2) awake [OF reads(1)] side by (auto simp: in_read_at in_read_def reader_phase_def)
    then show ?thesis using count_okD [OF c] reads(3) by (simp add: count_ok_def cw_abs_def)
  next
    case (writes u v)
    then show ?thesis using count_frame [OF c s side] by simp
  next
    case (closes x v)
    then show ?thesis using count_frame [OF c s side] by (cases x) simp_all
  qed
  then show ?thesis using cell side cell_inv_step [OF ci] by (auto simp: cw_ok_def)
qed

lemma cw_ok_step:
  assumes ok: "cw_ok w" and r: "cw_step x w = Ret () w'"
  shows "cw_ok w' \<and> (cw_abs w' = cw_abs w \<or> fifo_step 1 (cw_abs w) (cw_abs w'))
    \<and> (cw_cell w' = cw_cell w \<or> cell_step x (cw_cell w) (cw_cell w'))"
proof (cases "waiting w x")
  case True
  then show ?thesis using r ok by (simp add: cw_step_def)
next
  case w: False
  have ci: "cell_inv (cw_cell w)" and s: "side_ok w" and c: "count_ok w" using ok by (simp_all add: cw_ok_def)
  have cell: "cw_cell w' = cw_cell w \<or> cell_step x (cw_cell w) (cw_cell w')" by (rule cw_step_cell [OF s r])
  have r': "if in_close (pc w x) then close_step x (pc w x) w = Ret () w'
      else (case x of Reader \<Rightarrow> read_step (pc w x) w | Writer \<Rightarrow> write_step (pc w x) w) = Ret () w'"
    using r w by (simp add: cw_step_def split: if_splits)
  have side: "side_ok w'"
    using r' w read_step_side [OF s ci] write_step_side [OF s ci] close_step_read_side [OF s ci] close_step_write_side [OF s ci]
    by (cases x) (auto split: if_splits)
  have "count_ok w' \<and> (cw_abs w' = cw_abs w \<or> fifo_step 1 (cw_abs w) (cw_abs w'))"
    using r' w read_step_count [OF c s side] write_step_count [OF c s side _ ci] close_step_count [OF c s side]
    by (cases x) (auto split: if_splits)
  then show ?thesis using cell side cell_inv_step [OF ci] ci by (auto simp: cw_ok_def)
qed

lemma cw_idle_ok [simp]:
  "cw_cell (w\<lparr>idle := i\<rparr>) = cw_cell w" "cw_abs (w\<lparr>idle := i\<rparr>) = cw_abs w" "cw_ok (w\<lparr>idle := i\<rparr>) = cw_ok w"
  by (simp_all add: cw_cell_def cw_abs_def cw_ok_def side_ok_def count_ok_def reader_phase_def in_read_def)

lemma cw_ok_trans:
  assumes "cw_ok w" and "cw_trans w w'"
  shows "cw_ok w'" "cw_abs w' = cw_abs w \<or> fifo_step 1 (cw_abs w) (cw_abs w')"
    "cw_cell w' = cw_cell w \<or> (\<exists>s. cell_step s (cw_cell w) (cw_cell w'))"
  using assms(2) by (cases; use assms(1) cw_ok_begin [OF assms(1)] cw_ok_step [OF assms(1)] in force)+

lemma cw_ok_init: "cw_ok cw_init"
  by (simp add: cw_ok_def cell_inv_def cell_side_def cw_cell_def cell_of_def side_ok_def count_ok_def in_read_def
      reader_phase_def cw_init_def closing_def)

interpretation cw: refinement_system "\<lambda>w. w = cw_init" cw_trans cw_ok cw_abs "fifo_step 1"
  by unfold_locales (use cw_ok_init cw_ok_trans in blast)+

interpretation cww: waiter_client "\<lambda>w. w = cw_init" cw_trans cw_ok cw_cell
proof (unfold_locales, goal_cases)
  case (1 w w')
  then show ?case using cw_ok_trans(3) by blast
next
  case (2 w)
  then show ?case using cw_ok_init unfolding cw_ok_def by blast
qed

lemmas cw_reach = cw.inv_reach [OF refl]

lemma cw_run_reach: "cw_run es w = Some w' \<Longrightarrow> cw_trans\<^sup>*\<^sup>* w w'"
proof (induction es w rule: cw_run.induct)
  case (2 c es w)
  then show ?case
    by (auto split: option.splits intro: converse_rtranclp_into_rtranclp [of cw_trans] cw_call)
next
  case (3 s es w)
  then show ?case
    by (auto split: outcome.splits intro: converse_rtranclp_into_rtranclp [of cw_trans] cw_access)
next
  case (4 i es w)
  then show ?case using cw_idle [of w i] by (auto intro: converse_rtranclp_into_rtranclp [of cw_trans])
qed simp

lemma replicate_unfold: "replicate (numeral k) x = x # replicate (pred_numeral k) x"
  by (simp add: numeral_eq_Suc)

lemmas cw_eval = cw_step_def access_defs goto_def replicate_unfold

text \<open>The failures: \<open>_reader\<close> is where the phases say, and a task that is unparked waits.\<close>

lemma read_step_crash:
  assumes s: "side_ok w" and w: "\<not> waiting w Reader" and r: "read_step (pc w Reader) w = Crash f"
  shows "f = Assert_failed \<and> pc w Reader = Rd_assert \<and> closed w \<and> reader w \<noteq> nullptr"
proof -
  have h: "hand_inv (rphase (pc w Reader)) (wphase (pc w Writer)) (reader w) (ret_at w) (ret w)"
    using side_okD(7) [OF s] w by (simp add: reader_phase_def)
  show ?thesis
    using r h side_okD(1) [OF s]
    by (cases "pc w Reader"; cases "wphase (pc w Writer)") (auto simp: access_defs closing_def split: if_splits option.splits)
qed

lemma emplace_ok:
  assumes s: "side_ok w" and ci: "cell_inv (cw_cell w)" and l: "pc w Writer = Wr_emplace u \<or> pc w Writer = Wr_hand u"
  shows "reader w \<noteq> nullptr \<and> reader w = ret_at w"
proof -
  note h = side_okD(7) [OF s]
  have "reader w = ret_at w \<and> reader_phase w \<noteq> Outside"
    using l
  proof
    assume "pc w Writer = Wr_emplace u"
    then show ?thesis using h by (cases "reader_phase w") auto
  next
    assume l: "pc w Writer = Wr_hand u"
    then have "stalled w = Some Reader" using side_okD(6) [OF s] by simp
    then have "reader_phase w = Offering" using cell_invD(1) [OF ci, of Reader] side_okD(8) [OF s] l
      by (cases "pc w Reader") (auto simp: cw_cell_def reader_phase_def)
    then show ?thesis using h l by auto
  qed
  then show ?thesis using side_okD(2) [OF s] by auto
qed

lemma write_step_crash:
  assumes s: "side_ok w" and ci: "cell_inv (cw_cell w)" and r: "write_step (pc w Writer) w = Crash f"
  shows "f = Assert_failed \<and> (\<exists>u. pc w Writer = Wr_assert u) \<and> reader w = nullptr"
  using r emplace_ok [OF s ci]
  by (cases "pc w Writer") (auto simp: access_defs split: if_splits option.splits)

lemma close_step_no_crash:
  assumes ci: "cell_inv (cw_cell w)"
  shows "close_step x (pc w x) w \<noteq> Crash f"
proof -
  have "waiting w p" if "pc w x = Wake_sched k p" for k p
    using cell_invD(3,4) [OF ci, of x] that by (auto simp: cw_cell_def)
  then show ?thesis by (cases "pc w x") (auto simp: access_defs split: if_splits option.splits)
qed

text \<open>The one exception: a task that waits when nothing else can run. A read then leaves \<open>_reader\<close> behind.\<close>

lemma cw_throws:
  assumes "cw_step s w = Throw e w'"
  shows "e = Runtime_error ''nothing to do. deadlock?''" "idle w" "\<not> waiting w s"
    "if s = Reader then pc w Reader = Rd_wait \<and> w' = goto Reader (Idle None) (w\<lparr>waiting := (waiting w)(Reader := True), ret_at := nullptr\<rparr>)
     else (\<exists>u. pc w Writer = Wr_wait u) \<and> w' = goto Writer (Idle None) (w\<lparr>waiting := (waiting w)(Writer := True)\<rparr>)"
  using assms
  by (cases s; cases "pc w s"; auto simp: cw_step_def access_defs goto_def split: if_splits option.splits)+

lemma cw_throws_iff:
  assumes "cell_inv (cw_cell w)"
  shows "(\<exists>e w'. cw_step s w = Throw e w') \<longleftrightarrow> idle w \<and> parks_next s w"
proof
  assume "\<exists>e w'. cw_step s w = Throw e w'"
  then show "idle w \<and> parks_next s w" using cw_throws by (cases s) (fastforce simp: parks_next_def)+
next
  assume p: "idle w \<and> parks_next s w"
  then have "\<not> waiting w s"
    using cell_invD(2) [OF assms, of s] by (cases s) (auto simp: parks_next_def cw_cell_def)
  with p show "\<exists>e w'. cw_step s w = Throw e w'"
    by (cases s) (auto simp: parks_next_def cw_step_def park_wait_def)
qed

lemma lone_read_dangles:
  assumes ok: "cw_ok w" and t: "cw_step Reader w = Throw e w'" and i: "pc w Writer = Idle v"
  shows "\<exists>w''. cw_run (write_ahead u) w' = Some w'' \<and> pc w'' Writer = Wr_hand u \<and> cw_step Writer w'' = Crash Bad_pointer"
proof -
  have ci: "cell_inv (cw_cell w)" and s: "side_ok w" using ok by (simp_all add: cw_ok_def)
  note T = cw_throws [OF t, simplified]
  have w: "\<not> waiting w Writer" using cell_invD(2) [OF ci, of Writer] i by (auto simp: cw_cell_def)
  have st: "stalled w = Some Reader" using cell_invD(1) [OF ci, of Reader] T(4) by (simp add: cw_cell_def)
  have rp: "reader_phase w = Offering" using T(3,4) by (simp add: reader_phase_def)
  then have "reader w = ret_at w" using side_okD(7) [OF s] i by simp
  then have r: "reader w \<noteq> nullptr" using side_okD(2) [OF s] rp by simp
  have c: "\<not> closed w" using side_okD(1) [OF s] i T(4) by (simp add: closing_def)
  show ?thesis using T(4) w st r c i by (simp add: write_ahead_def cw_eval)
qed

section \<open>Properties\<close>

text \<open>
  C8. The window passes values in order and exactly once, without buffering: under every
  interleaving it is a queue of at most one value, which is there only while a read is under way;
  the values emplaced are those received and this one, and also those whose write has been
  accepted and the one whose write is about to be.
\<close>

theorem channel_window_is_synchronous:
  assumes "cw_trans\<^sup>*\<^sup>* cw_init w"
  shows "(fifo_step 1)\<^sup>*\<^sup>* ([], [], []) (sent w, in_read w, got w) \<and> sent w = got w @ in_read w
     \<and> sent w = accepted w @ in_write (pc w Writer) \<and> length (in_write (pc w Writer)) \<le> 1
     \<and> (ret_at w = nullptr \<longrightarrow> in_read w = [])"
proof -
  have ok: "side_ok w" "count_ok w" using cw_reach [OF assms] by (simp_all add: cw_ok_def)
  note n = count_okD [OF ok(2)]
  have "(fifo_step 1)\<^sup>*\<^sup>* (cw_abs cw_init) (cw_abs w)" by (rule cw.refines_reach [OF refl assms])
  moreover have "cw_abs w = (sent w, in_read w, got w)" using n(1) by (simp add: cw_abs_def)
  moreover have "length (in_write l) \<le> 1" for l :: "'a cw_pc"
    by (induction l rule: in_write.induct) (auto split: write_phase.splits)
  ultimately show ?thesis using n in_read_at [OF ok(1)] by (simp add: cw_init_def cw_abs_def)
qed

theorem channel_window_is_synchronous_witness:
  "\<exists>w. cw_trans\<^sup>*\<^sup>* cw_init w \<and> got w = [7 :: nat] \<and> sent w = accepted w @ in_write (pc w Writer)"
proof -
  obtain w where w: "cw_run (reader_first 8 (7 :: nat)) cw_init = Some w" "got w = [7]"
    by (simp add: reader_first_def park_read_def meet_reader_def cw_eval cw_init_def)
  show ?thesis
    using channel_window_is_synchronous [OF cw_run_reach [OF w(1)]] cw_run_reach [OF w(1)] w(2) by blast
qed

text \<open>
  C22. How an access of the window can fail. Until a call throws, only two checks can fail: the
  assertion at the start of a read, once the window is closed, and that of a parked writer that
  finds no reader; a value is never emplaced through a null or dangling \<open>_reader\<close>, a resumed reader
  finds \<open>_reader\<close> reset, and a task that is unparked waits. The only exception is that of
  \<open>sched::yield()\<close>, and it comes exactly when a task is about to wait and nothing else can run; it
  leaves the task in the cell and \<open>WAITING\<close>. When it leaves a read, \<open>_reader\<close> keeps pointing to the destroyed result, and the next
  write, if the program goes on, emplaces its value there.
\<close>

theorem channel_window_failures:
  assumes "cw_trans\<^sup>*\<^sup>* cw_init w"
  shows "(cw_step s w = Crash f \<longrightarrow> f = Assert_failed \<and>
      (s = Reader \<and> pc w Reader = Rd_assert \<and> closed w \<and> reader w \<noteq> nullptr
       \<or> s = Writer \<and> (\<exists>u. pc w Writer = Wr_assert u) \<and> reader w = nullptr))
    \<and> ((\<exists>e w'. cw_step s w = Throw e w') \<longleftrightarrow> idle w \<and> parks_next s w)
    \<and> (cw_step s w = Throw e w' \<longrightarrow> e = Runtime_error ''nothing to do. deadlock?'' \<and> waiting w' s \<and> stalled w' = Some s)
    \<and> (cw_step Reader w = Throw e w' \<and> pc w Writer = Idle v \<longrightarrow>
       (\<exists>w''. cw_run (write_ahead u) w' = Some w'' \<and> pc w'' Writer = Wr_hand u \<and> cw_step Writer w'' = Crash Bad_pointer))"
proof (intro conjI impI)
  have cw: "cw_ok w" by (rule cw_reach [OF assms])
  then have ok: "side_ok w" "cell_inv (cw_cell w)" by (simp_all add: cw_ok_def)
  show "f = Assert_failed" "s = Reader \<and> pc w Reader = Rd_assert \<and> closed w \<and> reader w \<noteq> nullptr
       \<or> s = Writer \<and> (\<exists>u. pc w Writer = Wr_assert u) \<and> reader w = nullptr" if "cw_step s w = Crash f"
    using that read_step_crash [OF ok(1)] write_step_crash [OF ok] close_step_no_crash [OF ok(2)]
    by (cases s; auto simp: cw_step_def split: if_splits)+
  show "(\<exists>e w'. cw_step s w = Throw e w') \<longleftrightarrow> idle w \<and> parks_next s w" by (rule cw_throws_iff [OF ok(2)])
  show "e = Runtime_error ''nothing to do. deadlock?''" "waiting w' s" "stalled w' = Some s" if "cw_step s w = Throw e w'"
    using cw_throws [OF that] cell_invD(1) [OF ok(2), of s] by (cases s; auto simp: cw_cell_def)+
  show "\<exists>w''. cw_run (write_ahead u) w' = Some w'' \<and> pc w'' Writer = Wr_hand u \<and> cw_step Writer w'' = Crash Bad_pointer"
    if "cw_step Reader w = Throw e w' \<and> pc w Writer = Idle v"
    using lone_read_dangles [OF cw] that by blast
qed

lemma read_twice_fails:
  "\<exists>w. cw_run (read_twice 8) cw_init = Some w \<and> pc w Reader = Rd_assert \<and> pc w Writer = Gone \<and> got w = []
     \<and> reader w = 8 \<and> cw_step Reader w = Crash Assert_failed"
  by (simp add: read_twice_def cw_eval cw_init_def)

lemma lone_read_throws:
  "\<exists>w w'. cw_run (lone_read 8) cw_init = Some w \<and> pc w Writer = Idle None
     \<and> cw_step Reader w = Throw (Runtime_error ''nothing to do. deadlock?'') w'"
  by (simp add: lone_read_def cw_eval cw_init_def)

theorem channel_window_failures_witness:
  "(\<exists>w :: nat channel_window. cw_trans\<^sup>*\<^sup>* cw_init w \<and> cw_step Reader w = Crash Assert_failed \<and> closed w)
    \<and> (\<exists>(w :: nat channel_window) w' w''. cw_trans\<^sup>*\<^sup>* cw_init w
         \<and> cw_step Reader w = Throw (Runtime_error ''nothing to do. deadlock?'') w'
         \<and> cw_run (write_ahead 7) w' = Some w'' \<and> cw_step Writer w'' = Crash Bad_pointer)"
proof
  obtain w :: "nat channel_window" where w: "cw_run (read_twice 8) cw_init = Some w" "cw_step Reader w = Crash Assert_failed"
    using read_twice_fails by blast
  show "\<exists>w :: nat channel_window. cw_trans\<^sup>*\<^sup>* cw_init w \<and> cw_step Reader w = Crash Assert_failed \<and> closed w"
    using channel_window_failures [OF cw_run_reach [OF w(1)], of Reader Assert_failed] cw_run_reach [OF w(1)] w(2) by blast
next
  obtain w w' :: "nat channel_window" where w: "cw_run (lone_read 8) cw_init = Some w" "pc w Writer = Idle None"
    "cw_step Reader w = Throw (Runtime_error ''nothing to do. deadlock?'') w'"
    using lone_read_throws by blast
  note r = cw_run_reach [OF w(1)]
  from channel_window_failures [OF r] w(2,3)
  obtain w'' where "cw_run (write_ahead 7) w' = Some w''" "cw_step Writer w'' = Crash Bad_pointer" by blast
  with r w(3) show "\<exists>(w :: nat channel_window) w' w''. cw_trans\<^sup>*\<^sup>* cw_init w
         \<and> cw_step Reader w = Throw (Runtime_error ''nothing to do. deadlock?'') w'
         \<and> cw_run (write_ahead 7) w' = Some w'' \<and> cw_step Writer w'' = Crash Bad_pointer" by blast
qed

text \<open>
  C23. The two tasks never wait for each other: in every state at most one of them waits, and once
  \<open>close\<close> of one end has returned the other task is not waiting in any later state.
\<close>

theorem channel_window_never_deadlocks:
  assumes "cw_trans\<^sup>*\<^sup>* cw_init w" and "cw_trans\<^sup>*\<^sup>* w w'"
  shows "\<not> (waiting w Reader \<and> waiting w Writer) \<and> (pc w s = Gone \<longrightarrow> closed w' \<and> \<not> waiting w' (other s))"
proof
  show "\<not> (waiting w Reader \<and> waiting w Writer)"
    using cww.never_both_wait [OF refl assms(1)] by (simp add: cw_cell_def)
  show "pc w s = Gone \<longrightarrow> closed w' \<and> \<not> waiting w' (other s)"
    using cww.left_releases [OF refl assms(1) _ assms(2), of s] by (simp add: cw_cell_def)
qed

theorem channel_window_never_deadlocks_witness:
  "\<exists>w :: nat channel_window. cw_trans\<^sup>*\<^sup>* cw_init w \<and> pc w Writer = Gone \<and> closed w \<and> \<not> waiting w Reader"
proof -
  obtain w :: "nat channel_window"
    where w: "cw_run (read_twice 8) cw_init = Some w" "pc w Writer = Gone" using read_twice_fails by blast
  show ?thesis
    using channel_window_never_deadlocks [OF cw_run_reach [OF w(1)], of w Writer] cw_run_reach [OF w(1)] w(2) by auto
qed

text \<open>
  A writer can fail the assertion that a reader is there: after a handover the reader's own
  wake-up loop unparks the writer of the next value, and when that writer runs before the next
  read it finds \<open>_reader\<close> null, on a window that is open.
\<close>

theorem channel_window_writer_unserved:
  assumes "a \<noteq> nullptr"
  shows "\<exists>w. cw_trans\<^sup>*\<^sup>* cw_init w \<and> \<not> closed w \<and> pc w Reader = Idle (Some u) \<and> pc w Writer = Wr_assert v
    \<and> cw_step Writer w = Crash Assert_failed"
proof -
  obtain w where w: "cw_run (woken_early a u v) cw_init = Some w" "\<not> closed w" "pc w Reader = Idle (Some u)"
      "pc w Writer = Wr_assert v" "cw_step Writer w = Crash Assert_failed"
    using assms by (simp add: woken_early_def park_read_def meet_reader_def cw_eval cw_init_def)
  then show ?thesis using cw_run_reach [OF w(1)] by blast
qed

theorem channel_window_writer_unserved_witness:
  "\<exists>w. cw_trans\<^sup>*\<^sup>* cw_init w \<and> pc w Reader = Idle (Some (7 :: nat)) \<and> cw_step Writer w = Crash Assert_failed"
  using channel_window_writer_unserved [of 8 "7 :: nat" 9] by auto

text \<open>
  Reading a closed window twice fails: a read that finds the window closed returns without
  resetting \<open>_reader\<close>, which then points to its dead result, and the next read fails the assertion
  that \<open>_reader\<close> is null.
\<close>

theorem channel_window_second_read_fails:
  "\<exists>w :: 'a channel_window. cw_trans\<^sup>*\<^sup>* cw_init w \<and> pc w Writer = Gone \<and> got w = [] \<and> reader w \<noteq> nullptr
    \<and> cw_step Reader w = Crash Assert_failed"
proof -
  obtain w :: "'a channel_window" where w: "cw_run (read_twice 8) cw_init = Some w" "pc w Writer = Gone" "got w = []" "reader w = 8"
      "cw_step Reader w = Crash Assert_failed"
    using read_twice_fails by blast
  then show ?thesis using cw_run_reach [OF w(1)] by (intro exI [of _ w]) simp
qed

end
