(* ===== verification/Channel.thy ===== *)
theory Channel
  imports Waiter
begin

text \<open>
  Channels (\<open>concur/channel.h\<close>, \<open>concur/channel_impl.h\<close>) and the wrapper that owns one end of a
  channel (\<open>util/close_wrapper.h\<close>). A channel is a monitor, a channel window or a ring buffer, behind
  a \<open>shared_ptr\<close>, and two functions that hold a \<open>close_wrapper\<close> on it each: destroying such a function
  closes the monitor, and the monitor is deleted with the last of them.

  The monitor is any type with the operations \<open>monitor_ops\<close>. The locale \<open>monitor_contract\<close> says what a
  channel relies on, and shows that each end is closed once, that the monitor is not deleted while a
  task may be inside it, and that a task is not left waiting for an end that is gone. The two kinds
  of channel interpret it in the theories \<open>Channel_Sync\<close> and \<open>Channel_Buffered\<close>.
\<close>

section \<open>Definitions\<close>

text \<open>How far the \<open>close()\<close> of one side has come.\<close>

datatype end_phase = Open_end | Closing_end | Closed_end

text \<open>
  A monitor: the start of a \<open>read\<close> or \<open>write\<close>, the start of a \<open>close\<close>, one access of a task inside a call,
  the progress of \<open>close\<close>, and whether the task of a side is parked.
\<close>

record 'm monitor_ops =
  begin_call :: "side \<Rightarrow> 'm \<Rightarrow> 'm \<Rightarrow> bool"
  begin_close :: "side \<Rightarrow> 'm \<Rightarrow> 'm option"
  access :: "'m \<Rightarrow> 'm \<Rightarrow> bool"
  end_phase_of :: "side \<Rightarrow> 'm \<Rightarrow> end_phase"
  parked :: "side \<Rightarrow> 'm \<Rightarrow> bool"

subsection \<open>The wrapper\<close>

text \<open>
  \<open>resource\<close> tells whether \<open>_resource\<close> points to the monitor, and \<open>ending\<close> whether the destructor has
  called \<open>close()\<close>; \<open>side_of\<close> is the end of the channel the wrapper is for.
\<close>

record close_wrapper =
  side_of :: side
  resource :: bool
  ending :: bool

text \<open>The monitor, the owners its \<open>shared_ptr\<close> counts, and the wrappers by the place they are at.\<close>

record 'm channel =
  monitor :: "'m option"
  use_count :: nat
  wrappers :: "nat \<rightharpoonup> close_wrapper"

definition shared_copy :: "'m channel \<Rightarrow> 'm channel" where
  "shared_copy ch = ch\<lparr>use_count := use_count ch + 1\<rparr>"

definition shared_release :: "'m channel \<Rightarrow> 'm channel" where
  "shared_release ch =
     ch\<lparr>use_count := use_count ch - 1, monitor := if use_count ch = 1 then None else monitor ch\<rparr>"

text \<open>The constructor copies the pointer into its parameter and from there into the member.\<close>

definition close_wrapper_ctor :: "nat \<Rightarrow> side \<Rightarrow> 'm channel \<Rightarrow> 'm channel" where
  "close_wrapper_ctor i s ch =
     (let ch1 = shared_copy (shared_copy ch)
      in shared_release
           (ch1\<lparr>wrappers := (wrappers ch1)(i \<mapsto> \<lparr>side_of = s, resource = True, ending = False\<rparr>)\<rparr>))"

text \<open>Moving a wrapper leaves a null pointer behind.\<close>

definition close_wrapper_move :: "nat \<Rightarrow> nat \<Rightarrow> 'm channel \<Rightarrow> 'm channel" where
  "close_wrapper_move i j ch =
     (case wrappers ch i of
        None \<Rightarrow> ch
      | Some x \<Rightarrow> ch\<lparr>wrappers := (wrappers ch)(i \<mapsto> x\<lparr>resource := False\<rparr>, j \<mapsto> x)\<rparr>)"

text \<open>
  The defaulted move assignment moves the member: what the target held is released. It is not a step
  of a channel below, since the lambdas that hold the wrappers cannot be assigned.
\<close>

definition close_wrapper_assign :: "nat \<Rightarrow> nat \<Rightarrow> 'm channel \<Rightarrow> 'm channel" where
  "close_wrapper_assign i j ch =
     (case (wrappers ch i, wrappers ch j) of
        (Some x, Some y) \<Rightarrow>
          (let ch1 = ch\<lparr>wrappers := (wrappers ch)(i \<mapsto> x\<lparr>resource := False\<rparr>, j \<mapsto> x)\<rparr>
           in if resource y then shared_release ch1 else ch1)
      | _ \<Rightarrow> ch)"

text \<open>
  The destructor, up to the call of \<open>close()\<close> and after it. \<open>None\<close> when the side's task is inside another
  call: the wrapper is destroyed by that task.
\<close>

definition close_wrapper_dtor :: "'m monitor_ops \<Rightarrow> nat \<Rightarrow> 'm channel \<Rightarrow> (unit, 'm channel) outcome option" where
  "close_wrapper_dtor ops i ch =
     (case wrappers ch i of
        None \<Rightarrow> None
      | Some x \<Rightarrow>
          if \<not> resource x then Some (Ret () (ch\<lparr>wrappers := (wrappers ch)(i := None)\<rparr>))
          else (case monitor ch of
                  None \<Rightarrow> Some (Crash Bad_pointer)
                | Some m \<Rightarrow>
                    map_option
                      (\<lambda>m1. Ret () (ch\<lparr>monitor := Some m1, wrappers := (wrappers ch)(i \<mapsto> x\<lparr>ending := True\<rparr>)\<rparr>))
                      (begin_close ops (side_of x) m)))"

definition close_wrapper_dtor_end :: "nat \<Rightarrow> 'm channel \<Rightarrow> 'm channel" where
  "close_wrapper_dtor_end i ch = shared_release (ch\<lparr>wrappers := (wrappers ch)(i := None)\<rparr>)"

subsection \<open>The channel\<close>

text \<open>
  \<open>make_wishbone_channel\<close>: the monitor with its local \<open>shared_ptr\<close>, the local functions \<open>read\<close> and \<open>write\<close>
  at places 0 and 1, moved into the result at 2 and 3; then the locals are destroyed.
\<close>

definition drop_moved :: "nat \<Rightarrow> 'm channel \<Rightarrow> 'm channel" where
  "drop_moved i ch = ch\<lparr>wrappers := (wrappers ch)(i := None)\<rparr>"

definition make_wishbone_channel :: "'m \<Rightarrow> 'm channel" where
  "make_wishbone_channel m =
     (let ch0 = \<lparr>monitor = Some m, use_count = 1, wrappers = Map.empty\<rparr>;
          ch1 = close_wrapper_ctor 0 Reader ch0;
          ch2 = close_wrapper_ctor 1 Writer ch1;
          ch3 = close_wrapper_move 1 3 (close_wrapper_move 0 2 ch2)
      in shared_release (drop_moved 0 (drop_moved 1 ch3)))"

text \<open>A call of the function at place \<open>i\<close>: \<open>w->read()\<close> or \<open>w->write(t)\<close>.\<close>

inductive end_call :: "'m monitor_ops \<Rightarrow> nat \<Rightarrow> 'm channel \<Rightarrow> (unit, 'm channel) outcome \<Rightarrow> bool" for ops where
  call_null: "wrappers ch i = Some x \<Longrightarrow> \<not> resource x \<Longrightarrow> end_call ops i ch (Crash Bad_pointer)"
| call_dead: "wrappers ch i = Some x \<Longrightarrow> resource x \<Longrightarrow> monitor ch = None \<Longrightarrow> end_call ops i ch (Crash Bad_pointer)"
| call_starts: "wrappers ch i = Some x \<Longrightarrow> resource x \<Longrightarrow> \<not> ending x \<Longrightarrow> monitor ch = Some m \<Longrightarrow>
    begin_call ops (side_of x) m m' \<Longrightarrow> end_call ops i ch (Ret () (ch\<lparr>monitor := Some m'\<rparr>))"

text \<open>What programs do with a channel: calls, accesses, moves of its ends, and their destruction.\<close>

inductive chan_step :: "'m monitor_ops \<Rightarrow> 'm channel \<Rightarrow> 'm channel \<Rightarrow> bool" for ops where
  chan_call: "end_call ops i ch (Ret () ch') \<Longrightarrow> chan_step ops ch ch'"
| chan_access: "monitor ch = Some m \<Longrightarrow> access ops m m' \<Longrightarrow> chan_step ops ch (ch\<lparr>monitor := Some m'\<rparr>)"
| chan_move: "wrappers ch i = Some x \<Longrightarrow> \<not> ending x \<Longrightarrow> wrappers ch j = None \<Longrightarrow>
    chan_step ops ch (close_wrapper_move i j ch)"
| chan_drop: "wrappers ch i = Some x \<Longrightarrow> \<not> ending x \<Longrightarrow> close_wrapper_dtor ops i ch = Some (Ret () ch') \<Longrightarrow>
    chan_step ops ch ch'"
| chan_dropped: "wrappers ch i = Some x \<Longrightarrow> ending x \<Longrightarrow> monitor ch = Some m \<Longrightarrow>
    end_phase_of ops (side_of x) m = Closed_end \<Longrightarrow> chan_step ops ch (close_wrapper_dtor_end i ch)"

text \<open>The wrappers that own the monitor, and those of one side.\<close>

definition owners :: "'m channel \<Rightarrow> nat set" where
  "owners ch = {i. \<exists>x. wrappers ch i = Some x \<and> resource x}"

definition owner_of :: "side \<Rightarrow> 'm channel \<Rightarrow> nat \<Rightarrow> close_wrapper \<Rightarrow> bool" where
  "owner_of s ch i x \<longleftrightarrow> wrappers ch i = Some x \<and> resource x \<and> side_of x = s"

text \<open>
  The invariant: the owners are counted, there is at most one for a side, it has started to close
  its side exactly when it is being destroyed, and a side without owner is closed.
\<close>

definition chan_ok :: "'m monitor_ops \<Rightarrow> ('m \<Rightarrow> bool) \<Rightarrow> 'm channel \<Rightarrow> bool" where
  "chan_ok ops good ch \<longleftrightarrow>
     finite (owners ch) \<and> use_count ch = card (owners ch) \<and> (monitor ch = None \<longleftrightarrow> owners ch = {}) \<and>
     (\<forall>i x. wrappers ch i = Some x \<and> ending x \<longrightarrow> resource x) \<and>
     (\<forall>s i x j y. owner_of s ch i x \<and> owner_of s ch j y \<longrightarrow> i = j) \<and>
     (\<forall>m. monitor ch = Some m \<longrightarrow>
        good m \<and>
        (\<forall>s i x. owner_of s ch i x \<longrightarrow> (ending x \<longleftrightarrow> end_phase_of ops s m \<noteq> Open_end)) \<and>
        (\<forall>s. (\<forall>i x. \<not> owner_of s ch i x) \<longrightarrow> end_phase_of ops s m = Closed_end))"

section \<open>The contract of a monitor\<close>

locale monitor_contract =
  fixes ops :: "'m monitor_ops" and init :: 'm and good :: "'m \<Rightarrow> bool"
  assumes mon_init_ok: "good init" "end_phase_of ops s init = Open_end"
    and mon_call_ok: "good m \<Longrightarrow> begin_call ops s m m' \<Longrightarrow>
      good m' \<and> (\<forall>x. end_phase_of ops x m' = end_phase_of ops x m)"
    and mon_close_ok: "good m \<Longrightarrow> begin_close ops s m = Some m' \<Longrightarrow>
      good m' \<and> end_phase_of ops s m' = Closing_end \<and> end_phase_of ops (other s) m' = end_phase_of ops (other s) m"
    and mon_access_ok: "good m \<Longrightarrow> access ops m m' \<Longrightarrow>
      good m' \<and> (\<forall>x. end_phase_of ops x m' = end_phase_of ops x m \<or>
        end_phase_of ops x m = Closing_end \<and> end_phase_of ops x m' = Closed_end)"
    and mon_closed_releases: "good m \<Longrightarrow> end_phase_of ops s m = Closed_end \<Longrightarrow> \<not> parked ops (other s) m"
begin

lemma make_ok: "chan_ok ops good (make_wishbone_channel init)"
proof -
  let ?ch = "make_wishbone_channel init"
  have w: "wrappers ?ch = [2 \<mapsto> \<lparr>side_of = Reader, resource = True, ending = False\<rparr>, 3 \<mapsto> \<lparr>side_of = Writer, resource = True, ending = False\<rparr>]"
      "use_count ?ch = 2" "monitor ?ch = Some init"
    by (simp_all add: make_wishbone_channel_def close_wrapper_ctor_def close_wrapper_move_def shared_copy_def
        shared_release_def drop_moved_def Let_def fun_eq_iff)
  have o: "owners ?ch = {2, 3}" by (auto simp: owners_def w split: if_splits)
  have of: "owner_of s ?ch i x \<longleftrightarrow> i = (case s of Reader \<Rightarrow> 2 | Writer \<Rightarrow> 3) \<and> x = \<lparr>side_of = s, resource = True, ending = False\<rparr>" for s i x
    by (cases s) (auto simp: owner_of_def w)
  show ?thesis
    unfolding chan_ok_def of o w using mon_init_ok by (auto split: if_splits)
qed

lemma chan_okD:
  assumes "chan_ok ops good ch"
  shows "finite (owners ch)" "use_count ch = card (owners ch)" "monitor ch = None \<longleftrightarrow> owners ch = {}"
    "wrappers ch i = Some x \<Longrightarrow> ending x \<Longrightarrow> resource x"
    "owner_of s ch i x \<Longrightarrow> owner_of s ch j y \<Longrightarrow> i = j"
    "monitor ch = Some m \<Longrightarrow> good m"
    "monitor ch = Some m \<Longrightarrow> owner_of s ch i x \<Longrightarrow> ending x \<longleftrightarrow> end_phase_of ops s m \<noteq> Open_end"
    "monitor ch = Some m \<Longrightarrow> (\<And>i x. \<not> owner_of s ch i x) \<Longrightarrow> end_phase_of ops s m = Closed_end"
  using assms unfolding chan_ok_def by blast+

text \<open>A change of the monitor that keeps every side open, or ends a close.\<close>

lemma chan_ok_monitor:
  assumes ok: "chan_ok ops good ch" and m: "monitor ch = Some m" "good m'"
    and ph: "\<And>s. end_phase_of ops s m' = end_phase_of ops s m \<or>
        end_phase_of ops s m = Closing_end \<and> end_phase_of ops s m' = Closed_end"
  shows "chan_ok ops good (ch\<lparr>monitor := Some m'\<rparr>)"
proof -
  have o: "owners (ch\<lparr>monitor := Some m'\<rparr>) = owners ch" "owner_of s (ch\<lparr>monitor := Some m'\<rparr>) = owner_of s ch" for s
    by (auto simp: owners_def owner_of_def fun_eq_iff)
  have "end_phase_of ops s m' \<noteq> Open_end \<longleftrightarrow> end_phase_of ops s m \<noteq> Open_end"
    "end_phase_of ops s m = Closed_end \<Longrightarrow> end_phase_of ops s m' = Closed_end" for s
    using ph [of s] by auto
  then show ?thesis
    using chan_okD [OF ok] m unfolding chan_ok_def o by simp blast
qed

lemma move_ok:
  assumes ok: "chan_ok ops good ch" and x: "wrappers ch i = Some x" "\<not> ending x" "wrappers ch j = None"
  shows "chan_ok ops good (close_wrapper_move i j ch)"
proof -
  let ?ch = "close_wrapper_move i j ch"
  have ij: "i \<noteq> j" using x by auto
  have w: "wrappers ?ch = (wrappers ch)(i \<mapsto> x\<lparr>resource := False\<rparr>, j \<mapsto> x)" "monitor ?ch = monitor ch" "use_count ?ch = use_count ch"
    using x by (simp_all add: close_wrapper_move_def)
  have own: "owners ?ch = (if resource x then insert j (owners ch - {i}) else owners ch)"
    using x ij by (auto simp: owners_def w split: if_splits)
  have of: "owner_of s ?ch k y \<longleftrightarrow> (if k = j then y = x \<and> resource x \<and> side_of x = s else k \<noteq> i \<and> owner_of s ch k y)" for s k y
    using x ij by (auto simp: owner_of_def w)
  have oi: "resource x \<Longrightarrow> owner_of (side_of x) ch i x" using x by (simp add: owner_of_def)
  have u1: "k = i" if "resource x" "owner_of (side_of x) ch k y" for k y using chan_okD(5) [OF ok that(2) oi [OF that(1)]] .
  have jn: "j \<notin> owners ch" using x(3) by (simp add: owners_def)
  have ix: "resource x \<Longrightarrow> i \<in> owners ch" using x by (simp add: owners_def)
  have card: "card (owners ?ch) = card (owners ch)"
    using own jn ix chan_okD(1) [OF ok] card_Suc_Diff1 [of "owners ch" i] by (auto simp: card.insert_remove)
  have none: "\<not> owner_of s ch k y" if "\<And>i x. \<not> owner_of s ?ch i x" for s k y
    using that [of k y] that [of j x] x ij by (auto simp: owner_of_def w split: if_splits)
  show ?thesis
    unfolding chan_ok_def
  proof (intro conjI allI impI)
    show "finite (owners ?ch)" using own chan_okD(1) [OF ok] by simp
    show "use_count ?ch = card (owners ?ch)" using card w chan_okD(2) [OF ok] by simp
    show "monitor ?ch = None \<longleftrightarrow> owners ?ch = {}" using own ix chan_okD(3) [OF ok] w by auto
    show "resource y" if "wrappers ?ch k = Some y \<and> ending y" for k y
      using that x chan_okD(4) [OF ok] by (auto simp: w split: if_splits)
    show "k = l" if "owner_of s ?ch k y \<and> owner_of s ?ch l z" for s k y l z
      by (cases "k = j"; cases "l = j")
        (use that u1 [of k y] u1 [of l z] chan_okD(5) [OF ok, of s k y l z] in \<open>auto simp: of\<close>)
    show "good m" if "monitor ?ch = Some m" for m using that w chan_okD(6) [OF ok] by simp
    show "ending y \<longleftrightarrow> end_phase_of ops s m \<noteq> Open_end" if "monitor ?ch = Some m" "owner_of s ?ch k y" for m s k y
      using that chan_okD(7) [OF ok, of m s] x w by (auto simp: of owner_of_def split: if_splits)
    show "end_phase_of ops s m = Closed_end" if "monitor ?ch = Some m" "\<forall>i x. \<not> owner_of s ?ch i x" for m s
      using chan_okD(8) [OF ok, of m s] none [of s] that w by auto
  qed
qed

lemma drop_ok:
  assumes ok: "chan_ok ops good ch" and x: "wrappers ch i = Some x" "\<not> ending x"
    and d: "close_wrapper_dtor ops i ch = Some (Ret () ch')"
  shows "chan_ok ops good ch'"
proof (cases "resource x")
  case False
  then have c: "ch' = ch\<lparr>wrappers := (wrappers ch)(i := None)\<rparr>" using x d by (simp add: close_wrapper_dtor_def)
  have o: "owners ch' = owners ch" "owner_of s ch' = owner_of s ch" for s
    using x False by (auto simp: c owners_def owner_of_def fun_eq_iff)
  show ?thesis
    using chan_okD [OF ok] unfolding chan_ok_def o by (auto simp: c split: if_splits)
next
  case True
  then have ox: "owner_of (side_of x) ch i x" using x by (simp add: owner_of_def)
  obtain m m' where m: "monitor ch = Some m" "begin_close ops (side_of x) m = Some m'"
      and c: "ch' = ch\<lparr>monitor := Some m', wrappers := (wrappers ch)(i \<mapsto> x\<lparr>ending := True\<rparr>)\<rparr>"
    using x d True by (auto simp: close_wrapper_dtor_def split: option.splits)
  note cl = mon_close_ok [OF chan_okD(6) [OF ok m(1)] m(2)]
  have o: "owners ch' = owners ch" using x True by (auto simp: c owners_def)
  have of: "owner_of s ch' k y \<longleftrightarrow> (if k = i then y = x\<lparr>ending := True\<rparr> \<and> side_of x = s else owner_of s ch k y)" for s k y
    using x True by (auto simp: c owner_of_def)
  have was: "\<exists>y'. owner_of s ch k y'" if "owner_of s ch' k y" for s k y
    using that ox by (cases "k = i") (auto simp: of)
  have ph: "end_phase_of ops s m' = (if s = side_of x then Closing_end else end_phase_of ops s m)" for s
    using cl by (cases s; cases "side_of x") auto
  have one: "k = i" if "owner_of (side_of x) ch k y" for k y using chan_okD(5) [OF ok that ox] .
  show ?thesis
    unfolding chan_ok_def o
  proof (intro conjI allI impI)
    show "monitor ch' = None \<longleftrightarrow> owners ch = {}" using chan_okD(3) [OF ok] m c by simp
    show "resource y" if "wrappers ch' k = Some y \<and> ending y" for k y
      using that chan_okD(4) [OF ok] True by (auto simp: c split: if_splits)
    show "k = l" if "owner_of s ch' k y \<and> owner_of s ch' l z" for s k y l z
      using that was [of s k y] was [of s l z] chan_okD(5) [OF ok, of s] by blast
    show "good m1" if "monitor ch' = Some m1" for m1 using that c cl by simp
    show "ending y \<longleftrightarrow> end_phase_of ops s m1 \<noteq> Open_end" if y: "monitor ch' = Some m1" "owner_of s ch' k y" for m1 s k y
    proof (cases "k = i")
      case True
      then have "ending y" "side_of x = s" using y(2) by (simp_all add: of)
      then show ?thesis using ph [of s] y(1) c by simp
    next
      case False
      then have k: "owner_of s ch k y" using y(2) by (simp add: of)
      then have "s \<noteq> side_of x" using one [of k y] False by auto
      then show ?thesis using chan_okD(7) [OF ok m(1) k] ph [of s] y(1) c by simp
    qed
    show "end_phase_of ops s m1 = Closed_end" if m1: "monitor ch' = Some m1" "\<forall>i x. \<not> owner_of s ch' i x" for m1 s
    proof -
      have "s \<noteq> side_of x" using m1(2) unfolding of by (metis (full_types))
      then have "\<not> owner_of s ch k y" for k y
        using m1(2) [rule_format, of k y] x(1) by (cases "k = i") (auto simp: of, simp add: owner_of_def)
      then show ?thesis using chan_okD(8) [OF ok m(1)] ph [of s] \<open>s \<noteq> side_of x\<close> m1(1) c by simp
    qed
  qed (use chan_okD(1,2) [OF ok] c in simp_all)
qed

lemma dropped_ok:
  assumes ok: "chan_ok ops good ch" and x: "wrappers ch i = Some x" "ending x" and m: "monitor ch = Some m"
    and cl: "end_phase_of ops (side_of x) m = Closed_end"
  shows "chan_ok ops good (close_wrapper_dtor_end i ch)"
    and "monitor (close_wrapper_dtor_end i ch) = None \<Longrightarrow> end_phase_of ops s m = Closed_end"
proof -
  let ?ch = "close_wrapper_dtor_end i ch"
  have r: "resource x" using chan_okD(4) [OF ok x] .
  have ox: "owner_of (side_of x) ch i x" using x r by (simp add: owner_of_def)
  have io: "i \<in> owners ch" using x r by (simp add: owners_def)
  have o: "owners ?ch = owners ch - {i}" by (auto simp: close_wrapper_dtor_end_def shared_release_def owners_def)
  have of: "owner_of s ?ch k y \<longleftrightarrow> k \<noteq> i \<and> owner_of s ch k y" for s k y
    by (auto simp: close_wrapper_dtor_end_def shared_release_def owner_of_def)
  have uc: "use_count ?ch = card (owners ch) - 1" "monitor ?ch = (if card (owners ch) = 1 then None else Some m)"
    using chan_okD(2) [OF ok] m by (simp_all add: close_wrapper_dtor_end_def shared_release_def)
  have em: "owners ch - {i} = {} \<longleftrightarrow> card (owners ch) = 1"
    using io chan_okD(1) [OF ok] by (auto simp: card_1_singleton_iff)
  have none: "end_phase_of ops s m = Closed_end" if "\<forall>k y. \<not> (k \<noteq> i \<and> owner_of s ch k y)" for s
  proof (cases "s = side_of x")
    case False
    then have "\<not> owner_of s ch k y" for k y
      using that x(1) by (cases "k = i") (auto simp: owner_of_def)
    then show ?thesis using chan_okD(8) [OF ok m] by blast
  qed (use cl in simp)
  show "chan_ok ops good ?ch"
    unfolding chan_ok_def o of
    using chan_okD [OF ok] none uc em io m
    by (auto simp: close_wrapper_dtor_end_def shared_release_def split: if_splits)
  show "end_phase_of ops s m = Closed_end" if "monitor ?ch = None"
  proof -
    have "owners ?ch = {}" using that uc(2) em o by (auto split: if_splits)
    then have "\<not> owner_of s ?ch k y" for k y by (auto simp: owners_def owner_of_def)
    then show ?thesis using none unfolding of by blast
  qed
qed

lemma chan_step_ok:
  assumes ok: "chan_ok ops good ch" and st: "chan_step ops ch ch'"
  shows "chan_ok ops good ch'"
  using st
proof cases
  case (chan_call i)
  then obtain m m' s where m: "monitor ch = Some m" "begin_call ops s m m'" "ch' = ch\<lparr>monitor := Some m'\<rparr>"
    by (auto elim: end_call.cases)
  show ?thesis
    unfolding m(3) by (rule chan_ok_monitor [OF ok m(1)]) (use mon_call_ok [OF chan_okD(6) [OF ok m(1)] m(2)] in auto)
next
  case (chan_access m m')
  show ?thesis
    unfolding chan_access(1)
    by (rule chan_ok_monitor [OF ok chan_access(2)])
      (use mon_access_ok [OF chan_okD(6) [OF ok chan_access(2)] chan_access(3)] in auto)
next
  case (chan_move i x j)
  then show ?thesis using move_ok [OF ok] by simp
next
  case (chan_drop i x)
  then show ?thesis using drop_ok [OF ok] by simp
next
  case (chan_dropped i x m)
  then show ?thesis using dropped_ok(1) [OF ok] by simp
qed

end

text \<open>A channel over a monitor that keeps the contract is a system with an invariant.\<close>

sublocale monitor_contract \<subseteq> chan: invariant_system "\<lambda>ch. ch = make_wishbone_channel init" "chan_step ops" "chan_ok ops good"
  by unfold_locales (auto intro: make_ok chan_step_ok)

context monitor_contract
begin

lemma reach_ok: "(chan_step ops)\<^sup>*\<^sup>* (make_wishbone_channel init) ch \<Longrightarrow> chan_ok ops good ch"
  by (rule chan.inv_reach [OF refl])

lemma ends_owned:
  assumes "(chan_step ops)\<^sup>*\<^sup>* (make_wishbone_channel init) ch"
  shows "use_count ch = card (owners ch)" "monitor ch = None \<longleftrightarrow> owners ch = {}"
    "owner_of s ch i x \<Longrightarrow> owner_of s ch j y \<Longrightarrow> i = j"
    "monitor ch = Some m \<Longrightarrow> owner_of s ch i x \<Longrightarrow> ending x \<longleftrightarrow> end_phase_of ops s m \<noteq> Open_end"
  using chan_okD(2,3,5,7) [OF reach_ok [OF assms]] by blast+

lemma destroyed_end_releases:
  assumes "(chan_step ops)\<^sup>*\<^sup>* (make_wishbone_channel init) ch" and "monitor ch = Some m"
    and "\<And>i x. \<not> owner_of s ch i x"
  shows "good m" "end_phase_of ops s m = Closed_end" "\<not> parked ops (other s) m"
proof -
  note ok = reach_ok [OF assms(1)]
  show g: "good m" and c: "end_phase_of ops s m = Closed_end"
    using chan_okD(6,8) [OF ok assms(2)] assms(3) by blast+
  show "\<not> parked ops (other s) m" by (rule mon_closed_releases [OF g c])
qed

lemma deleted_when_closed:
  assumes "(chan_step ops)\<^sup>*\<^sup>* (make_wishbone_channel init) ch" and st: "chan_step ops ch ch'"
    and m: "monitor ch = Some m" "monitor ch' = None"
  shows "end_phase_of ops s m = Closed_end"
  using st
proof cases
  case (chan_dropped i x m1)
  then show ?thesis using dropped_ok(2) [OF reach_ok [OF assms(1)], of i x m s] m by simp
next
  case (chan_drop i x)
  then show ?thesis using m by (auto simp: close_wrapper_dtor_def split: if_splits)
next
  case (chan_move i x j)
  then show ?thesis using m by (simp add: close_wrapper_move_def)
next
  case (chan_call i)
  then show ?thesis using m by (auto elim: end_call.cases)
next
  case (chan_access m1 m2)
  then show ?thesis using m by simp
qed

end

section \<open>Moved-from and overwritten ends\<close>

text \<open>
  Assigning to a wrapper releases what it held without closing it: the monitor keeps its state, and no
  owner of its side is left to close it.
\<close>

lemma assign_skips_close:
  assumes "wrappers ch i = Some x" "\<not> resource x" and "wrappers ch j = Some y" "resource y" "i \<noteq> j"
    and "monitor ch = Some m" "1 < use_count ch" and "\<And>k z. owner_of (side_of y) ch k z \<Longrightarrow> k = j"
  shows "monitor (close_wrapper_assign i j ch) = Some m"
    and "\<not> owner_of (side_of y) (close_wrapper_assign i j ch) k z"
proof -
  have eq: "close_wrapper_assign i j ch = ch\<lparr>wrappers := (wrappers ch)(i \<mapsto> x\<lparr>resource := False\<rparr>, j \<mapsto> x),
      use_count := use_count ch - 1\<rparr>"
    using assms(1,3,4,6,7) by (simp add: close_wrapper_assign_def shared_release_def)
  show "monitor (close_wrapper_assign i j ch) = Some m" using assms(6) by (simp add: eq)
  show "\<not> owner_of (side_of y) (close_wrapper_assign i j ch) k z"
    using assms(2) assms(8) [of k z] by (auto simp: eq owner_of_def)
qed

end
