(* ===== verification/Channel_Sync.thy ===== *)
theory Channel_Sync
  imports Channel Channel_Props
begin

text \<open>
  Synchronous channels: \<open>make_channel\<close>, whose monitor is a channel window. The window keeps the contract
  of the theory \<open>Channel\<close>.
\<close>

section \<open>Definitions\<close>

fun cw_end :: "'a cw_pc \<Rightarrow> end_phase" where
  "cw_end Gone = Closed_end"
| "cw_end Cl_store = Closing_end"
| "cw_end Cl_reset = Closing_end"
| "cw_end (Wake_test After_close) = Closing_end"
| "cw_end (Wake_load After_close) = Closing_end"
| "cw_end (Wake_state After_close _) = Closing_end"
| "cw_end (Wake_cas After_close _) = Closing_end"
| "cw_end (Wake_sched After_close _) = Closing_end"
| "cw_end _ = Open_end"

definition window_ops :: "'a channel_window monitor_ops" where
  "window_ops =
     \<lparr>begin_call = (\<lambda>s w w'. case s of
          Reader \<Rightarrow> \<exists>a. cw_begin (Call_read a) w = Some w'
        | Writer \<Rightarrow> \<exists>u. cw_begin (Call_write u) w = Some w'),
      begin_close = (\<lambda>s. cw_begin (Call_close s)),
      access = (\<lambda>w w'. (\<exists>s. cw_step s w = Ret () w') \<or> (\<exists>i. w' = w\<lparr>idle := i\<rparr>)),
      end_phase_of = (\<lambda>s w. cw_end (pc w s)),
      parked = (\<lambda>s w. waiting w s)\<rparr>"

definition make_channel :: "'a channel_window channel" where
  "make_channel = make_wishbone_channel cw_init"

section \<open>The window as a monitor\<close>

lemma cw_end_wake:
  "cw_end (finish k) = (if k = After_close then Closed_end else Open_end)"
  "cw_end (Wake_test k) = (if k = After_close then Closing_end else Open_end)"
  "cw_end (Wake_load k) = (if k = After_close then Closing_end else Open_end)"
  "cw_end (Wake_state k p) = (if k = After_close then Closing_end else Open_end)"
  "cw_end (Wake_cas k p) = (if k = After_close then Closing_end else Open_end)"
  "cw_end (Wake_sched k p) = (if k = After_close then Closing_end else Open_end)"
  by (cases k; simp)+

lemma cw_step_phases:
  assumes "cw_step s w = Ret () w'"
  shows "pc w' (other s) = pc w (other s)"
    and "cw_end (pc w' s) = cw_end (pc w s) \<or> cw_end (pc w s) = Closing_end \<and> cw_end (pc w' s) = Closed_end"
proof -
  show "pc w' (other s) = pc w (other s)"
    using assms by (cases s; cases "pc w s")
      (auto simp: cw_step_def access_defs split: if_splits option.splits)
  show "cw_end (pc w' s) = cw_end (pc w s) \<or> cw_end (pc w s) = Closing_end \<and> cw_end (pc w' s) = Closed_end"
    using assms by (cases s; cases "pc w s")
      (auto simp: cw_step_def access_defs cw_end_wake split: if_splits option.splits)
qed

lemma cw_begin_phases:
  "cw_begin (Call_read a) w = Some w' \<Longrightarrow> cw_end (pc w' s) = cw_end (pc w s)"
  "cw_begin (Call_write u) w = Some w' \<Longrightarrow> cw_end (pc w' s) = cw_end (pc w s)"
  "cw_begin (Call_close x) w = Some w' \<Longrightarrow> cw_end (pc w' x) = Closing_end \<and> cw_end (pc w' (other x)) = cw_end (pc w (other x))"
proof -
  show "cw_begin (Call_read a) w = Some w' \<Longrightarrow> cw_end (pc w' s) = cw_end (pc w s)"
    by (cases s) (auto simp: goto_def split: cw_pc.splits if_splits)
  show "cw_begin (Call_write u) w = Some w' \<Longrightarrow> cw_end (pc w' s) = cw_end (pc w s)"
    by (cases s) (auto simp: goto_def split: cw_pc.splits if_splits)
  show "cw_begin (Call_close x) w = Some w' \<Longrightarrow> cw_end (pc w' x) = Closing_end \<and> cw_end (pc w' (other x)) = cw_end (pc w (other x))"
    by (cases x) (auto simp: goto_def split: cw_pc.splits if_splits)
qed

lemma cw_end_Closed: "cw_end l = Closed_end \<longleftrightarrow> l = Gone"
  by (cases l) (simp_all add: cw_end_wake)

lemma gone_released:
  assumes "cw_ok w" and "pc w s = Gone"
  shows "closed w" "\<not> waiting w (other s)"
  using cell_invD(5) [of "cw_cell w" s] assms by (auto simp: cw_ok_def cw_cell_def)

interpretation cwm: monitor_contract window_ops cw_init cw_ok
proof (unfold_locales, goal_cases)
  case 1
  show ?case by (rule cw_ok_init)
next
  case (2 s)
  show ?case by (simp add: window_ops_def cw_init_def)
next
  case (3 m s m')
  have "(\<exists>a. cw_begin (Call_read a) m = Some m') \<or> (\<exists>u. cw_begin (Call_write u) m = Some m')"
    using 3(2) by (auto simp: window_ops_def split: side.splits simp del: cw_begin.simps)
  then obtain c where "cw_begin c m = Some m'" "\<forall>x. cw_end (pc m' x) = cw_end (pc m x)"
  proof (elim disjE exE)
    fix a assume "cw_begin (Call_read a) m = Some m'"
    then show thesis using that cw_begin_phases(1) [of a m m'] by blast
  next
    fix u assume "cw_begin (Call_write u) m = Some m'"
    then show thesis using that cw_begin_phases(2) [of u m m'] by blast
  qed
  then show ?case using cw_ok_trans(1) [OF 3(1) cw_call] by (simp add: window_ops_def)
next
  case (4 m s m')
  then have c: "cw_begin (Call_close s) m = Some m'" by (simp add: window_ops_def)
  show ?case using cw_ok_trans(1) [OF 4(1) cw_call [OF c]] cw_begin_phases(3) [OF c] by (simp add: window_ops_def)
next
  case (5 m m')
  then consider (step) s where "cw_step s m = Ret () m'" | (others) i where "m' = m\<lparr>idle := i\<rparr>" by (auto simp: window_ops_def)
  then show ?case
  proof cases
    case s: (step s)
    have "cw_end (pc m' x) = cw_end (pc m x) \<or> cw_end (pc m x) = Closing_end \<and> cw_end (pc m' x) = Closed_end" for x
      using cw_step_phases [OF s] by (cases x; cases s) auto
    then show ?thesis using cw_ok_trans(1) [OF 5(1) cw_access [OF s]] by (simp add: window_ops_def)
  qed (use 5(1) in \<open>simp add: window_ops_def\<close>)
next
  case (6 m s)
  then show ?case using gone_released(2) [of m s] by (simp add: window_ops_def cw_end_Closed)
qed


section \<open>Properties\<close>

text \<open>
  C11. The ends of a synchronous channel are owned: however the ends are moved, used and destroyed, the
  reference count of the window is the number of wrappers that hold it, each side has at most one
  such wrapper, which has called \<open>close()\<close> exactly when it is being destroyed, and the window exists as
  long as one of them does; it is deleted only when both ends have been closed, with no task inside.
\<close>

theorem channel_ends_are_owned:
  assumes "(chan_step window_ops)\<^sup>*\<^sup>* make_channel ch"
  shows "use_count ch = card (owners ch) \<and> (monitor ch = None \<longleftrightarrow> owners ch = {})
    \<and> (\<forall>s i x j y. owner_of s ch i x \<and> owner_of s ch j y \<longrightarrow> i = j)
    \<and> (\<forall>m s i x. monitor ch = Some m \<and> owner_of s ch i x \<longrightarrow> (ending x \<longleftrightarrow> cw_end (pc m s) \<noteq> Open_end))
    \<and> (\<forall>m ch' s. monitor ch = Some m \<and> chan_step window_ops ch ch' \<and> monitor ch' = None \<longrightarrow> pc m s = Gone)"
proof -
  note r = assms [unfolded make_channel_def]
  have ph: "end_phase_of window_ops s m = cw_end (pc m s)" for s and m :: "'a channel_window"
    by (simp add: window_ops_def)
  show ?thesis
    using cwm.ends_owned [OF r] cwm.deleted_when_closed [OF r] unfolding ph cw_end_Closed by blast
qed

theorem channel_ends_are_owned_witness:
  "use_count (make_channel :: nat channel_window channel) = card (owners (make_channel :: nat channel_window channel))"
  using channel_ends_are_owned [where ch = "make_channel :: nat channel_window channel"] by simp

text \<open>
  C12. Destroying one end of a synchronous channel releases the other: once an end has no owner left, the
  window is closed and the task at the other end is not parked in it.
\<close>

theorem channel_end_destroyed_releases:
  assumes "(chan_step window_ops)\<^sup>*\<^sup>* make_channel ch" and "monitor ch = Some m" and "\<forall>i x. \<not> owner_of s ch i x"
  shows "closed m \<and> pc m s = Gone \<and> \<not> waiting m (other s)"
proof -
  note r = cwm.destroyed_end_releases [OF assms(1) [unfolded make_channel_def] assms(2), of s]
  have "cw_ok m" "pc m s = Gone"
    using r(1,2) assms(3) by (simp_all add: window_ops_def cw_end_Closed)
  with gone_released [OF this] show ?thesis by blast
qed


theorem channel_end_destroyed_releases_witness:
  "\<exists>(ch :: nat channel_window channel) m. (chan_step window_ops)\<^sup>*\<^sup>* make_channel ch \<and> monitor ch = Some m
     \<and> \<not> waiting m Writer \<and> closed m"
proof -
  let ?wr = "\<lparr>side_of = Writer, resource = True, ending = False\<rparr>"
  let ?rd = "\<lambda>b. \<lparr>side_of = Reader, resource = True, ending = b\<rparr>"
  let ?ch = "\<lambda>b m. \<lparr>monitor = Some m, use_count = 2, wrappers = [3 \<mapsto> ?wr, 2 \<mapsto> ?rd b]\<rparr> :: nat channel_window channel"
  let ?m0 = "cw_init :: nat channel_window"
  let ?m1 = "goto Reader Cl_store ?m0"
  let ?m2 = "goto Reader Cl_reset (?m1\<lparr>closed := True\<rparr>)"
  let ?m3 = "goto Reader (Wake_test After_close) (?m2\<lparr>reader := nullptr\<rparr>)"
  let ?m4 = "goto Reader Gone ?m3"
  let ?fin = "\<lparr>monitor = Some ?m4, use_count = 1, wrappers = [3 \<mapsto> ?wr]\<rparr>"
  have s0: "make_channel = ?ch False ?m0"
    by (simp add: make_channel_def make_wishbone_channel_def close_wrapper_ctor_def close_wrapper_move_def
        shared_copy_def shared_release_def drop_moved_def Let_def fun_eq_iff)
  have "close_wrapper_dtor window_ops 2 (?ch False ?m0) = Some (Ret () (?ch True ?m1))"
    by (simp add: close_wrapper_dtor_def window_ops_def cw_init_def)
  then have s1: "chan_step window_ops (?ch False ?m0) (?ch True ?m1)"
    using chan_drop [of "?ch False ?m0" 2 "?rd False"] by simp
  have acc: "chan_step window_ops (?ch True m) (?ch True m')" if "cw_step Reader m = Ret () m'" for m m'
    using chan_access [of "?ch True m" m window_ops m'] that by (simp add: window_ops_def) blast
  have "cw_step Reader ?m1 = Ret () ?m2" "cw_step Reader ?m2 = Ret () ?m3" "cw_step Reader ?m3 = Ret () ?m4"
    by (simp_all add: cw_eval cw_init_def)
  note s234 = this [THEN acc]
  have "close_wrapper_dtor_end 2 (?ch True ?m4) = ?fin"
    by (simp add: close_wrapper_dtor_end_def shared_release_def fun_eq_iff)
  then have s5: "chan_step window_ops (?ch True ?m4) ?fin"
    using chan_dropped [of "?ch True ?m4" 2 "?rd True" ?m4 window_ops] by (simp add: window_ops_def goto_def)
  have r: "(chan_step window_ops)\<^sup>*\<^sup>* make_channel ?fin"
    unfolding s0 using s1 s234 s5 by (meson converse_rtranclp_into_rtranclp rtranclp.rtrancl_refl)
  have "\<forall>i x. \<not> owner_of Reader ?fin i x" by (auto simp: owner_of_def split: if_splits)
  from channel_end_destroyed_releases [OF r _ this, of ?m4] r show ?thesis by (intro exI [of _ ?fin] exI [of _ ?m4]) simp
qed

end
