(* ===== verification/Channel_Buffered.thy ===== *)
theory Channel_Buffered
  imports Channel Ring_Buffer_Props
begin

text \<open>
  Buffered channels: \<open>make_buffered_channel\<close>, whose monitor is a ring buffer of size \<open>2^n\<close>. The ring
  buffer keeps the contract of the theory \<open>Channel\<close>.
\<close>

section \<open>Definitions\<close>

fun rb_end :: "'a rb_pc \<Rightarrow> end_phase" where
  "rb_end Gone = Closed_end"
| "rb_end Close_store = Closing_end"
| "rb_end (Wake_test Gone_after) = Closing_end"
| "rb_end (Wake_load Gone_after) = Closing_end"
| "rb_end (Wake_state Gone_after _) = Closing_end"
| "rb_end (Wake_cas Gone_after _) = Closing_end"
| "rb_end (Wake_sched Gone_after _) = Closing_end"
| "rb_end _ = Open_end"

definition buffer_ops :: "nat \<Rightarrow> 'a ring_buffer monitor_ops" where
  "buffer_ops n =
     \<lparr>begin_call = (\<lambda>s b b'. case s of
          Reader \<Rightarrow> rb_begin Call_read b = Some b'
        | Writer \<Rightarrow> \<exists>u. rb_begin (Call_write u) b = Some b'),
      begin_close = (\<lambda>s. rb_begin (Call_close s)),
      access = (\<lambda>b b'. (\<exists>s. rb_step n s b = Ret () b') \<or> (\<exists>i. b' = b\<lparr>idle := i\<rparr>)),
      end_phase_of = (\<lambda>s b. rb_end (pc b s)),
      parked = (\<lambda>s b. waiting b s)\<rparr>"

definition make_buffered_channel :: "'a ring_buffer channel" where
  "make_buffered_channel = make_wishbone_channel rb_init"

text \<open>What the contract needs of the ring buffer's invariant; it holds for every size.\<close>

definition ends_ok :: "'a ring_buffer \<Rightarrow> bool" where
  "ends_ok b \<longleftrightarrow> close_ok b \<and> cell_inv (rb_cell b)"

section \<open>The ring buffer as a monitor\<close>

lemma rb_end_wake:
  "rb_end (finish k) = (if k = Gone_after then Closed_end else Open_end)"
  "rb_end (Wake_test k) = (if k = Gone_after then Closing_end else Open_end)"
  "rb_end (Wake_load k) = (if k = Gone_after then Closing_end else Open_end)"
  "rb_end (Wake_state k p) = (if k = Gone_after then Closing_end else Open_end)"
  "rb_end (Wake_cas k p) = (if k = Gone_after then Closing_end else Open_end)"
  "rb_end (Wake_sched k p) = (if k = Gone_after then Closing_end else Open_end)"
  by (cases k; simp)+

lemma rb_step_phases:
  assumes "rb_step n s b = Ret () b'"
  shows "pc b' (other s) = pc b (other s)"
    and "rb_end (pc b' s) = rb_end (pc b s) \<or> rb_end (pc b s) = Closing_end \<and> rb_end (pc b' s) = Closed_end"
  using assms by (cases s; cases "pc b s";
      auto simp: rb_step_def in_close_def rb_access_defs rb_end_wake split: if_splits option.splits)+

lemma rb_begin_phases:
  assumes "rb_begin c b = Some b'"
  shows "\<forall>x. c \<noteq> Call_close x \<Longrightarrow> rb_end (pc b' s) = rb_end (pc b s)"
    "c = Call_close x \<Longrightarrow> rb_end (pc b' x) = Closing_end \<and> rb_end (pc b' (other x)) = rb_end (pc b (other x))"
  using assms by (cases c; cases s; auto simp: goto_def split: rb_pc.splits)
    (cases x; use assms in \<open>auto simp: goto_def split: rb_pc.splits\<close>)

lemma rb_end_Closed: "rb_end l = Closed_end \<longleftrightarrow> l = Gone"
  by (cases l) (simp_all add: rb_end_wake)

lemma buffer_gone_released:
  assumes "ends_ok b" and "pc b s = Gone"
  shows "closed b" "\<not> waiting b (other s)"
  using cell_invD(5) [of "rb_cell b" s] assms by (auto simp: ends_ok_def rb_cell_def)

lemma ends_ok_begin: "ends_ok b \<Longrightarrow> rb_begin c b = Some b' \<Longrightarrow> ends_ok b'"
  using rb_begin_cell cell_inv_step unfolding ends_ok_def by blast

lemma ends_ok_step: "ends_ok b \<Longrightarrow> rb_step n s b = Ret () b' \<Longrightarrow> ends_ok b'"
  using rb_step_cell close_ok_step cell_inv_step unfolding ends_ok_def by metis

interpretation rbm: monitor_contract "buffer_ops n" rb_init ends_ok for n
proof (unfold_locales, goal_cases)
  case 1
  show ?case unfolding ends_ok_def using rb_ok_start unfolding rb_ok_def by blast
next
  case (2 s)
  show ?case by (simp add: buffer_ops_def rb_init_def)
next
  case (3 m s m')
  obtain c where "rb_begin c m = Some m'" "\<forall>x. c \<noteq> Call_close x"
    using 3(2) by (cases s) (auto simp: buffer_ops_def simp del: rb_begin.simps)
  then show ?case using ends_ok_begin [OF 3(1)] rb_begin_phases(1) [of c m m'] by (simp add: buffer_ops_def)
next
  case (4 m s m')
  then have c: "rb_begin (Call_close s) m = Some m'" by (simp add: buffer_ops_def)
  show ?case using ends_ok_begin [OF 4(1) c] rb_begin_phases(2) [OF c refl] by (simp add: buffer_ops_def)
next
  case (5 m m')
  then consider (step) s where "rb_step n s m = Ret () m'" | (others) i where "m' = m\<lparr>idle := i\<rparr>" by (auto simp: buffer_ops_def)
  then show ?case
  proof cases
    case s: (step s)
    have "rb_end (pc m' x) = rb_end (pc m x) \<or> rb_end (pc m x) = Closing_end \<and> rb_end (pc m' x) = Closed_end" for x
      using rb_step_phases [OF s] by (cases x; cases s) auto
    then show ?thesis using ends_ok_step [OF 5(1) s] by (simp add: buffer_ops_def)
  qed (use 5(1) in \<open>simp add: buffer_ops_def ends_ok_def close_ok_def\<close>)
next
  case (6 m s)
  then show ?case using buffer_gone_released(2) [of m s] by (simp add: buffer_ops_def rb_end_Closed)
qed

section \<open>Properties\<close>

text \<open>
  C13. The ends of a buffered channel are owned, for every size: the reference count of the ring buffer is
  the number of wrappers that hold it, at most one for a side, which has called \<open>close()\<close> exactly when
  it is being destroyed; the ring buffer exists as long as one of them does and is deleted only
  when both ends have been closed; and once an end has no owner left the ring buffer is closed and
  the task at the other end is not parked in it.
\<close>

theorem buffered_channel_ends_are_owned:
  assumes "(chan_step (buffer_ops n))\<^sup>*\<^sup>* make_buffered_channel ch"
  shows "use_count ch = card (owners ch) \<and> (monitor ch = None \<longleftrightarrow> owners ch = {})
    \<and> (\<forall>s i x j y. owner_of s ch i x \<and> owner_of s ch j y \<longrightarrow> i = j)
    \<and> (\<forall>m s i x. monitor ch = Some m \<and> owner_of s ch i x \<longrightarrow> (ending x \<longleftrightarrow> rb_end (pc m s) \<noteq> Open_end))
    \<and> (\<forall>m ch' s. monitor ch = Some m \<and> chan_step (buffer_ops n) ch ch' \<and> monitor ch' = None \<longrightarrow> pc m s = Gone)
    \<and> (\<forall>m s. monitor ch = Some m \<and> (\<forall>i x. \<not> owner_of s ch i x) \<longrightarrow>
         closed m \<and> pc m s = Gone \<and> \<not> waiting m (other s))"
proof -
  note r = assms [unfolded make_buffered_channel_def]
  have ph: "end_phase_of (buffer_ops n) s m = rb_end (pc m s)" for s and m :: "'a ring_buffer"
    by (simp add: buffer_ops_def)
  have "closed m \<and> pc m s = Gone \<and> \<not> waiting m (other s)" if "monitor ch = Some m" "\<forall>i x. \<not> owner_of s ch i x" for m s
  proof -
    have "ends_ok m" "pc m s = Gone"
      using rbm.destroyed_end_releases(1,2) [OF r that(1), of s] that(2) by (simp_all add: ph rb_end_Closed)
    with buffer_gone_released [OF this] show ?thesis by blast
  qed
  moreover have "pc m s = Gone" if "monitor ch = Some m" "chan_step (buffer_ops n) ch ch'" "monitor ch' = None" for m ch' s
    using rbm.deleted_when_closed [OF r that(2,1,3)] by (simp add: ph rb_end_Closed)
  ultimately show ?thesis using rbm.ends_owned [OF r] unfolding ph by blast
qed

theorem buffered_channel_ends_are_owned_witness:
  "\<exists>(ch :: nat ring_buffer channel) m. (chan_step (buffer_ops 3))\<^sup>*\<^sup>* make_buffered_channel ch \<and> monitor ch = Some m
     \<and> use_count ch = 1 \<and> closed m \<and> \<not> waiting m Writer"
proof -
  let ?wr = "\<lparr>side_of = Writer, resource = True, ending = False\<rparr>"
  let ?rd = "\<lambda>b. \<lparr>side_of = Reader, resource = True, ending = b\<rparr>"
  let ?ch = "\<lambda>b m. \<lparr>monitor = Some m, use_count = 2, wrappers = [3 \<mapsto> ?wr, 2 \<mapsto> ?rd b]\<rparr> :: nat ring_buffer channel"
  let ?m0 = "rb_init :: nat ring_buffer"
  let ?m1 = "goto Reader Close_store ?m0"
  let ?m2 = "goto Reader (Wake_test Gone_after) (?m1\<lparr>closed := True\<rparr>)"
  let ?m3 = "goto Reader Gone ?m2"
  let ?fin = "\<lparr>monitor = Some ?m3, use_count = 1, wrappers = [3 \<mapsto> ?wr]\<rparr>"
  have s0: "make_buffered_channel = ?ch False ?m0"
    by (simp add: make_buffered_channel_def make_wishbone_channel_def close_wrapper_ctor_def close_wrapper_move_def
        shared_copy_def shared_release_def drop_moved_def Let_def fun_eq_iff)
  have "close_wrapper_dtor (buffer_ops 3) 2 (?ch False ?m0) = Some (Ret () (?ch True ?m1))"
    by (simp add: close_wrapper_dtor_def buffer_ops_def rb_init_def)
  then have s1: "chan_step (buffer_ops 3) (?ch False ?m0) (?ch True ?m1)"
    using chan_drop [of "?ch False ?m0" 2 "?rd False"] by simp
  have acc: "chan_step (buffer_ops 3) (?ch True m) (?ch True m')" if "rb_step 3 Reader m = Ret () m'" for m m'
    using chan_access [of "?ch True m" m "buffer_ops 3" m'] that by (simp add: buffer_ops_def) blast
  have "rb_step 3 Reader ?m1 = Ret () ?m2" "rb_step 3 Reader ?m2 = Ret () ?m3"
    by (simp_all add: rb_step_def in_close_def rb_access_defs goto_def rb_init_def)
  note s23 = this [THEN acc]
  have "close_wrapper_dtor_end 2 (?ch True ?m3) = ?fin"
    by (simp add: close_wrapper_dtor_end_def shared_release_def fun_eq_iff)
  then have s4: "chan_step (buffer_ops 3) (?ch True ?m3) ?fin"
    using chan_dropped [of "?ch True ?m3" 2 "?rd True" ?m3 "buffer_ops 3"] by (simp add: buffer_ops_def goto_def)
  have r: "(chan_step (buffer_ops 3))\<^sup>*\<^sup>* make_buffered_channel ?fin"
    unfolding s0 using s1 s23 s4 by (meson converse_rtranclp_into_rtranclp rtranclp.rtrancl_refl)
  have "\<forall>i x. \<not> owner_of Reader ?fin i x" by (auto simp: owner_of_def split: if_splits)
  moreover have "monitor ?fin = Some ?m3" by simp
  ultimately have "closed ?m3 \<and> \<not> waiting ?m3 (other Reader)"
    using buffered_channel_ends_are_owned [OF r] by blast
  with r show ?thesis by (intro exI [of _ ?fin] exI [of _ ?m3]) simp
qed

end
