(* ===== verification/Sched_Frame.thy ===== *)
theory Sched_Frame
  imports Sched_Props
begin

text \<open>
  What a call into the scheduler leaves alone. Whatever its outcome, a call keeps every task
  that has not stopped, with its entry function and argument; only the task that exits stops, and
  only \<open>spawn\<close> writes entry and argument, those of the task it makes.
\<close>

section \<open>Definitions\<close>

text \<open>The tasks outside \<open>X\<close> that have not stopped live on, with their entry functions and arguments.\<close>

definition lives :: "addr set \<Rightarrow> gstate \<Rightarrow> gstate \<Rightarrow> bool" where
  "lives X w w' \<longleftrightarrow>
     (inited w \<longrightarrow> inited w') \<and>
     (\<forall>u y. u \<notin> X \<and> tasks w u = Some y \<and> run_state y \<noteq> STOPPED \<longrightarrow>
        (\<exists>y'. tasks w' u = Some y' \<and> run_state y' \<noteq> STOPPED \<and> entry y' = entry y \<and> arg y' = arg y))"

text \<open>A relation between the states before and after a call, whether it returns or throws.\<close>

fun framed :: "('s \<Rightarrow> 's \<Rightarrow> bool) \<Rightarrow> 's \<Rightarrow> ('a, 's) outcome \<Rightarrow> bool" where
  "framed rel s (Ret a s') = rel s s'"
| "framed rel s (Throw x s') = rel s s'"
| "framed rel s (Crash f) = True"

text \<open>The task waiting to be given back is the same.\<close>

definition same_deferred :: "gstate \<Rightarrow> gstate \<Rightarrow> bool" where
  "same_deferred w w' \<longleftrightarrow> deferred (node w') = deferred (node w) \<and> inited w' = inited w"

text \<open>The tasks a call may stop: the caller of \<open>exit\<close> and of the end of the entry function.\<close>

fun may_stop :: "op \<Rightarrow> addr \<Rightarrow> addr set" where
  "may_stop (Op_exit v) c = {c}"
| "may_stop (Op_return v) c = {c}"
| "may_stop p c = {}"

fun makes_or_sleeps :: "op \<Rightarrow> bool" where
  "makes_or_sleeps (Op_spawn a ent ar) = True"
| "makes_or_sleeps (Op_sleep d) = True"
| "makes_or_sleeps p = False"

section \<open>Frames\<close>

text \<open>
  The rules of the locale follow the way the sources compose calls.
\<close>

locale frame_relation =
  fixes rel :: "'s \<Rightarrow> 's \<Rightarrow> bool"
  assumes rel_refl: "rel s s"
    and rel_trans: "rel s s' \<Longrightarrow> rel s' s'' \<Longrightarrow> rel s s''"
begin

lemma framed_bind:
  assumes "framed rel s r" and "\<And>a s'. r = Ret a s' \<Longrightarrow> framed rel s' (f a s')"
  shows "framed rel s (bind_outcome r f)"
proof (cases r)
  case (Ret a s')
  then show ?thesis using assms rel_trans by (cases "f a s'") (auto dest: assms(2))
qed (use assms(1) in auto)

lemma framed_with_dtor:
  assumes "framed rel s r" and "\<And>s'. framed rel s' (d s')"
  shows "framed rel s (with_dtor d r)"
proof (cases r)
  case (Ret a s')
  then show ?thesis using assms(1) assms(2) [of s'] rel_trans by (cases "d s'") auto
next
  case (Throw x s')
  then show ?thesis using assms(1) assms(2) [of s'] rel_trans by (cases "d s'") auto
qed simp

end

lemma lives_refl: "lives X w w"
  by (simp add: lives_def)

lemma lives_trans: "lives X w w1 \<Longrightarrow> lives X w1 w2 \<Longrightarrow> lives X w w2"
  unfolding lives_def by (metis (full_types))

interpretation lv: frame_relation "lives X" for X
  by unfold_locales (auto intro: lives_refl lives_trans)

lemma lives_same: "tasks w' = tasks w \<Longrightarrow> (inited w \<Longrightarrow> inited w') \<Longrightarrow> lives X w w'"
  by (simp add: lives_def)

lemma lives_upd:
  assumes "tasks w t = Some x" "tasks w' = (tasks w)(t \<mapsto> x')" "inited w' = inited w"
    and "t \<in> X \<or> entry x' = entry x \<and> arg x' = arg x \<and> (run_state x \<noteq> STOPPED \<longrightarrow> run_state x' \<noteq> STOPPED)"
  shows "lives X w w'"
  using assms by (auto simp: lives_def)

lemma lives_gone:
  assumes "tasks w' = (tasks w)(t := None)" "inited w' = inited w"
    and "t \<in> X \<or> (\<forall>x. tasks w t = Some x \<longrightarrow> run_state x = STOPPED)"
  shows "lives X w w'"
  using assms by (auto simp: lives_def)

lemma framed_guarded:
  assumes "framed (lives X) w r" and "\<And>w'. framed (lives X) w' (u w')"
  shows "framed (lives X) w (guarded u r)"
proof (cases r)
  case (Ret c w')
  then show ?thesis using assms(1) assms(2) [of w'] lives_trans by (cases c; cases "u w'") (auto dest: lives_trans)
next
  case (Throw x w')
  then show ?thesis using assms(1) assms(2) [of w'] by (cases "u w'") (auto dest: lives_trans)
qed simp

lemma framed_deref: "(\<And>x. tasks w t = Some x \<Longrightarrow> framed (lives X) w (f x)) \<Longrightarrow> framed (lives X) w (deref t w f)"
  by (auto simp: deref_def split: option.splits)

lemma framed_lift_tls: "framed (lives X) w (lift_tls f w)"
  by (auto simp: lives_same split: outcome.splits)


lemma framed_state: "(\<And>a w'. r = Ret a w' \<Longrightarrow> w' = w) \<Longrightarrow> (\<And>x w'. r = Throw x w' \<Longrightarrow> w' = w) \<Longrightarrow> framed (lives X) w r"
  by (cases r) (auto simp: lives_refl)

lemma framed_upd_task:
  assumes "\<And>x. tasks w t = Some x \<Longrightarrow>
     t \<in> X \<or> entry (f x) = entry x \<and> arg (f x) = arg x \<and> (run_state x \<noteq> STOPPED \<longrightarrow> run_state (f x) \<noteq> STOPPED)"
  shows "framed (lives X) w (upd_task t f w)"
  unfolding upd_task_def by (rule framed_deref) (use assms in \<open>auto intro!: lives_upd [where t = t]\<close>)

lemma current_thread_Ret: "current_thread st = Ret c st' \<Longrightarrow> st' = st"
  by (auto simp: current_thread_def get_thread_def split: option.splits)

lemma framed_task_current: "framed (lives X) w (task_current w)"
  unfolding task_current_def by (rule framed_lift_tls)

lemma task_current_state: "task_current w = Ret c w' \<Longrightarrow> w' = w"
  by (auto simp: task_current_def split: outcome.splits dest: current_thread_Ret)

lemmas framed_intros =
  lv.framed_bind lv.framed_with_dtor framed_guarded framed_deref framed_upd_task framed_task_current

lemma framed_preempt:
  "framed (lives X) w (preempt_lock w)" "framed (lives X) w (preempt_unlock w)"
  "framed (lives X) w (preempt_node w)" "framed (lives X) w (preempt_held w)"
  unfolding preempt_lock_def preempt_unlock_def preempt_node_def preempt_held_def
  by (auto intro!: framed_intros simp: lives_refl simp del: upd_task_Some deref_Some)

lemma framed_spin: "framed (lives X) w (spin_lock w)" "framed (lives X) w (spin_unlock w)"
  by (auto simp: spin_lock_def spin_try_lock_def set_node_def lives_same)

lemma framed_task_destroy:
  assumes t: "t \<in> X \<or> (\<forall>x. tasks w t = Some x \<longrightarrow> run_state x = STOPPED)"
  shows "framed (lives X) w (task_destroy e t w)"
proof -
  have d: "tasks w1 = tasks w \<and> inited w1 = inited w" if "task_dtor t w = Ret u w1 \<or> task_dtor t w = Throw ex w1" for u ex w1
    using that by (auto simp: task_dtor_def deref_def bind_outcome_Ret_iff split: option.splits if_splits outcome.splits elim!: bind_outcome.elims)
  show ?thesis
  proof (cases "task_dtor t w")
    case (Ret u w1)
    then show ?thesis
      using t d [of u w1] unfolding task_destroy_def
      by (intro framed_deref) (auto simp: Let_def intro!: lives_gone [where t = t])
  next
    case (Throw ex w1)
    then show ?thesis
      using d [of _ w1 ex] unfolding task_destroy_def by (intro framed_deref) (auto intro: lives_same)
  qed (auto simp: task_destroy_def intro!: framed_deref)
qed

lemma framed_return_task:
  assumes "t \<in> X \<or> (\<forall>x. tasks w t = Some x \<longrightarrow> run_state x = STOPPED)"
  shows "framed (lives X) w (return_task e t w)"
  using framed_task_destroy [OF assms]
  by (auto simp: return_task_def set_fl_list_def split: outcome.splits intro!: framed_deref lives_same)


lemma framed_return_deferred:
  assumes "deferred (node w) \<in> X"
  shows "framed (lives X) w (return_deferred e w)"
  using assms unfolding return_deferred_def
  by (auto intro!: lv.framed_bind framed_return_task simp: set_node_def lives_same)

lemma framed_lift_rq: "tasks w2 = tasks w1 \<Longrightarrow> inited w2 = inited w1 \<Longrightarrow> framed (lives X) w1 (lift_rq f w2)"
  by (auto simp: lift_rq_def set_rq_def set_node_def lives_same split: outcome.splits)

lemma framed_get_next_task: "framed (lives X) w (get_next_task cl c w)"
  unfolding get_next_task_def Let_def
  by (intro lv.framed_bind framed_upd_task framed_deref framed_lift_rq)
    (simp_all add: set_rq_def set_node_def lives_same)

lemma framed_switch: "framed (lives X) w (switch_to_internal t (Some set_current_node) k w)"
proof -
  have last: "framed (lives X) w (Ret Switched ((set_current_node w)\<lparr>conts := cs\<rparr>))" for w cs
    by (simp add: set_current_node_def lives_same)
  show ?thesis
    unfolding switch_to_internal_def Let_def option.case
    by (intro lv.framed_bind framed_task_current)
      (auto intro!: lv.framed_bind framed_upd_task framed_deref framed_lift_tls last
        split: if_splits simp del: lift_tls.simps upd_task_Some deref_Some)
qed


lemma spin_lock_node: "spin_lock w = Ret u w' \<Longrightarrow> deferred (node w') = deferred (node w) \<and> tasks w' = tasks w"
  by (auto simp: spin_lock_def spin_try_lock_def set_node_def split: if_splits)

lemma framed_node_yield:
  assumes "deferred (node w) \<in> X"
  shows "framed (lives X) w (node_yield e cl k w)"
  unfolding node_yield_def
  by (auto intro!: lv.framed_bind framed_spin framed_guarded framed_return_deferred framed_task_current
      framed_get_next_task framed_switch simp: assms lives_refl dest!: spin_lock_node
      simp del: spin_unlock_Ret)

lemma framed_node_schedule: "framed (lives X) w (node_schedule t w)"
  unfolding node_schedule_def
  by (auto intro!: lv.framed_bind lv.framed_with_dtor framed_spin framed_upd_task
      simp: set_rq_def set_node_def lives_same split: if_splits simp del: spin_unlock_Ret upd_task_Some)

interpretation sn: frame_relation same_deferred
  by unfold_locales (auto simp: same_deferred_def)

lemma same_deferred_frames:
  "framed same_deferred w (upd_task t f w)" "framed same_deferred w (task_current w)"
  "framed same_deferred w (preempt_lock w)" "framed same_deferred w (preempt_unlock w)"
proof -
  show u: "framed same_deferred w (upd_task t f w)" for t f w
    by (auto simp: upd_task_def deref_def same_deferred_def split: option.splits)
  show c: "framed same_deferred w (task_current w)" for w
    by (auto simp: task_current_def same_deferred_def split: outcome.splits)
  show "framed same_deferred w (preempt_lock w)" "framed same_deferred w (preempt_unlock w)"
    unfolding preempt_lock_def preempt_unlock_def
    by (auto intro!: sn.framed_bind u c simp: deref_def split: option.splits simp del: upd_task_Some)
qed

lemma preempt_lock_node: "preempt_lock w = Ret u w' \<Longrightarrow> deferred (node w') = deferred (node w) \<and> inited w' = inited w"
  using same_deferred_frames(3) [of w] by (simp add: same_deferred_def)

lemma same_deferred_schedule: "framed same_deferred w (node_schedule t w)"
proof -
  have sp: "framed same_deferred w (spin_lock w)" "framed same_deferred w (spin_unlock w)" for w
    by (auto simp: spin_lock_def spin_try_lock_def set_node_def same_deferred_def)
  show ?thesis
    unfolding node_schedule_def
    by (auto intro!: sn.framed_bind sn.framed_with_dtor sp same_deferred_frames simp: set_rq_def set_node_def same_deferred_def
        simp del: upd_task_Some spin_unlock_Ret)
qed

lemma preempt_node_state: "preempt_node w = Ret u w' \<Longrightarrow> w' = w"
  by (auto simp: preempt_node_def split: if_splits)

lemma framed_sched_yield:
  assumes "deferred (node w) \<in> X"
  shows "framed (lives X) w (sched_yield e cl k w)"
  unfolding sched_yield_def
  by (auto intro!: lv.framed_bind framed_preempt framed_guarded framed_node_yield
      simp: assms lives_refl dest!: preempt_lock_node preempt_node_state)

lemma framed_preempt_trap:
  assumes "deferred (node w) \<in> X"
  shows "framed (lives X) w (preempt_trap e cl k w)"
proof -
  have h: "preempt_held w = Ret b w' \<Longrightarrow> w' = w" for b w'
    by (auto simp: preempt_held_def bind_outcome_Ret_iff deref_def split: option.splits dest: task_current_state)
  show ?thesis
    unfolding preempt_trap_def
    by (auto intro!: lv.framed_bind framed_preempt framed_guarded framed_node_yield
        simp: assms lives_refl dest!: preempt_lock_node preempt_node_state h)
qed


lemma upd_task_node: "upd_task t f (w :: gstate) = Ret u w' \<Longrightarrow> deferred (node w') = deferred (node w)"
  using same_deferred_frames(1) [of w t f] by (simp add: same_deferred_def)

lemma framed_waiter_wait:
  assumes "deferred (node w) \<in> X"
  shows "framed (lives X) w (waiter_wait e cl k w)"
  unfolding waiter_wait_def
  by (auto intro!: lv.framed_bind framed_task_current framed_upd_task framed_sched_yield
      simp: assms dest!: task_current_state upd_task_node simp del: upd_task_Some)

lemma framed_waiter_wake: "framed (lives X) w (waiter_wake t w)"
  unfolding waiter_wake_def
  by (auto intro!: framed_deref lv.framed_bind lv.framed_with_dtor framed_preempt framed_upd_task framed_node_schedule
      simp del: upd_task_Some deref_Some)

lemma framed_waiter_swap: "framed (lives X) w (waiter_swap cl t k w)"
proof -
  have "framed (lives X) w (node_switch_to now t k w)" for now k w
    unfolding node_switch_to_def
    by (intro lv.framed_bind lv.framed_with_dtor framed_spin framed_task_current framed_upd_task framed_switch)
      (simp_all add: set_node_def lives_same)
  then show ?thesis
    unfolding waiter_swap_def
    by (auto intro!: lv.framed_bind framed_task_current framed_preempt framed_guarded framed_upd_task
        simp del: upd_task_Some)
qed

lemma inited_context [simp]: "inited w \<Longrightarrow> sched_context_get cl w = Ret () w"
  by (simp add: sched_context_get_def)

lemma framed_join_finish:
  assumes "inited w"
  shows "framed (lives X) w (join_finish e cl t want w)"
  unfolding join_finish_def Let_def
  by (rule framed_deref) (auto intro!: lv.framed_bind framed_return_task simp: assms lives_refl)

lemma framed_join_begin: "framed (lives X) w (join_begin t w)"
  unfolding join_begin_def
  by (auto intro!: lv.framed_bind lv.framed_with_dtor framed_task_current framed_preempt framed_deref framed_upd_task
      simp: lives_refl simp del: upd_task_Some deref_Some)

lemma join_begin_node: "join_begin t w = Ret b w' \<Longrightarrow> same_deferred w w'"
proof -
  have "framed same_deferred w (join_begin t w)"
    unfolding join_begin_def
    by (auto intro!: sn.framed_bind sn.framed_with_dtor same_deferred_frames
        simp: same_deferred_def deref_def split: option.splits simp del: upd_task_Some)
  then show "join_begin t w = Ret b w' \<Longrightarrow> same_deferred w w'" by simp
qed

lemma framed_inited: "framed (lives X) w r \<Longrightarrow> r = Ret a w' \<Longrightarrow> inited w \<Longrightarrow> inited w'"
  by (simp add: lives_def)

lemma framed_sched_join:
  assumes i: "inited w" and d: "deferred (node w) \<in> X"
  shows "framed (lives X) w (sched_join e cl h want k w)"
proof -
  have fin: "framed (lives X) w1 (case r of Switched \<Rightarrow> Ret (Switched, No_result) w1
      | Returned \<Rightarrow> bind_outcome (join_finish e cl t want w1) (\<lambda>v w3. Ret (Returned, v) w3))" if "inited w1" for r t w1
    using that by (cases r) (auto intro!: lv.framed_bind framed_join_finish simp: lives_refl)
  have yl: "framed (lives X) w1 (if b then sched_yield e cl k' w1 else Ret Returned w1)" if "deferred (node w1) = deferred (node w)" for b k' w1
    using framed_sched_yield that d by (simp add: lives_refl)
  have body: "framed (lives X) w (bind_outcome (join_begin t w) (\<lambda>wait w1.
      bind_outcome (if wait then sched_yield e cl (In_join t want # k) w1 else Ret Returned w1)
        (\<lambda>r w2. case r of Switched \<Rightarrow> Ret (Switched, No_result) w2
           | Returned \<Rightarrow> bind_outcome (join_finish e cl t want w2) (\<lambda>v w3. Ret (Returned, v) w3))))" for t
  proof (rule lv.framed_bind [OF framed_join_begin], rule lv.framed_bind)
    fix b w1 assume "join_begin t w = Ret b w1"
    then have n: "deferred (node w1) = deferred (node w)" "inited w1" using join_begin_node i by (auto simp: same_deferred_def)
    show y: "framed (lives X) w1 (if b then sched_yield e cl (In_join t want # k) w1 else Ret Returned w1)"
      by (rule yl [OF n(1)])
    fix r w2 assume "(if b then sched_yield e cl (In_join t want # k) w1 else Ret Returned w1) = Ret r w2"
    then show "framed (lives X) w2 (case r of Switched \<Rightarrow> Ret (Switched, No_result) w2
        | Returned \<Rightarrow> bind_outcome (join_finish e cl t want w2) (\<lambda>v w3. Ret (Returned, v) w3))"
      using fin framed_inited [OF y _ n(2)] by blast
  qed
  then show ?thesis by (simp add: sched_join_def Let_def lives_refl)
qed


lemma framed_sched_detach:
  assumes i: "inited w"
  shows "framed (lives X) w (sched_detach e cl h w)"
proof -
  let ?lock = "\<lambda>t. bind_outcome (preempt_lock w) (\<lambda>_ w1. with_dtor preempt_unlock
       (deref t w1 (\<lambda>x. if run_state x \<noteq> STOPPED
          then bind_outcome (upd_task t (\<lambda>x. x\<lparr>detached := True\<rparr>) w1) (\<lambda>_ w2. Ret True w2) else Ret False w1)))"
  have lock: "framed (lives X) w (?lock t)" for t
    by (auto intro!: lv.framed_bind lv.framed_with_dtor framed_preempt framed_deref framed_upd_task simp: lives_refl
        simp del: upd_task_Some deref_Some)
  have fin: "framed (lives X) w2 (if b then Ret (Handle_written nullptr None) w2
      else deref t w2 (\<lambda>x. if run_state x \<noteq> STOPPED then Crash Assert_failed
        else bind_outcome (sched_context_get cl w2) (\<lambda>_ w3. bind_outcome (return_task e t w3) (\<lambda>_ w4.
          Ret (Handle_written nullptr None) w4))))" if "inited w2" for b t w2
    using that by (auto intro!: framed_deref lv.framed_bind framed_return_task simp: lives_refl)
  have "framed (lives X) w (bind_outcome (?lock t) (\<lambda>b w2. if b then Ret (Handle_written nullptr None) w2
      else deref t w2 (\<lambda>x. if run_state x \<noteq> STOPPED then Crash Assert_failed
        else bind_outcome (sched_context_get cl w2) (\<lambda>_ w3. bind_outcome (return_task e t w3) (\<lambda>_ w4.
          Ret (Handle_written nullptr None) w4)))))" for t
    by (rule lv.framed_bind [OF lock fin]) (rule framed_inited [OF lock _ i])
  then show ?thesis by (simp add: sched_detach_def Let_def lives_refl)
qed

lemma framed_sched_exit:
  assumes d: "deferred (node w) \<in> X" and c: "current_is c w" "c \<in> X"
  shows "framed (lives X) w (sched_exit e cl v k w)"
proof -
  let ?stop = "\<lambda>x. x\<lparr>return_value := v, run_state := STOPPED\<rparr>"
  let ?wake = "\<lambda>x w2. if joiner x \<noteq> nullptr then bind_outcome (preempt_node w2) (\<lambda>_ w3. node_schedule (joiner x) w3) else Ret () w2"
  have wake: "framed (lives X) w2 (?wake x w2)" "framed same_deferred w2 (?wake x w2)" for x w2
    by (auto intro!: lv.framed_bind framed_preempt framed_node_schedule sn.framed_bind same_deferred_schedule
        simp: lives_refl same_deferred_def preempt_node_def)
  have body: "framed (lives X) w1 (bind_outcome (upd_task c ?stop w1) (\<lambda>_ w2. deref c w2 (\<lambda>x.
      bind_outcome (?wake x w2) (\<lambda>_ w4. bind_outcome (preempt_node w4) (\<lambda>_ w5. node_yield e cl (In_exit # k) w5)))))"
    if n: "deferred (node w1) = deferred (node w)" for w1
  proof (intro lv.framed_bind framed_deref wake framed_preempt)
    show "framed (lives X) w1 (upd_task c ?stop w1)" by (rule framed_upd_task) (simp add: c)
    fix u w2 x u' w4 u'' w5
    assume "upd_task c ?stop w1 = Ret u w2" "?wake x w2 = Ret u' w4" "preempt_node w4 = Ret u'' w5"
    then have "deferred (node w5) = deferred (node w1)"
      using same_deferred_frames(1) [of w1 c ?stop] wake(2) [of w2 x]
      by (auto simp: same_deferred_def dest: preempt_node_state split: if_splits)
    then show "framed (lives X) w5 (node_yield e cl (In_exit # k) w5)"
      using framed_node_yield n d by simp
  qed
  show ?thesis
    unfolding sched_exit_def
    using c(1) by (auto intro!: lv.framed_bind framed_deref framed_preempt framed_guarded body simp: lives_refl
        dest!: preempt_lock_node)
qed


lemma framed_return_from_entry:
  assumes d: "deferred (node w) \<in> X" and c: "current_is c w" "c \<in> X"
  shows "framed (lives X) w (return_from_entry e cl v w)"
proof -
  let ?u = "upd_task c (\<lambda>t. t\<lparr>return_value := v\<rparr>) w"
  have u: "framed (lives X) w ?u" by (rule framed_upd_task) (simp add: c)
  have h: "framed (lives X) w1 (task_end_handler e cl [In_stop] c w1)" if "?u = Ret x w1" for x w1
  proof -
    have "current_is c w1" "deferred (node w1) = deferred (node w)"
      using that c(1) by (auto simp: upd_task_def deref_def split: option.splits)
    then show ?thesis
      using framed_sched_exit c(2) d by (auto intro!: framed_deref simp: task_end_handler_def lives_refl)
  qed
  show ?thesis
    unfolding return_from_entry_def task_stop_def
    using c(1) by (auto intro!: lv.framed_bind u h simp: lives_refl split: control.splits)
qed

lemma framed_resume_frame:
  assumes "inited w"
  shows "framed (lives X) w (resume_frame e cl f w)"
  using assms framed_join_finish
  by (cases f) (auto intro!: lv.framed_bind framed_preempt framed_spin framed_task_current framed_upd_task
      simp: enter_task_def finish_switch_def lives_refl simp del: spin_unlock_Ret upd_task_Some)

lemma framed_run_frames: "inited w \<Longrightarrow> framed (lives X) w (run_frames e cl ks w)"
proof (induction e cl ks w rule: run_frames.induct)
  case (3 e cl f g k w)
  show ?case
    unfolding run_frames.simps
  proof (rule lv.framed_bind [OF framed_resume_frame [OF 3(2)]])
    fix a w1 assume r: "resume_frame e cl f w = Ret a w1"
    then show "framed (lives X) w1 (run_frames e cl (g # k) w1)"
      using 3(1) framed_inited [OF framed_resume_frame [OF 3(2)] r 3(2)] by blast
  qed
qed (simp_all add: lives_refl framed_resume_frame)

lemma framed_resume: "inited w \<Longrightarrow> framed (lives X) w (resume e cl w)"
  unfolding resume_def by (auto intro!: lv.framed_bind framed_task_current framed_run_frames dest!: task_current_state)

lemma framed_exec:
  assumes i: "inited w" and d: "deferred (node w) \<in> X" and c: "current_is c w" "may_stop p c \<subseteq> X"
    and p: "\<not> makes_or_sleeps p"
  shows "framed (lives X) w (exec e cl p w)"
proof -
  have nv: "framed (lives X) w r \<Longrightarrow> framed (lives X) w (no_value r)" for r
    unfolding no_value_def by (rule lv.framed_bind) (auto simp: lives_refl)
  have op: "framed (lives X) w (run_op e cl p w)"
    using p c framed_sched_yield [OF d] framed_sched_join [OF i d] framed_sched_detach [OF i]
      framed_sched_exit [OF d c(1)] framed_return_from_entry [OF d c(1)] framed_preempt_trap [OF d]
      framed_waiter_wait [OF d] framed_waiter_wake framed_waiter_swap
    by (cases p) (auto simp: run_op_def lives_refl intro!: nv lv.framed_bind)
  show ?thesis
    unfolding exec_def
  proof (rule lv.framed_bind [OF op])
    fix rv w1 assume r: "run_op e cl p w = Ret rv w1"
    have "inited w1" by (rule framed_inited [OF op r i])
    then show "framed (lives X) w1 ((case rv of (r, v) \<Rightarrow> \<lambda>w1. case r of Returned \<Rightarrow> Ret v w1 | Switched \<Rightarrow> resume e cl w1) w1)"
      by (auto simp: lives_refl framed_resume split: prod.splits control.splits)
  qed
qed


text \<open>In a state that obeys the invariant the deferred task has stopped and need not be exempted.\<close>

lemma exec_lives:
  assumes ok: "sched_inv H w" and c: "current_is c w" and p: "\<not> makes_or_sleeps p" and r: "exec e cl p w = Ret r w'"
  shows "lives (may_stop p c) w w'"
proof -
  obtain c' x where c': "cur_ok c' w" "tasks w c' = Some x" using sched_ok_obtain [OF ok] .
  note s = sched_ok_curD [OF ok c']
  note D = table_okD [OF s(3) [unfolded tab_def]]
  let ?d = "deferred (node w)"
  have st: "run_state y = STOPPED" if "tasks w ?d = Some y" for y
    using row_okD(11) [OF D(17) [OF that]] D(1,8,15) that by auto
  have "inited w" using s(1) by (simp add: base_ok_def)
  from framed_exec [OF this, of "insert ?d (may_stop p c)" c p e cl] c p r
  have "lives (insert ?d (may_stop p c)) w w'" by auto
  then show ?thesis using st unfolding lives_def by (metis insert_iff)
qed

lemma spawn_lives:
  assumes ok: "sched_inv H w" and cur: "cur_ok c w" and fm: "fresh_mapping e a w" "same_kind a w"
    and r: "sched_spawn e cl a ent ar w = Ret t w'"
  shows "lives {} w w'" "t \<notin> dom (tasks w) \<or> t \<in> fl_set w"
    "\<exists>x. tasks w' t = Some x \<and> entry x = ent \<and> arg x = ar \<and> run_state x \<noteq> STOPPED"
proof -
  obtain w1 where ent: "ent \<noteq> nullptr" and mk: "make_task e a w = Ret t w1"
    using r inited_ok [OF ok, of cl]
    by (auto simp: sched_spawn_def bind_outcome_Ret_iff with_dtor_Ret_iff split: if_splits)
  obtain x where x: "tasks w1 = (tasks w)(t \<mapsto> x)" "t \<notin> dom (tasks w) \<or> t \<in> fl_set w" "base_ok w1" "base_ok w"
    using make_task_ok [OF ok cur fm mk] ok by (auto simp: sched_ok_def)
  show nw: "t \<notin> dom (tasks w) \<or> t \<in> fl_set w" by (rule x(2))
  obtain xc where xc: "tasks w c = Some xc" using cur by (auto simp: cur_ok_def)
  obtain y where y: "sched_ok (parked w) (insert t H) w'" "cur_ok c w'" "rq_set w' = insert t (rq_set w)"
      "tasks w' t = Some y" "entry y = ent" "arg y = ar"
    using spawn_ok [OF ok cur fm mk ent, of cl ar] r by auto
  obtain yc where yc: "tasks w' c = Some yc" using y(2) by (auto simp: cur_ok_def)
  note D' = table_okD [OF sched_ok_curD(3) [OF y(1,2) yc, unfolded tab_def]]
  have tR: "t \<in> rq_set w'" using y(3) by simp
  then have "t \<noteq> deferred (node w')" "t \<noteq> c" "t \<notin> fl_set w'" using D'(5,7,9) by auto
  from row_okD(13) [OF D'(17) [OF y(4) this(3)] this(1,2)] tR have "run_state y \<noteq> STOPPED" by blast
  with y show "\<exists>x. tasks w' t = Some x \<and> entry x = ent \<and> arg x = ar \<and> run_state x \<noteq> STOPPED" by blast
  let ?rest = "\<lambda>w2. bind_outcome (upd_task t (\<lambda>x. x\<lparr>entry := ent, arg := ar\<rparr>) w2) (\<lambda>_ w3.
        bind_outcome (task_start t w3) (\<lambda>_ w4.
        bind_outcome (preempt_lock w4) (\<lambda>_ w5. with_dtor preempt_unlock
          (bind_outcome (preempt_node w5) (\<lambda>_ w6.
           bind_outcome (node_schedule t w6) (\<lambda>_ w7. Ret t w7))))))"
  have ts: "framed (lives {t}) w3 (task_start t w3)" for w3
    unfolding task_start_def Let_def
    by (auto intro!: framed_deref lv.framed_bind framed_task_current lives_upd simp: upd_task_def deref_def lives_def
        split: option.splits)
  have "framed (lives {t}) w1 (?rest w1)"
    by (intro lv.framed_bind lv.framed_with_dtor framed_upd_task ts framed_preempt framed_node_schedule)
      (simp_all add: lives_refl)
  moreover have "?rest w1 = Ret t w'"
    using r ent mk inited_ok [OF ok, of cl] by (simp add: sched_spawn_def)
  ultimately have l1: "lives {t} w1 w'" by simp
  have "lives {t} w w1" using x(1,3) by (auto simp: lives_def base_ok_def)
  then have l: "lives {t} w w'" using l1 by (rule lives_trans)
  note D = table_okD [OF sched_ok_curD(3) [OF ok cur xc, unfolded tab_def]]
  have "run_state z = STOPPED" if "tasks w t = Some z" for z using D(16) [OF that] nw that by auto
  with l show "lives {} w w'" unfolding lives_def by (metis singletonD empty_iff)
qed

end
