(* ===== verification/Gthread.thy ===== *)
theory Gthread
  imports Sched_Frame Steps
begin

text \<open>
  The objects user code works with (\<open>gthread.h\<close>, \<open>gthread_impl.h\<close>): \<open>g\<close>, which owns an execution
  context as \<open>std::thread\<close> does, and \<open>self\<close>; and the closure a \<open>g\<close> passes to its task
  (\<open>util/function_marshall.h\<close>). The type \<open>'a\<close> holds the arguments and \<open>'r\<close> what the function does
  with them. \<open>g_polymorphic_start\<close> is split where user code runs: \<open>g_start_call\<close> calls the closure
  and \<open>g_start_return\<close> deletes it and returns to \<open>gthread_task_entry\<close>.

  The step relation \<open>g_step\<close> interleaves the tasks of a program. The lemmas show that each function
  runs once, with the arguments its \<open>g\<close> was given, that its closure is there as long as it
  runs, and that destroying a \<open>g\<close> never fails; and what goes wrong when a \<open>g\<close> is copied.
\<close>

section \<open>Definitions\<close>

subsection \<open>Closures\<close>

record ('a, 'r) function_marshall =
  used :: bool
  fm_function :: "'a \<Rightarrow> 'r"
  fm_args :: 'a

definition function_marshall_ctor :: "('a \<Rightarrow> 'r) \<Rightarrow> 'a \<Rightarrow> ('a, 'r) function_marshall" where
  "function_marshall_ctor f a = \<lparr>used = False, fm_function = f, fm_args = a\<rparr>"

definition function_marshall_call ::
    "('a, 'r) function_marshall \<Rightarrow> ('r, ('a, 'r) function_marshall) outcome" where
  "function_marshall_call m =
     (if used m then Throw Bad_function_call m
      else (let m1 = m\<lparr>used := True\<rparr> in Ret (fm_function m1 (fm_args m1)) m1))"

subsection \<open>Execution contexts\<close>

text \<open>The program: the scheduler and the closures on the heap.\<close>

record ('a, 'r) g_world =
  sched :: gstate
  closures :: "addr \<rightharpoonup> ('a, 'r) function_marshall"

record g =
  g_handle :: addr

fun on_sched ::
    "(gstate \<Rightarrow> ('b, gstate) outcome) \<Rightarrow> ('a, 'r, 'x) g_world_scheme \<Rightarrow> ('b, ('a, 'r, 'x) g_world_scheme) outcome" where
  "on_sched f s =
     (case f (sched s) of
        Ret b w \<Rightarrow> Ret b (s\<lparr>sched := w\<rparr>)
      | Throw x w \<Rightarrow> Throw x (s\<lparr>sched := w\<rparr>)
      | Crash c \<Rightarrow> Crash c)"

definition g_default :: g where
  "g_default = \<lparr>g_handle = nullptr\<rparr>"

text \<open>
  The constructor: \<open>p\<close> is the address \<open>operator new\<close> gives to the closure and \<open>start\<close> that of the
  instance of \<open>g_polymorphic_start\<close>. When \<open>spawn\<close> throws the closure stays behind.
\<close>

definition g_ctor ::
    "env \<Rightarrow> clk \<Rightarrow> addr \<Rightarrow> addr \<Rightarrow> ('a \<Rightarrow> 'r) \<Rightarrow> 'a \<Rightarrow> ('a, 'r, 'x) g_world_scheme
       \<Rightarrow> (g, ('a, 'r, 'x) g_world_scheme) outcome" where
  "g_ctor e cl start p f a s =
     bind_outcome
       (on_sched (sched_spawn e cl k_light_attr start p)
          (s\<lparr>closures := (closures s)(p \<mapsto> function_marshall_ctor f a)\<rparr>))
       (\<lambda>t s1. Ret \<lparr>g_handle = t\<rparr> s1)"

definition g_bool :: "g \<Rightarrow> bool" where
  "g_bool x \<longleftrightarrow> g_handle x \<noteq> nullptr"

text \<open>\<open>sched::join\<close> writes the handle when it goes on, that is at once unless it switches away.\<close>

fun write_handle :: "g \<Rightarrow> result \<Rightarrow> g" where
  "write_handle x (Handle_written h v) = x\<lparr>g_handle := h\<rparr>"
| "write_handle x r = x"

definition g_join ::
    "env \<Rightarrow> clk \<Rightarrow> g \<Rightarrow> frame list \<Rightarrow> ('a, 'r, 'x) g_world_scheme
       \<Rightarrow> (control \<times> g, ('a, 'r, 'x) g_world_scheme) outcome" where
  "g_join e cl x k s =
     (if \<not> g_bool x then Throw (Logic_error ''no execution context to join'') s
      else bind_outcome (on_sched (sched_join e cl (Some (g_handle x)) False k) s)
             (\<lambda>(c, r) s1. Ret (c, write_handle x r) s1))"

definition g_detach ::
    "env \<Rightarrow> clk \<Rightarrow> g \<Rightarrow> ('a, 'r, 'x) g_world_scheme \<Rightarrow> (g, ('a, 'r, 'x) g_world_scheme) outcome" where
  "g_detach e cl x s =
     (if \<not> g_bool x then Ret x s
      else bind_outcome (on_sched (sched_detach e cl (Some (g_handle x))) s)
             (\<lambda>r s1. Ret (write_handle x r) s1))"

definition g_dtor ::
    "env \<Rightarrow> clk \<Rightarrow> g \<Rightarrow> ('a, 'r, 'x) g_world_scheme \<Rightarrow> (unit, ('a, 'r, 'x) g_world_scheme) outcome" where
  "g_dtor e cl x s = bind_outcome (g_detach e cl x s) (\<lambda>_ s1. Ret () s1)"

text \<open>
  The class declares a destructor and nothing else that would suppress the copy operations: the
  compiler provides them, and copies the handle.
\<close>

definition g_copy :: "g \<Rightarrow> g" where
  "g_copy x = \<lparr>g_handle = g_handle x\<rparr>"

definition self_yield ::
    "env \<Rightarrow> clk \<Rightarrow> frame list \<Rightarrow> ('a, 'r, 'x) g_world_scheme \<Rightarrow> (control, ('a, 'r, 'x) g_world_scheme) outcome" where
  "self_yield e cl k s = on_sched (sched_yield e cl k) s"

definition self_sleep_for ::
    "env \<Rightarrow> clk \<Rightarrow> int \<Rightarrow> frame list \<Rightarrow> ('a, 'r, 'x) g_world_scheme
       \<Rightarrow> (control, ('a, 'r, 'x) g_world_scheme) outcome" where
  "self_sleep_for e cl d k s = on_sched (sched_sleep_for e cl d k) s"

text \<open>
  The entry function: the closure is called through its \<open>unique_ptr\<close>, which deletes it when the
  call is over, also when it throws.
\<close>

definition g_start_call :: "addr \<Rightarrow> ('a, 'r, 'x) g_world_scheme \<Rightarrow> ('r, ('a, 'r, 'x) g_world_scheme) outcome" where
  "g_start_call ar s =
     (case closures s ar of
        None \<Rightarrow> Crash Bad_pointer
      | Some m \<Rightarrow>
          (case function_marshall_call m of
             Ret r m1 \<Rightarrow> Ret r (s\<lparr>closures := (closures s)(ar \<mapsto> m1)\<rparr>)
           | Throw x m1 \<Rightarrow> Throw x (s\<lparr>closures := (closures s)(ar := None)\<rparr>)
           | Crash c \<Rightarrow> Crash c))"

definition g_start_return ::
    "env \<Rightarrow> clk \<Rightarrow> addr \<Rightarrow> ('a, 'r, 'x) g_world_scheme \<Rightarrow> (result, ('a, 'r, 'x) g_world_scheme) outcome" where
  "g_start_return e cl ar s =
     (if closures s ar = None then Crash Bad_pointer
      else on_sched (exec e cl (Op_return nullptr)) (s\<lparr>closures := (closures s)(ar := None)\<rparr>))"

subsection \<open>Programs\<close>

text \<open>
  \<open>held\<close> are the tasks whose handle some \<open>g\<close> owns, \<open>todo\<close> the tasks of a \<open>g\<close> that have not entered their
  function, with what the \<open>g\<close> was constructed from, and \<open>busy\<close> those inside it.
\<close>

record ('a, 'r) g_run = "('a, 'r) g_world" +
  held :: "addr set"
  todo :: "addr \<rightharpoonup> ('a \<Rightarrow> 'r) \<times> 'a"
  busy :: "addr set"

inductive g_step :: "addr \<Rightarrow> ('a, 'r) g_run \<Rightarrow> ('a, 'r) g_run \<Rightarrow> bool" for start where
  g_new: "g_ctor e cl start p f a s = Ret x s' \<Longrightarrow> p \<notin> dom (closures s) \<Longrightarrow>
    fresh_mapping e k_light_attr (sched s) \<Longrightarrow> same_kind k_light_attr (sched s) \<Longrightarrow>
    g_step start s (s'\<lparr>held := insert (g_handle x) (held s), todo := (todo s)(g_handle x \<mapsto> (f, a))\<rparr>)"
| g_enter: "current_is t (sched s) \<Longrightarrow> todo s t \<noteq> None \<Longrightarrow> tasks (sched s) t = Some x \<Longrightarrow>
    g_start_call (arg x) s = Ret r s' \<Longrightarrow>
    g_step start s (s'\<lparr>todo := (todo s)(t := None), busy := insert t (busy s)\<rparr>)"
| g_leave: "current_is t (sched s) \<Longrightarrow> t \<in> busy s \<Longrightarrow> tasks (sched s) t = Some x \<Longrightarrow>
    g_start_return e cl (arg x) s = Ret r s' \<Longrightarrow> g_step start s (s'\<lparr>busy := busy s - {t}\<rparr>)"
| g_exit: "current_is t (sched s) \<Longrightarrow> todo s t = None \<Longrightarrow> exec e cl (Op_exit v) (sched s) = Ret r w \<Longrightarrow>
    g_step start s (s\<lparr>sched := w, busy := busy s - {t}\<rparr>)"
| g_yields: "p \<in> {Op_yield, Op_tick, Op_wait} \<union> Op_wake ` parked (sched s) \<union> Op_swap ` parked (sched s) \<Longrightarrow> exec e cl p (sched s) = Ret r w \<Longrightarrow>
    g_step start s (s\<lparr>sched := w\<rparr>)"
| g_joins: "t \<in> held s \<Longrightarrow> \<not> current_is t (sched s) \<Longrightarrow> exec e cl (Op_join (Some t) False) (sched s) = Ret r w \<Longrightarrow>
    g_step start s (s\<lparr>sched := w, held := held s - {t}\<rparr>)"
| g_drops: "t \<in> held s \<Longrightarrow> g_dtor e cl \<lparr>g_handle = t\<rparr> s = Ret () s' \<Longrightarrow>
    g_step start s (s'\<lparr>held := held s - {t}\<rparr>)"

text \<open>A program at its first use of the library.\<close>

definition g_begin :: "('a, 'r) g_run \<Rightarrow> bool" where
  "g_begin s \<longleftrightarrow>
     (\<exists>w0 cl. pristine w0 \<and> sched_context_get cl w0 = Ret () (sched s)) \<and>
     closures s = Map.empty \<and> held s = {} \<and> todo s = Map.empty \<and> busy s = {}"

text \<open>The task of a \<open>g\<close>, and its closure in the state \<open>u\<close> of use.\<close>

definition owns :: "addr \<Rightarrow> ('a, 'r) g_run \<Rightarrow> addr \<Rightarrow> ('a, 'r) function_marshall \<Rightarrow> bool" where
  "owns start s t m \<longleftrightarrow>
     (\<exists>x. tasks (sched s) t = Some x \<and> run_state x \<noteq> STOPPED \<and> entry x = start \<and> closures s (arg x) = Some m)"

definition g_tasks :: "('a, 'r) g_run \<Rightarrow> addr set" where
  "g_tasks s = dom (todo s) \<union> busy s"

definition g_inv :: "addr \<Rightarrow> ('a, 'r) g_run \<Rightarrow> bool" where
  "g_inv start s \<longleftrightarrow>
     reachable (held s) (sched s) \<and> dom (todo s) \<inter> busy s = {} \<and>
     (\<forall>t f a. todo s t = Some (f, a) \<longrightarrow> owns start s t (function_marshall_ctor f a)) \<and>
     (\<forall>t. t \<in> busy s \<longrightarrow> (\<exists>m. owns start s t m \<and> used m)) \<and>
     (\<forall>t u x y. t \<in> g_tasks s \<and> u \<in> g_tasks s \<and> t \<noteq> u \<and> tasks (sched s) t = Some x \<and> tasks (sched s) u = Some y \<longrightarrow>
        arg x \<noteq> arg y)"

section \<open>The life of a closure\<close>

lemma g_invD:
  assumes "g_inv start s"
  shows "reachable (held s) (sched s)" "dom (todo s) \<inter> busy s = {}"
    "todo s t = Some (f, a) \<Longrightarrow> owns start s t (function_marshall_ctor f a)"
    "t \<in> busy s \<Longrightarrow> \<exists>m. owns start s t m \<and> used m"
    "t \<in> g_tasks s \<Longrightarrow> u \<in> g_tasks s \<Longrightarrow> t \<noteq> u \<Longrightarrow> tasks (sched s) t = Some x \<Longrightarrow> tasks (sched s) u = Some y \<Longrightarrow>
       arg x \<noteq> arg y"
  using assms unfolding g_inv_def by blast+

lemma g_tasks_owns: "g_inv start s \<Longrightarrow> t \<in> g_tasks s \<Longrightarrow> \<exists>m. owns start s t m"
  using g_invD(3,4) by (fastforce simp: g_tasks_def)

lemma owns_lives:
  assumes "owns start s t m" and "lives X (sched s) (sched s')" and "t \<notin> X"
    and "\<And>x. tasks (sched s) t = Some x \<Longrightarrow> closures s' (arg x) = closures s (arg x)"
  shows "owns start s' t m"
proof -
  obtain x where x: "tasks (sched s) t = Some x" "run_state x \<noteq> STOPPED" "entry x = start" "closures s (arg x) = Some m"
    using assms(1) by (auto simp: owns_def)
  obtain x' where "tasks (sched s') t = Some x'" "run_state x' \<noteq> STOPPED" "entry x' = entry x" "arg x' = arg x"
    using assms(2,3) x(1,2) by (auto simp: lives_def)
  then show ?thesis using x assms(4) [OF x(1)] by (auto simp: owns_def)
qed

lemma owns_arg:
  assumes "owns start s t m" and "lives X (sched s) w" and "t \<notin> X" and "tasks w t = Some x'"
  shows "\<exists>x. tasks (sched s) t = Some x \<and> arg x = arg x'"
proof -
  obtain x where x: "tasks (sched s) t = Some x" "run_state x \<noteq> STOPPED" using assms(1) by (auto simp: owns_def)
  then have "arg x = arg x'" using assms(2-4) unfolding lives_def by (metis option.inject)
  with x(1) show ?thesis by blast
qed

text \<open>A step that only ends tasks and lets the closures of the others be.\<close>

lemma g_inv_lives:
  assumes inv: "g_inv start s" and l: "lives X (sched s) (sched s')" and r: "reachable (held s') (sched s')"
    and sub: "todo s' \<subseteq>\<^sub>m todo s" "busy s' \<subseteq> busy s" and X: "X \<inter> g_tasks s' = {}"
    and cl: "\<And>t x. t \<in> g_tasks s' \<Longrightarrow> tasks (sched s) t = Some x \<Longrightarrow> closures s' (arg x) = closures s (arg x)"
  shows "g_inv start s'"
proof -
  have gt: "t \<in> g_tasks s" "t \<notin> X" if "t \<in> g_tasks s'" for t
    using that sub map_le_implies_dom_le [OF sub(1)] X by (auto simp: g_tasks_def)
  have own: "owns start s' t m" if "owns start s t m" "t \<in> g_tasks s'" for t m
    by (rule owns_lives [OF that(1) l gt(2) [OF that(2)]]) (use cl that(2) in blast)
  have td: "todo s t = Some fa" if "todo s' t = Some fa" for t fa
    using sub(1) that by (metis map_le_def domI)
  have "owns start s' t (function_marshall_ctor f a)" if "todo s' t = Some (f, a)" for t f a
    using own [OF g_invD(3) [OF inv td [OF that]]] that by (auto simp: g_tasks_def)
  moreover have "\<exists>m. owns start s' t m \<and> used m" if "t \<in> busy s'" for t
    using own g_invD(4) [OF inv, of t] that sub(2) by (auto simp: g_tasks_def)
  moreover have "dom (todo s') \<inter> busy s' = {}" using g_invD(2) [OF inv] td sub(2) by blast
  moreover have "arg x \<noteq> arg y"
    if tu: "t \<in> g_tasks s'" "u \<in> g_tasks s'" "t \<noteq> u" "tasks (sched s') t = Some x" "tasks (sched s') u = Some y" for t u x y
  proof -
    obtain m where m: "owns start s t m" using g_tasks_owns [OF inv gt(1) [OF tu(1)]] by blast
    obtain m' where m': "owns start s u m'" using g_tasks_owns [OF inv gt(1) [OF tu(2)]] by blast
    obtain x0 where x0: "tasks (sched s) t = Some x0" "arg x0 = arg x"
      using owns_arg [OF m l gt(2) [OF tu(1)] tu(4)] by blast
    obtain y0 where y0: "tasks (sched s) u = Some y0" "arg y0 = arg y"
      using owns_arg [OF m' l gt(2) [OF tu(2)] tu(5)] by blast
    show ?thesis
      using g_invD(5) [OF inv gt(1) [OF tu(1)] gt(1) [OF tu(2)] tu(3) x0(1) y0(1)] x0(2) y0(2) by simp
  qed
  ultimately show ?thesis using r unfolding g_inv_def by blast
qed


lemma g_inv_sched:
  assumes inv: "g_inv start s" and l: "lives {} (sched s) w" and r: "reachable H w"
  shows "g_inv start (s\<lparr>sched := w, held := H\<rparr>)"
  by (rule g_inv_lives [OF inv, of "{}"]) (use l r in simp_all)

lemma g_step_new:
  assumes inv: "g_inv start s" and c: "g_ctor e cl start p f a s = Ret x s'" "p \<notin> dom (closures s)"
    and fm: "fresh_mapping e k_light_attr (sched s)" "same_kind k_light_attr (sched s)"
  shows "g_inv start (s'\<lparr>held := insert (g_handle x) (held s), todo := (todo s)(g_handle x \<mapsto> (f, a))\<rparr>)"
proof -
  let ?t = "g_handle x"
  let ?cl = "(closures s)(p \<mapsto> function_marshall_ctor f a)"
  obtain w where sp: "sched_spawn e cl k_light_attr start p (sched s) = Ret ?t w"
      and s': "s' = s\<lparr>closures := ?cl, sched := w\<rparr>"
    using c(1) by (auto simp: g_ctor_def split: outcome.splits)
  have ok: "sched_inv (held s) (sched s)" by (rule reachable_ok [OF g_invD(1) [OF inv]])
  obtain d z where d: "cur_ok d (sched s)" "tasks (sched s) d = Some z" using sched_ok_obtain [OF ok] .
  note l = spawn_lives [OF ok d(1) fm sp]
  obtain y where y: "tasks w ?t = Some y" "entry y = start" "arg y = p" "run_state y \<noteq> STOPPED" using l(3) by blast
  have "exec e cl (Op_spawn k_light_attr start p) (sched s) = Ret (New_handle ?t) w"
    using sp by (simp add: exec_def run_op_def)
  from reachable_step [OF g_invD(1) [OF inv] step_spawn [OF this fm]]
  have r: "reachable (insert ?t (held s)) w" .
  let ?s1 = "s\<lparr>closures := ?cl, sched := w, held := insert ?t (held s)\<rparr>"
  note D = table_okD [OF sched_ok_curD(3) [OF ok d, unfolded tab_def]]
  have in_dom: "arg z \<noteq> p" if "t \<in> g_tasks s" "tasks (sched s) t = Some z" for t z
    using g_tasks_owns [OF inv that(1)] that(2) c(2) by (auto simp: owns_def)
  have new: "?t \<notin> g_tasks s"
    using g_tasks_owns [OF inv, of ?t] l(2) D(16) [of ?t] by (auto simp: owns_def)
  have inv1: "g_inv start ?s1"
    by (rule g_inv_lives [OF inv, of "{}"]) (use l(1) r in_dom in \<open>auto simp: g_tasks_def\<close>)
  let ?s2 = "?s1\<lparr>todo := (todo s)(?t \<mapsto> (f, a))\<rparr>"
  have own: "owns start ?s2 t m \<longleftrightarrow> owns start ?s1 t m" for t m by (simp add: owns_def)
  have ot: "owns start ?s2 ?t (function_marshall_ctor f a)" using y by (simp add: owns_def)
  have gt: "g_tasks ?s2 = insert ?t (g_tasks s)" "g_tasks ?s1 = g_tasks s" by (auto simp: g_tasks_def)
  have neq: "arg z \<noteq> p" if u: "u \<in> g_tasks s" "tasks w u = Some z" for u z
  proof -
    obtain m where "owns start s u m" using g_tasks_owns [OF inv u(1)] by blast
    from owns_arg [OF this l(1) _ u(2)] in_dom u(1) show ?thesis by auto
  qed
  have "g_inv start ?s2"
    unfolding g_inv_def
  proof (intro conjI allI impI)
    show "reachable (held ?s2) (sched ?s2)" using r by simp
    show "dom (todo ?s2) \<inter> busy ?s2 = {}" using g_invD(2) [OF inv] new by (auto simp: g_tasks_def)
    show "owns start ?s2 t (function_marshall_ctor f' a')" if "todo ?s2 t = Some (f', a')" for t f' a'
      using that ot own g_invD(3) [OF inv1] by (cases "t = ?t") auto
    show "\<exists>m. owns start ?s2 t m \<and> used m" if "t \<in> busy ?s2" for t
      using that own g_invD(4) [OF inv1, of t] by simp
    show "arg z \<noteq> arg z'" if h: "t \<in> g_tasks ?s2 \<and> u \<in> g_tasks ?s2 \<and> t \<noteq> u \<and> tasks (sched ?s2) t = Some z \<and> tasks (sched ?s2) u = Some z'" for t u z z'
      using h y(1,3) neq [of t z] neq [of u z'] g_invD(5) [OF inv1, of t u z z'] unfolding gt by auto
  qed
  then show ?thesis by (simp add: s')
qed


lemma g_step_enter:
  assumes inv: "g_inv start s" and t: "todo s t \<noteq> None" "tasks (sched s) t = Some x"
    and c: "g_start_call (arg x) s = Ret r s'"
  shows "g_inv start (s'\<lparr>todo := (todo s)(t := None), busy := insert t (busy s)\<rparr>)"
proof -
  obtain f a where fa: "todo s t = Some (f, a)" using t(1) by auto
  let ?m = "function_marshall_ctor f a"
  have x: "run_state x \<noteq> STOPPED" "entry x = start" "closures s (arg x) = Some ?m"
    using g_invD(3) [OF inv fa] t(2) by (auto simp: owns_def)
  let ?s = "s\<lparr>closures := (closures s)(arg x \<mapsto> ?m\<lparr>used := True\<rparr>), todo := (todo s)(t := None), busy := insert t (busy s)\<rparr>"
  have s': "s'\<lparr>todo := (todo s)(t := None), busy := insert t (busy s)\<rparr> = ?s"
    using c x(3) by (auto simp: g_start_call_def function_marshall_call_def function_marshall_ctor_def)
  have tg: "t \<in> g_tasks s" using t(1) by (auto simp: g_tasks_def)
  have own: "owns start ?s u m" if "owns start s u m" "u \<in> g_tasks s" "u \<noteq> t" for u m
    using that(1) g_invD(5) [OF inv tg that(2) _ t(2)] that(3) by (auto simp: owns_def)
  have "g_inv start ?s"
    unfolding g_inv_def
  proof (intro conjI allI impI)
    show "reachable (held ?s) (sched ?s)" using g_invD(1) [OF inv] by simp
    show "dom (todo ?s) \<inter> busy ?s = {}" using g_invD(2) [OF inv] by auto
    show "owns start ?s u (function_marshall_ctor f' a')" if "todo ?s u = Some (f', a')" for u f' a'
      using that own [OF g_invD(3) [OF inv]] by (auto simp: g_tasks_def split: if_splits)
    show "\<exists>m. owns start ?s u m \<and> used m" if "u \<in> busy ?s" for u
    proof (cases "u = t")
      case True
      then show ?thesis using t(2) x by (auto simp: owns_def)
    next
      case False
      then have u: "u \<in> busy s" using that by simp
      then obtain m where "owns start s u m" "used m" using g_invD(4) [OF inv] by blast
      then show ?thesis using own u False by (auto simp: g_tasks_def)
    qed
    show "arg y \<noteq> arg z" if "u \<in> g_tasks ?s \<and> v \<in> g_tasks ?s \<and> u \<noteq> v \<and> tasks (sched ?s) u = Some y \<and> tasks (sched ?s) v = Some z" for u v y z
      using that g_invD(5) [OF inv, of u v y z] tg by (auto simp: g_tasks_def split: if_splits)
  qed
  then show ?thesis by (simp only: s')
qed

lemma g_step_leave:
  assumes inv: "g_inv start s" and t: "current_is t (sched s)" "t \<in> busy s" "tasks (sched s) t = Some x"
    and c: "g_start_return e cl (arg x) s = Ret r s'"
  shows "g_inv start (s'\<lparr>busy := busy s - {t}\<rparr>)"
proof -
  obtain w where ex: "exec e cl (Op_return nullptr) (sched s) = Ret r w"
      and s': "s' = s\<lparr>closures := (closures s)(arg x := None), sched := w\<rparr>"
    using c by (auto simp: g_start_return_def split: if_splits outcome.splits)
  note re = g_invD(1) [OF inv]
  have l: "lives {t} (sched s) w"
    using exec_lives [OF reachable_ok [OF re] t(1) _ ex] by simp
  have r: "reachable (held s) w" by (rule reachable_step [OF re step_return [OF ex]])
  have tt: "t \<notin> dom (todo s)" using g_invD(2) [OF inv] t(2) by blast
  have ne: "arg y \<noteq> arg x" if "u \<in> g_tasks s" "u \<noteq> t" "tasks (sched s) u = Some y" for u y
    using g_invD(5) [OF inv that(1) _ that(2,3) t(3)] t(2) by (simp add: g_tasks_def)
  show ?thesis
    by (rule g_inv_lives [OF inv, of "{t}"]) (use s' l r tt ne in \<open>auto simp: g_tasks_def\<close>)
qed

lemma g_step_inv:
  assumes inv: "g_inv start s" and st: "g_step start s s'"
  shows "g_inv start s'"
proof -
  note re = g_invD(1) [OF inv] and ok = reachable_ok [OF g_invD(1) [OF inv]]
  have same: "s\<lparr>sched := w, held := held s\<rparr> = s\<lparr>sched := w\<rparr>" for w by simp
  obtain c z where cc: "cur_ok c (sched s)" "tasks (sched s) c = Some z" using sched_ok_obtain [OF ok] .
  then have c: "current_is c (sched s)" by (simp add: cur_ok_def)
  from st show ?thesis
  proof cases
    case (g_new e cl p f a x s1)
    then show ?thesis using g_step_new [OF inv] by simp
  next
    case (g_enter t x r s1)
    then show ?thesis using g_step_enter [OF inv] by simp
  next
    case (g_leave t x e cl r s1)
    then show ?thesis using g_step_leave [OF inv] by simp
  next
    case (g_exit t e cl v r w)
    have "reachable (held s) w" by (rule reachable_step [OF re step_exit [OF g_exit(4)]])
    moreover have "lives {t} (sched s) w" using exec_lives [OF ok g_exit(2) _ g_exit(4)] by simp
    ultimately show ?thesis
      unfolding g_exit(1) by (intro g_inv_lives [OF inv, of "{t}"]) (use g_exit in \<open>auto simp: g_tasks_def\<close>)
  next
    case (g_yields p e cl r w)
    have "reachable (held s) w"
      using g_yields(2,3)
      by (auto intro!: reachable_step [OF re] intro: step_yield step_tick step_wait step_wake step_swap)
    moreover have "lives {} (sched s) w"
      using exec_lives [OF ok c _ g_yields(3)] g_yields(2) by auto
    ultimately show ?thesis using g_inv_sched [OF inv, of w "held s"] g_yields(1) by (simp add: same)
  next
    case (g_joins t e cl r w)
    have "reachable (held s - {t}) w"
      by (rule reachable_step [OF re step_join [OF g_joins(4,2,3)]])
    moreover have "lives {} (sched s) w" using exec_lives [OF ok c _ g_joins(4)] by simp
    ultimately show ?thesis using g_inv_sched [OF inv, of w "held s - {t}"] g_joins(1) by simp
  next
    case (g_drops t e cl s1)
    obtain y where y: "t \<noteq> nullptr"
      using handle_task [OF sched_ok_curD(3) [OF ok cc] g_drops(2)] by metis
    obtain rr w where d: "sched_detach e cl (Some t) (sched s) = Ret rr w" "s1 = s\<lparr>sched := w\<rparr>"
      using g_drops(3) y by (auto simp: g_dtor_def g_detach_def g_bool_def bind_outcome_Ret_iff split: outcome.splits)
    then have ex: "exec e cl (Op_detach (Some t)) (sched s) = Ret rr w" by (simp add: exec_def run_op_def)
    have "reachable (held s - {t}) w" by (rule reachable_step [OF re step_detach [OF ex g_drops(2)]])
    moreover have "lives {} (sched s) w" using exec_lives [OF ok c _ ex] by simp
    ultimately show ?thesis using g_inv_sched [OF inv, of w "held s - {t}"] g_drops(1) d(2) by simp
  qed
qed

lemma g_begin_inv: "g_begin s \<Longrightarrow> g_inv start s"
  by (auto simp: g_begin_def g_inv_def g_tasks_def reachable_def intro: reach_refl)

interpretation gs: invariant_system g_begin "g_step start" "g_inv start" for start
  by unfold_locales (rule g_begin_inv, assumption, rule g_step_inv)


section \<open>Worked instances\<close>

text \<open>A program whose first task constructs a \<open>g\<close> from a function and a number, and lets it run.\<close>

lemma demo_new:
  obtains s0 s :: "(nat, nat) g_run" and t where "g_begin s0" "g_step 0x4000 s0 s" "todo s t = Some (Suc, 3)"
    "held s = {t}" "busy s = {}" "closures s = [0x9000 \<mapsto> function_marshall_ctor Suc 3]"
    "cur_ok 0x100 (sched s)" "rq_set (sched s) = {t}" "t \<noteq> 0x100" "vr_of (sched s) t = 0" "vr_of (sched s) 0x100 = 0"
    "last_tick (node (sched s)) = 0"
proof -
  obtain t w w0 where w: "cur_ok 0x100 w" "rq_set w = {t}" "t \<noteq> 0x100" "vr_of w t = 0" "vr_of w 0x100 = 0" "last_tick (node w) = 0"
    "sched_context_get demo_clk demo_gstate = Ret () w0" "fresh_mapping (demo_env 0x700000000000) k_light_attr w0"
    "same_kind k_light_attr w0" "sched_spawn (demo_env 0x700000000000) demo_clk k_light_attr 0x4000 0x9000 w0 = Ret t w"
    by (rule demo_spawn_kind [of k_light_attr "0x9000"]) (simp, rule that)
  let ?s0 = "\<lparr>sched = w0, closures = Map.empty, held = {}, todo = Map.empty, busy = {}\<rparr> :: (nat, nat) g_run"
  let ?m = "[0x9000 \<mapsto> function_marshall_ctor Suc 3]"
  have b: "g_begin ?s0" using demo_pristine w(7) by (auto simp: g_begin_def)
  have c: "g_ctor (demo_env 0x700000000000) demo_clk 0x4000 0x9000 Suc 3 ?s0 = Ret \<lparr>g_handle = t\<rparr> (?s0\<lparr>closures := ?m, sched := w\<rparr>)"
    using w(10) by (simp add: g_ctor_def)
  have "g_step 0x4000 ?s0 (?s0\<lparr>closures := ?m, sched := w, held := {t}, todo := [t \<mapsto> (Suc, 3)]\<rparr>)"
    using g_new [OF c] w(8,9) by simp
  then show thesis by (rule that [OF b]) (use w in simp_all)
qed

text \<open>After a long tick of the first task the \<open>g\<close> runs and enters its function.\<close>

lemma demo_busy:
  obtains s0 s :: "(nat, nat) g_run" and t where "g_begin s0" "(g_step 0x4000)\<^sup>*\<^sup>* s0 s" "t \<in> busy s" "todo s t = None"
    "cur_ok t (sched s)" "held s = {t}" "rq_set (sched s) \<noteq> {}"
proof -
  let ?cl = "demo_clk\<lparr>tick0 := 1000000\<rparr>"
  obtain s0 s :: "(nat, nat) g_run" and t where s: "g_begin s0" "g_step 0x4000 s0 s" "todo s t = Some (Suc, 3)" "held s = {t}"
    "busy s = {}" "cur_ok 0x100 (sched s)" "rq_set (sched s) = {t}" "t \<noteq> 0x100" "vr_of (sched s) t = 0"
    "vr_of (sched s) 0x100 = 0" "last_tick (node (sched s)) = 0" by (rule demo_new)
  have inv: "g_inv 0x4000 s" using gs.inv_step [OF gs.inv_start [OF s(1)] s(2)] .
  have ok: "sched_inv {t} (sched s)" using reachable_ok [OF g_invD(1) [OF inv]] s(4) by simp
  obtain r w n where w: "exec (demo_env 0) ?cl Op_yield (sched s) = Ret r w" "cur_ok n w" "n \<in> {0x100, t}"
      "charged_only 0x100 ?cl (sched s) w" "vr_of w n \<le> vr_of w t" "insert n (rq_set w) = {0x100, t}"
    using exec_yield_ok [OF ok s(6), of Op_yield "demo_env 0" ?cl] s(7) by auto
  have "vr_of w 0x100 = 1000" "vr_of w t = 0"
    using w(4) s(7,9-11) by (simp_all add: charged_only_def demo_clk_def ns_to_us_def)
  then have n: "n = t" using w(3,5) by auto
  let ?s1 = "s\<lparr>sched := w\<rparr>"
  have st1: "g_step 0x4000 s ?s1" by (rule g_yields [OF _ w(1)]) simp
  have inv1: "g_inv 0x4000 ?s1" by (rule gs.inv_step [OF inv st1])
  obtain x where x: "tasks w t = Some x" using w(2) n by (auto simp: cur_ok_def)
  have "owns 0x4000 ?s1 t (function_marshall_ctor Suc 3)" using g_invD(3) [OF inv1] s(3) by simp
  then have cl: "closures s (arg x) = Some (function_marshall_ctor Suc 3)" using x by (simp add: owns_def)
  let ?s2 = "?s1\<lparr>closures := (closures s)(arg x \<mapsto> (function_marshall_ctor Suc 3)\<lparr>used := True\<rparr>)\<rparr>"
  have "g_start_call (arg x) ?s1 = Ret 4 ?s2"
    using cl by (simp add: g_start_call_def function_marshall_call_def function_marshall_ctor_def)
  then have st2: "g_step 0x4000 ?s1 (?s2\<lparr>todo := (todo s)(t := None), busy := {t}\<rparr>)"
    using g_enter [of t ?s1 x 4 ?s2 "0x4000"] s(3,5) x w(2) n by (simp add: cur_ok_def)
  have "(g_step 0x4000)\<^sup>*\<^sup>* s0 (?s2\<lparr>todo := (todo s)(t := None), busy := {t}\<rparr>)"
    using s(2) st1 st2 by (meson converse_rtranclp_into_rtranclp rtranclp.rtrancl_refl)
  moreover have "rq_set w \<noteq> {}" using w(6) n s(8) by auto
  ultimately show thesis using that [OF s(1), of "?s2\<lparr>todo := (todo s)(t := None), busy := {t}\<rparr>" t] s(4) w(2) n by simp
qed

text \<open>It leaves its function by \<open>exit\<close>, and its handle is still held.\<close>

lemma demo_left:
  obtains s0 s :: "(nat, nat) g_run" and t y where "g_begin s0" "(g_step 0x4000)\<^sup>*\<^sup>* s0 s" "held s = {t}"
    "tasks (sched s) t = Some y" "run_state y = STOPPED"
proof -
  obtain s0 s :: "(nat, nat) g_run" and t where s: "g_begin s0" "(g_step 0x4000)\<^sup>*\<^sup>* s0 s" "t \<in> busy s" "todo s t = None"
    "cur_ok t (sched s)" "held s = {t}" "rq_set (sched s) \<noteq> {}" by (rule demo_busy)
  have inv: "g_inv 0x4000 s" by (rule gs.inv_reach [OF s(1,2)])
  have ok: "sched_inv {t} (sched s)" using reachable_ok [OF g_invD(1) [OF inv]] s(6) by simp
  obtain x where x: "tasks (sched s) t = Some x" "entry x = 0x4000" using g_invD(4) [OF inv s(3)] by (auto simp: owns_def)
  obtain w2 m where w2: "sched_exit (demo_env 0) demo_clk 0 [] (sched s) = Ret Switched w2" "between (parked (sched s)) {t} m w2"
    using exit_ok [OF ok s(5) x(1), of "demo_env 0" demo_clk 0 "[]"] x(2) s(7) by auto
  then have "run_op (demo_env 0) demo_clk (Op_exit 0) (sched s) = Ret (Switched, No_result) w2"
    by (simp add: run_op_def no_value_def)
  from exec_switched [OF this w2(2)] obtain r w' where w': "exec (demo_env 0) demo_clk (Op_exit 0) (sched s) = Ret r w'"
      "kept {t} w2 w'" by blast
  from exec_exit_Ret [OF ok s(5) w'(1)] obtain y where y: "tasks w2 t = Some y" "run_state y = STOPPED" using w2(1) by auto
  then have "tasks w' t = Some y" using w'(2) by (auto simp: kept_def)
  moreover have "g_step 0x4000 s (s\<lparr>sched := w', busy := busy s - {t}\<rparr>)"
    by (rule g_exit [OF _ s(4) w'(1)]) (use s(5) in \<open>simp add: cur_ok_def\<close>)
  then have "(g_step 0x4000)\<^sup>*\<^sup>* s0 (s\<lparr>sched := w', busy := busy s - {t}\<rparr>)"
    using s(2) by (rule rtranclp.rtrancl_into_rtrancl [rotated])
  ultimately show thesis using that [OF s(1)] s(6) y(2) by simp
qed

section \<open>Properties\<close>

text \<open>
  C9. Every function given to a \<open>g\<close> runs as given: whatever a program has done, a task of a \<open>g\<close> that has
  not entered its function is alive with \<open>g_polymorphic_start\<close> as its entry, and its start calls
  that function on those arguments; a second call of the closure would throw.
\<close>

theorem g_function_runs_once:
  assumes "g_begin s0" and "(g_step start)\<^sup>*\<^sup>* s0 s" and "todo s t = Some (f, a)"
  shows "\<exists>x s'. tasks (sched s) t = Some x \<and> run_state x \<noteq> STOPPED \<and> entry x = start
     \<and> g_start_call (arg x) s = Ret (f a) s' \<and> sched s' = sched s
     \<and> (\<exists>s''. g_start_call (arg x) s' = Throw Bad_function_call s'')"
proof -
  have "g_inv start s" by (rule gs.inv_reach [OF assms(1,2)])
  from g_invD(3) [OF this assms(3)] show ?thesis
    by (auto simp: owns_def g_start_call_def function_marshall_call_def function_marshall_ctor_def)
qed

theorem g_function_runs_once_witness:
  "\<exists>(s :: (nat, nat) g_run) t x s'. todo s t = Some (Suc, 3) \<and> tasks (sched s) t = Some x
     \<and> g_start_call (arg x) s = Ret 4 s'"
proof -
  obtain s0 s :: "(nat, nat) g_run" and t where s: "g_begin s0" "g_step 0x4000 s0 s" "todo s t = Some (Suc, 3)"
    by (rule demo_new) blast
  from g_function_runs_once [OF s(1) r_into_rtranclp [where r = "g_step 0x4000", OF s(2)] s(3)] s(3) show ?thesis by auto
qed

text \<open>
  C10. The closure of a \<open>g\<close> outlives its function: while a task is inside the function its closure is
  allocated and marked as used, and it is the closure of no other task, so the deletion at the end
  of one function never takes the closure of another.
\<close>

theorem g_closure_outlives_function:
  assumes "g_begin s0" and "(g_step start)\<^sup>*\<^sup>* s0 s" and "t \<in> busy s"
  shows "\<exists>x m. tasks (sched s) t = Some x \<and> run_state x \<noteq> STOPPED \<and> closures s (arg x) = Some m \<and> used m
     \<and> (\<forall>u y. u \<in> g_tasks s \<and> u \<noteq> t \<and> tasks (sched s) u = Some y \<longrightarrow> arg y \<noteq> arg x)"
proof -
  have inv: "g_inv start s" by (rule gs.inv_reach [OF assms(1,2)])
  obtain m x where m: "used m" "tasks (sched s) t = Some x" "run_state x \<noteq> STOPPED" "closures s (arg x) = Some m"
    using g_invD(4) [OF inv assms(3)] by (auto simp: owns_def)
  have "arg y \<noteq> arg x" if "u \<in> g_tasks s" "u \<noteq> t" "tasks (sched s) u = Some y" for u y
    using g_invD(5) [OF inv that(1) _ that(2,3) m(2)] assms(3) by (simp add: g_tasks_def)
  with m show ?thesis by blast
qed

theorem g_closure_outlives_function_witness:
  "\<exists>(s :: (nat, nat) g_run) t x m. t \<in> busy s \<and> tasks (sched s) t = Some x \<and> closures s (arg x) = Some m \<and> used m"
proof -
  obtain s0 s :: "(nat, nat) g_run" and t where s: "g_begin s0" "(g_step 0x4000)\<^sup>*\<^sup>* s0 s" "t \<in> busy s"
    by (rule demo_busy) blast
  from g_closure_outlives_function [OF s] s(3) show ?thesis by blast
qed




lemma detach_stopped:
  assumes "current_is c w" "tasks w c = Some x" "\<not> no_preempt_flag x" "inited w"
    and "tasks w t = Some y" "run_state y = STOPPED" "t \<noteq> c" "t \<noteq> nullptr"
  shows "sched_detach e cl (Some t) w = bind_outcome (return_task e t w) (\<lambda>_ w'. Ret (Handle_written nullptr None) w')"
  using assms unlocked_again [OF assms(2,3)] by (simp add: sched_detach_def preempt_lock_def preempt_unlock_def)

text \<open>Returning a listed task again.\<close>

lemma return_listed_twice:
  assumes "fl_set w \<subseteq> dom (tasks w)" and t: "t \<in> fl_set w" "tasks w t = Some y" "t \<noteq> host_task (node w)" and "heap_ok w"
  shows "\<exists>w'. return_task e t w = Ret () w' \<and> \<not> fl_ok w'"
proof (cases "length (fl_list (freelist w)) < fl_max_size (freelist w)")
  case True
  then show ?thesis
    using insert_task_eq [OF assms(1) t(2)] t by (auto simp: return_task_def set_fl_list_def fl_ok_def Let_def)
next
  case False
  then show ?thesis
    using task_destroy_Ret [OF assms(5) t(2,3), of e] t(1) by (auto simp: return_task_def fl_ok_def Let_def)
qed

text \<open>
  C15. A \<open>g\<close> that is joined is empty afterwards: \<open>join\<close> of a finished execution context returns at once and
  clears the handle, a second \<open>join\<close> reports the missing execution context, with the program
  unchanged, and its destruction does nothing.
\<close>

theorem g_join_empties:
  assumes "g_begin s0" and "(g_step start)\<^sup>*\<^sup>* s0 s" and "g_handle x \<in> held s"
    and "tasks (sched s) (g_handle x) = Some y" and "run_state y = STOPPED"
  shows "\<exists>s'. g_join e cl x k s = Ret (Returned, g_default) s' \<and> closures s' = closures s
     \<and> g_join e' cl' g_default k' s' = Throw (Logic_error ''no execution context to join'') s'
     \<and> g_dtor e' cl' g_default s' = Ret () s'"
proof -
  have ok: "sched_inv (held s) (sched s)"
    by (rule reachable_ok [OF g_invD(1) [OF gs.inv_reach [OF assms(1,2)]]])
  obtain c z where c: "cur_ok c (sched s)" "tasks (sched s) c = Some z" using sched_ok_obtain [OF ok] .
  have tc: "g_handle x \<noteq> c" using sched_ok_curD(4) [OF ok c] assms(4,5) c(2) by auto
  have t0: "g_handle x \<noteq> nullptr" using handle_task [OF sched_ok_curD(3) [OF ok c] assms(3)] by metis
  obtain w where "sched_join e cl (Some (g_handle x)) False k (sched s) = Ret (Returned, Handle_written nullptr None) w"
    using join_stopped_ok [OF ok c(1) assms(3) tc assms(4,5), of e cl False k] by auto
  then have "g_join e cl x k s = Ret (Returned, g_default) (s\<lparr>sched := w\<rparr>)"
    using t0 by (simp add: g_join_def g_bool_def g_default_def)
  then show ?thesis by (simp add: g_join_def g_dtor_def g_detach_def g_bool_def g_default_def)
qed

theorem g_join_empties_witness:
  "\<exists>(s :: (nat, nat) g_run) t s'. t \<in> held s
     \<and> g_join (demo_env 0) demo_clk \<lparr>g_handle = t\<rparr> [] s = Ret (Returned, g_default) s'"
proof -
  obtain s0 s :: "(nat, nat) g_run" and t y where s: "g_begin s0" "(g_step 0x4000)\<^sup>*\<^sup>* s0 s" "held s = {t}"
    "tasks (sched s) t = Some y" "run_state y = STOPPED" by (rule demo_left)
  from g_join_empties [OF s(1,2), of "\<lparr>g_handle = t\<rparr>" y "demo_env 0" demo_clk "[]" "demo_env 0" demo_clk "[]"] s(3-5)
  show ?thesis by auto
qed

text \<open>A stopped task that is given back is destroyed or listed; the running task is untouched.\<close>

lemma return_handled:
  assumes ok: "sched_inv H w" and cur: "cur_ok c w" and t: "t \<in> H" and y: "tasks w t = Some y" and st: "run_state y = STOPPED"
  shows "\<exists>w1. return_task e t w = Ret () w1 \<and> cur_ok c w1 \<and> inited w1 \<and>
     (tasks w1 = (tasks w)(t := None) \<or>
      tasks w1 = tasks w \<and> t \<in> fl_set w1 \<and> fl_set w1 \<subseteq> dom (tasks w1) \<and> heap_ok w1 \<and> node w1 = node w)"
proof -
  obtain z where c: "tasks w c = Some z" using cur by (auto simp: cur_ok_def)
  note cs = sched_ok_curD [OF ok cur c]
  have tn: "t \<noteq> nullptr" "t \<notin> fl_set w" "t \<noteq> host_task (node w)" using handle_task [OF cs(3) t] by metis+
  have tc: "t \<noteq> c" using cs(4) y st c by auto
  have fl: "fl_ok w" "inited w" "heap_ok w" using cs(1) by (auto simp: base_ok_def)
  show ?thesis
  proof (cases "length (fl_list (freelist w)) < fl_max_size (freelist w)")
    case True
    let ?w1 = "set_fl_list (insert_before (\<lambda>i j. goes_before (task_at w i) (task_at w j)) t (fl_list (freelist w))) w"
    have "heap_ok ?w1 = heap_ok w" unfolding heap_ok_def storage_def task_at_def by (simp add: set_fl_list_def)
    moreover have "cur_ok c ?w1" using cur by (subst cur_ok_cong) (simp_all add: set_fl_list_def)
    moreover have "fl_set ?w1 \<subseteq> dom (tasks ?w1)"
      using fl_ok_return(2) [OF fl(1) y tn(2,1) True] by (simp add: fl_ok_def Let_def)
    ultimately show ?thesis
      using fl(2,3) fl_ok_return(1) [OF fl(1) y tn(2,1) True, of e] by (simp add: set_fl_list_def)
  next
    case False
    have "t \<notin> rq_set w" by (rule handle_task [OF cs(3) t]) (use y st tc in auto)
    then obtain w1 where "task_destroy e t w = Ret () w1" "base_ok w1" "cur_ok c w1" "tasks w1 = (tasks w)(t := None)"
      using task_destroy_ok [OF cs(1) cur y tc tn(3,2)] by blast
    then show ?thesis using False by (simp add: return_task_def base_ok_def)
  qed
qed

text \<open>
  C29. A \<open>g\<close> can be copied, and then two objects own one execution context: destroying both after it
  has finished gives the task back twice. The second destructor follows the pointer of a destroyed
  task, or leaves a freelist that lists the task twice or lists a task that has been destroyed.
\<close>

theorem copied_g_is_returned_twice:
  assumes "reachable H (sched s)" and "g_handle x \<in> H"
    and "tasks (sched s) (g_handle x) = Some y" and "run_state y = STOPPED"
  shows "\<exists>s1. g_dtor e cl (g_copy x) s = Ret () s1 \<and>
     (g_dtor e cl x s1 = Crash Bad_pointer \<or> (\<exists>s2. g_dtor e cl x s1 = Ret () s2 \<and> \<not> fl_ok (sched s2)))"
proof -
  let ?w = "sched s" and ?t = "g_handle x"
  have ok: "sched_inv H ?w" by (rule reachable_ok [OF assms(1)])
  obtain c z where c: "cur_ok c ?w" "tasks ?w c = Some z" using sched_ok_obtain [OF ok] .
  note cs = sched_ok_curD [OF ok c]
  have t: "?t \<noteq> nullptr" "?t \<notin> fl_set ?w" "?t \<noteq> host_task (node ?w)" using handle_task [OF cs(3) assms(2)] by metis+
  have tc: "?t \<noteq> c" using cs(4) assms(3,4) c(2) by auto
  have ini: "inited ?w" using cs(1) by (auto simp: base_ok_def)
  have d: "g_dtor e cl x' s' = (case sched_detach e cl (Some ?t) (sched s') of Ret r w \<Rightarrow> Ret () (s'\<lparr>sched := w\<rparr>)
      | Throw ex w \<Rightarrow> Throw ex (s'\<lparr>sched := w\<rparr>) | Crash f \<Rightarrow> Crash f)" if "x' = x \<or> x' = g_copy x" for x' s'
    using that t(1) by (auto simp: g_dtor_def g_detach_def g_bool_def g_copy_def split: outcome.splits)
  obtain w1 where r1: "return_task e ?t ?w = Ret () w1" "cur_ok c w1" "inited w1"
      and tw: "tasks w1 = (tasks ?w)(?t := None) \<or>
        tasks w1 = tasks ?w \<and> ?t \<in> fl_set w1 \<and> fl_set w1 \<subseteq> dom (tasks w1) \<and> heap_ok w1 \<and> node w1 = node ?w"
    using return_handled [OF ok c(1) assms(2-4)] by blast
  have c1: "tasks w1 c = Some z" using tw c(2) tc by auto
  have cur: "current_is c w1" using r1(2) by (simp add: cur_ok_def)
  have "g_dtor e cl (g_copy x) s = Ret () (s\<lparr>sched := w1\<rparr>)"
    using d [of "g_copy x" s] detach_stopped [OF cs(10) c(2) cs(5) ini assms(3,4) tc t(1), of e cl] r1 by simp
  moreover have "g_dtor e cl x (s\<lparr>sched := w1\<rparr>) = Crash Bad_pointer \<or>
      (\<exists>s2. g_dtor e cl x (s\<lparr>sched := w1\<rparr>) = Ret () s2 \<and> \<not> fl_ok (sched s2))"
    using tw
  proof (elim disjE conjE)
    assume "tasks w1 = (tasks ?w)(?t := None)"
    then have "sched_detach e cl (Some ?t) w1 = Crash Bad_pointer"
      using t(1) tc c1 cur cs(5) by (simp add: sched_detach_def preempt_lock_def deref_def)
    then show ?thesis using d [of x "s\<lparr>sched := w1\<rparr>"] by simp
  next
    assume w1: "tasks w1 = tasks ?w" "?t \<in> fl_set w1" "fl_set w1 \<subseteq> dom (tasks w1)" "heap_ok w1" "node w1 = node ?w"
    have y1: "tasks w1 ?t = Some y" using w1(1) assms(3) by simp
    obtain w2 where "return_task e ?t w1 = Ret () w2" "\<not> fl_ok w2"
      using return_listed_twice [OF w1(3,2) y1 _ w1(4), of e] t(3) w1(5) by auto
    then show ?thesis
      using d [of x "s\<lparr>sched := w1\<rparr>"] detach_stopped [OF cur c1 cs(5) r1(3) y1 assms(4) tc t(1), of e cl] by simp
  qed
  ultimately show ?thesis by blast
qed


theorem copied_g_is_returned_twice_witness:
  "\<exists>(s :: (nat, nat) g_run) x s1. g_dtor (demo_env 0) demo_clk (g_copy x) s = Ret () s1
     \<and> (g_dtor (demo_env 0) demo_clk x s1 = Crash Bad_pointer
        \<or> (\<exists>s2. g_dtor (demo_env 0) demo_clk x s1 = Ret () s2 \<and> \<not> fl_ok (sched s2)))"
proof -
  obtain s0 s :: "(nat, nat) g_run" and t y where s: "g_begin s0" "(g_step 0x4000)\<^sup>*\<^sup>* s0 s" "held s = {t}"
    "tasks (sched s) t = Some y" "run_state y = STOPPED" by (rule demo_left)
  have "reachable {t} (sched s)" using g_invD(1) [OF gs.inv_reach [OF s(1,2)]] s(3) by simp
  from copied_g_is_returned_twice [OF this, of "\<lparr>g_handle = t\<rparr>" y "demo_env 0" demo_clk] s(4,5) show ?thesis by auto
qed

end
